(* ===== verification/Prelude.thy ===== *)
theory Prelude
  imports Complex_Main "HOL-Library.AList" "HOL-Library.Word"
begin

text \<open>
  What the components share.

  \<^item> Text. A JavaScript string is a sequence of UTF-16 code units; \<open>jstring\<close> is that
    sequence with the units as numbers, and \<open>js ''abc''\<close> is a literal. \<open>split_on\<close>,
    \<open>join_with\<close>, \<open>index_of\<close> and \<open>trim\<close> are the string methods the sources call.
  \<^item> Bytes. A \<open>Uint8Array\<close> is a \<open>byte list\<close>; storing a number in it keeps its low eight
    bits, which is what \<open>word_of_nat\<close> does.
  \<^item> Maps. A JavaScript \<open>Map\<close> iterates in insertion order and keeps a key's place when it is
    set again, so it is an association list with \<open>AList.update\<close> and \<open>AList.delete\<close>.
  \<^item> Streams. \<open>framer\<close> is the contract of a reader that cuts frames off the front of a byte
    buffer; it gives the independence of the result from how the bytes were chunked.
\<close>

section \<open>Fact collections\<close>

named_theorems map_simps \<open>lookups and keys of insertion-ordered maps\<close>
named_theorems bound_intros \<open>numeric bounds of decoded values\<close>

section \<open>Text\<close>

type_synonym jchar = nat
type_synonym jstring = "jchar list"
type_synonym byte = "8 word"

definition js :: "string \<Rightarrow> jstring" where
  "js s = map of_char s"

lemma js_simps [simp]: "js [] = []" "js (c # s) = of_char c # js s"
  by (simp_all add: js_def)

abbreviation jc :: "char \<Rightarrow> jchar" where
  "jc c \<equiv> of_char c"

fun split_on :: "'a \<Rightarrow> 'a list \<Rightarrow> 'a list list" where
  "split_on d [] = [[]]"
| "split_on d (c # s) =
     (if c = d then [] # split_on d s
      else (case split_on d s of [] \<Rightarrow> [[c]] | p # ps \<Rightarrow> (c # p) # ps))"

fun join_with :: "'a \<Rightarrow> 'a list list \<Rightarrow> 'a list" where
  "join_with d [] = []"
| "join_with d [p] = p"
| "join_with d (p # q # ps) = p @ d # join_with d (q # ps)"

lemma split_on_nonempty [simp]: "split_on d s \<noteq> []"
  by (induction s) (auto split: list.splits)

lemma split_on_parts: "p \<in> set (split_on d s) \<Longrightarrow> d \<notin> set p"
  by (induction s arbitrary: p) (auto split: list.splits if_splits)

lemma split_on_notin [simp]: "d \<notin> set s \<Longrightarrow> split_on d s = [s]"
  by (induction s) auto

lemma split_on_append: "d \<notin> set p \<Longrightarrow> split_on d (p @ d # s) = p # split_on d s"
  by (induction p) auto

lemma join_split [simp]: "join_with d (split_on d s) = s"
proof (induction s)
  case (Cons c s)
  then show ?case
    by (cases "split_on d s"; cases "tl (split_on d s)") auto
qed simp

lemma split_join:
  "ps \<noteq> [] \<Longrightarrow> (\<And>p. p \<in> set ps \<Longrightarrow> d \<notin> set p) \<Longrightarrow> split_on d (join_with d ps) = ps"
  by (induction d ps rule: join_with.induct) (auto simp: split_on_append)

fun index_of :: "'a \<Rightarrow> 'a list \<Rightarrow> nat option" where
  "index_of d [] = None"
| "index_of d (c # s) = (if c = d then Some 0 else map_option Suc (index_of d s))"

lemma index_of_None [simp]: "index_of d s = None \<longleftrightarrow> d \<notin> set s"
  by (induction s) auto

lemma index_of_append [simp]: "d \<notin> set p \<Longrightarrow> index_of d (p @ d # s) = Some (length p)"
  by (induction p) auto

lemma index_of_Some_less: "index_of d s = Some n \<Longrightarrow> n < length s"
  by (induction s arbitrary: n) (auto split: if_splits)

definition starts_with :: "'a list \<Rightarrow> 'a list \<Rightarrow> bool" where
  "starts_with p s \<longleftrightarrow> take (length p) s = p"

definition slice :: "nat \<Rightarrow> nat \<Rightarrow> 'a list \<Rightarrow> 'a list" where
  "slice i j s = take (j - i) (drop i s)"

text \<open>The characters \<open>String.prototype.trim\<close> removes: white space and line terminators.\<close>

definition is_space :: "jchar \<Rightarrow> bool" where
  "is_space c \<longleftrightarrow> c = 32 \<or> (9 \<le> c \<and> c \<le> 13) \<or> c = 160 \<or> c = 5760 \<or>
     (8192 \<le> c \<and> c \<le> 8202) \<or> c = 8232 \<or> c = 8233 \<or> c = 8239 \<or> c = 8287 \<or>
     c = 12288 \<or> c = 65279"

definition trim_start :: "jstring \<Rightarrow> jstring" where
  "trim_start s = dropWhile is_space s"

definition trim :: "jstring \<Rightarrow> jstring" where
  "trim s = rev (dropWhile is_space (rev (dropWhile is_space s)))"

lemma dropWhile_id: "s = [] \<or> \<not> P (hd s) \<Longrightarrow> dropWhile P s = s"
  by (cases s) auto

lemma trim_id:
  assumes "s = [] \<or> (\<not> is_space (hd s) \<and> \<not> is_space (last s))"
  shows "trim s = s"
proof -
  have "dropWhile is_space s = s"
    using assms by (intro dropWhile_id) auto
  moreover have "dropWhile is_space (rev s) = rev s"
    using assms by (intro dropWhile_id) (auto simp: hd_rev)
  ultimately show ?thesis by (simp add: trim_def)
qed

text \<open>Character classes of the regular expressions.\<close>

definition is_digit :: "jchar \<Rightarrow> bool" where
  "is_digit c \<longleftrightarrow> 48 \<le> c \<and> c \<le> 57"

definition is_upper :: "jchar \<Rightarrow> bool" where
  "is_upper c \<longleftrightarrow> 65 \<le> c \<and> c \<le> 90"

definition is_lower :: "jchar \<Rightarrow> bool" where
  "is_lower c \<longleftrightarrow> 97 \<le> c \<and> c \<le> 122"

definition hex_value :: "jchar \<Rightarrow> nat option" where
  "hex_value c =
     (if is_digit c then Some (c - 48)
      else if 65 \<le> c \<and> c \<le> 70 then Some (c - 55)
      else if 97 \<le> c \<and> c \<le> 102 then Some (c - 87)
      else None)"

abbreviation is_hex :: "jchar \<Rightarrow> bool" where
  "is_hex c \<equiv> hex_value c \<noteq> None"

text \<open>\<open>parseInt(s, 16)\<close> on a string of hexadecimal digits.\<close>

definition hex_nat :: "jstring \<Rightarrow> nat" where
  "hex_nat s = foldl (\<lambda>n c. n * 16 + (case hex_value c of Some v \<Rightarrow> v | None \<Rightarrow> 0)) 0 s"

section \<open>Numbers\<close>

text \<open>\<open>Math.round\<close> rounds halves up.\<close>

definition math_round :: "rat \<Rightarrow> int" where
  "math_round x = \<lfloor>x + 1 / 2\<rfloor>"

lemma math_round_mono: "x \<le> y \<Longrightarrow> math_round x \<le> math_round y"
  by (simp add: math_round_def floor_mono)

lemma math_round_int [simp]: "math_round (of_int n) = n"
  unfolding math_round_def by (rule floor_unique) simp_all

section \<open>Insertion-ordered maps\<close>

lemma alist_update_lookup [map_simps]: "map_of (AList.update k v m) = (map_of m)(k \<mapsto> v)"
  by (rule update_conv')

lemma alist_delete_lookup [map_simps]: "map_of (AList.delete k m) = (map_of m)(k := None)"
  by (rule delete_conv')

lemma alist_update_new: "map_of m k = None \<Longrightarrow> AList.update k v m = m @ [(k, v)]"
  by (induction m) (auto split: if_splits)

lemma length_update_new: "map_of m k = None \<Longrightarrow> length (AList.update k v m) = Suc (length m)"
  by (simp add: alist_update_new)

lemma length_update_old: "map_of m k = Some w \<Longrightarrow> length (AList.update k v m) = length m"
  by (induction m) auto

lemma length_alist_delete: "length (AList.delete k m) \<le> length m"
  by (simp add: AList.delete_eq)

lemma distinct_alist_delete: "distinct (map fst m) \<Longrightarrow> distinct (map fst (AList.delete k m))"
  by (rule distinct_delete)

section \<open>Readers that cut frames off a buffer\<close>

text \<open>
  One attempt to cut a frame: more bytes are needed, the bytes are malformed, or a frame was
  cut and the rest of the buffer remains.
\<close>

datatype ('e, 'f, 'b) cut = Wait | Fault 'e | Cut 'f "'b list"

function drain :: "('b list \<Rightarrow> ('e, 'f, 'b) cut) \<Rightarrow> 'b list \<Rightarrow> 'f list \<times> 'e option \<times> 'b list" where
  "drain cut1 b =
     (case cut1 b of
        Wait \<Rightarrow> ([], None, b)
      | Fault e \<Rightarrow> ([], Some e, b)
      | Cut f r \<Rightarrow>
          if length r < length b then
            (case drain cut1 r of (fs, e, r') \<Rightarrow> (f # fs, e, r'))
          else ([], None, b))"
  by pat_completeness auto
termination
  by (relation "measure (\<lambda>(c, b). length b)") auto

declare drain.simps [simp del]

text \<open>
  The contract: a cut makes progress, and what was decided from the bytes so far is not
  changed by the bytes still to come.
\<close>

locale framer =
  fixes cut1 :: "'b list \<Rightarrow> ('e, 'f, 'b) cut"
  assumes cut_shorter: "cut1 b = Cut f r \<Longrightarrow> length r < length b"
    and cut_extend: "cut1 b = Cut f r \<Longrightarrow> cut1 (b @ x) = Cut f (r @ x)"
    and fault_extend: "cut1 b = Fault e \<Longrightarrow> cut1 (b @ x) = Fault e"
begin

lemma drain_Wait: "cut1 b = Wait \<Longrightarrow> drain cut1 b = ([], None, b)"
  by (simp add: drain.simps)

lemma drain_Fault: "cut1 b = Fault e \<Longrightarrow> drain cut1 b = ([], Some e, b)"
  by (simp add: drain.simps)

lemma drain_Cut:
  "cut1 b = Cut f r \<Longrightarrow>
   drain cut1 b = (case drain cut1 r of (fs, e, r') \<Rightarrow> (f # fs, e, r'))"
  by (subst drain.simps) (simp add: cut_shorter)

text \<open>Draining a longer buffer first drains what was there already.\<close>

lemma drain_append:
  "drain cut1 b = (fs, None, r) \<Longrightarrow>
   drain cut1 (b @ x) = (case drain cut1 (r @ x) of (gs, e, r') \<Rightarrow> (fs @ gs, e, r'))"
proof (induction b arbitrary: fs r rule: length_induct)
  case (1 b)
  show ?case
  proof (cases "cut1 b")
    case Wait
    with 1 show ?thesis by (simp add: drain_Wait)
  next
    case (Fault e)
    with 1 show ?thesis by (simp add: drain_Fault)
  next
    case (Cut f b')
    with "1.prems" obtain fs' where d: "drain cut1 b' = (fs', None, r)" and fs: "fs = f # fs'"
      by (auto simp: drain_Cut split: prod.splits)
    from Cut have "length b' < length b" by (rule cut_shorter)
    with "1.IH" d
    have "drain cut1 (b' @ x) = (case drain cut1 (r @ x) of (gs, e, r') \<Rightarrow> (fs' @ gs, e, r'))"
      by blast
    with cut_extend [OF Cut, of x] fs show ?thesis
      by (simp add: drain_Cut split: prod.splits)
  qed
qed

lemma drain_append_fault:
  "drain cut1 b = (fs, Some e, r) \<Longrightarrow> \<exists>r'. drain cut1 (b @ x) = (fs, Some e, r')"
proof (induction b arbitrary: fs r rule: length_induct)
  case (1 b)
  show ?case
  proof (cases "cut1 b")
    case Wait
    with 1 show ?thesis by (simp add: drain_Wait)
  next
    case (Fault e')
    with "1.prems" fault_extend [OF Fault, of x] show ?thesis
      by (simp add: drain_Fault)
  next
    case (Cut f b')
    with "1.prems" obtain fs' where d: "drain cut1 b' = (fs', Some e, r)" and fs: "fs = f # fs'"
      by (auto simp: drain_Cut split: prod.splits)
    from Cut have "length b' < length b" by (rule cut_shorter)
    with "1.IH" d obtain r' where "drain cut1 (b' @ x) = (fs', Some e, r')"
      by blast
    with cut_extend [OF Cut, of x] fs show ?thesis
      by (simp add: drain_Cut)
  qed
qed

lemma drain_rest: "drain cut1 b = (fs, None, r) \<Longrightarrow> cut1 r = Wait"
proof (induction b arbitrary: fs rule: length_induct)
  case (1 b)
  then show ?case
    by (cases "cut1 b")
      (auto simp: drain_Wait drain_Fault drain_Cut split: prod.splits dest: cut_shorter)
qed

text \<open>A buffer fed chunk by chunk, stopping at the first fault.\<close>

fun feed :: "'b list list \<Rightarrow> 'b list \<Rightarrow> 'f list \<times> 'e option \<times> 'b list" where
  "feed [] b = ([], None, b)"
| "feed (c # cs) b =
     (case drain cut1 (b @ c) of
        (fs, None, r) \<Rightarrow> (case feed cs r of (gs, e, r') \<Rightarrow> (fs @ gs, e, r'))
      | (fs, Some e, r) \<Rightarrow> (fs, Some e, r))"

text \<open>The frames and the fault do not depend on where the stream was cut into chunks.\<close>

lemma feed_drain:
  "cut1 b = Wait \<Longrightarrow> feed cs b = (fs, e, r) \<Longrightarrow>
   \<exists>r'. drain cut1 (b @ concat cs) = (fs, e, r') \<and> (e = None \<longrightarrow> r' = r)"
proof (induction cs arbitrary: b fs)
  case Nil
  then show ?case by (simp add: drain_Wait)
next
  case (Cons c cs)
  obtain gs e1 r1 where d: "drain cut1 (b @ c) = (gs, e1, r1)" by (metis prod_cases3)
  show ?case
  proof (cases e1)
    case None
    with d have w: "cut1 r1 = Wait" by (simp add: drain_rest)
    obtain hs where f: "feed cs r1 = (hs, e, r)" and fs: "fs = gs @ hs"
      using Cons.prems(2) d None by (auto split: prod.splits)
    from Cons.IH [OF w f] obtain r' where
      "drain cut1 (r1 @ concat cs) = (hs, e, r')" "e = None \<longrightarrow> r' = r" by blast
    with drain_append [of "b @ c" gs r1 "concat cs"] d None fs show ?thesis by simp
  next
    case (Some e')
    with Cons.prems(2) d have "fs = gs" "e = Some e'" by auto
    with drain_append_fault [of "b @ c" gs e' r1 "concat cs"] d Some show ?thesis by auto
  qed
qed

end

section \<open>Bytes\<close>

text \<open>A fact about every byte is checked on the 256 of them.\<close>

lemma byte_all:
  fixes P :: "byte \<Rightarrow> bool"
  assumes "list_all (\<lambda>n. P (word_of_nat n)) [0..<256]"
  shows "P b"
proof -
  have "unat b < 256" using unsigned_less [of b] by simp
  with assms have "P (word_of_nat (unat b))"
    unfolding list_all_iff by (metis atLeastLessThan_iff le0 set_upt)
  then show ?thesis by simp
qed

lemma unat_byte_less [simp]: "unat (b :: byte) < 256"
  using unsigned_less [of b] by simp

lemma unat_byte_of_nat [simp]: "n < 256 \<Longrightarrow> unat (word_of_nat n :: byte) = n"
  by (simp add: unat_of_nat)

lemma unat_low7 [simp]: "unat (and b 0x7f :: byte) = unat b mod 128"
proof -
  have "and b 0x7f = take_bit 7 b" by (simp add: take_bit_eq_mask mask_eq_exp_minus_1)
  moreover have "unat (take_bit 7 b) = unat b mod 128"
    using unsigned_take_bit_eq [of 7 b, where 'a = nat] by (simp add: take_bit_eq_mod [of 7 "unat b"])
  ultimately show ?thesis by simp
qed

lemma high_bit [simp]: "and b 0x80 = (0 :: byte) \<longleftrightarrow> unat b < 128"
proof -
  have e: "(0x80 :: byte) = push_bit 7 1" by (simp add: push_bit_eq_mult)
  have "and b 0x80 = (0 :: byte) \<longleftrightarrow> \<not> bit b 7"
  proof
    assume "and b 0x80 = (0 :: byte)"
    then have "\<not> bit (and b 0x80) 7" by simp
    then show "\<not> bit b 7" unfolding e by (simp add: bit_and_iff bit_push_bit_iff)
  next
    assume b7: "\<not> bit b 7"
    show "and b 0x80 = (0 :: byte)"
    proof (rule bit_eqI)
      fix n
      have "bit (0x80 :: byte) n \<Longrightarrow> n = 7"
        unfolding e by (simp only: bit_push_bit_iff bit_1_iff) auto
      with b7 show "bit (and b 0x80) n = bit (0 :: byte) n" by (auto simp: bit_and_iff)
    qed
  qed
  also have "bit b 7 \<longleftrightarrow> bit (unat b) 7" by (simp add: bit_simps)
  also have "\<dots> \<longleftrightarrow> odd (unat b div 128)" by (simp add: bit_iff_odd)
  also have "\<dots> \<longleftrightarrow> \<not> unat b < 128"
  proof -
    have "unat b div 128 < 2" by (rule less_mult_imp_div_less) simp
    then have "unat b div 128 = 0 \<or> unat b div 128 = 1" by auto
    then show ?thesis by (auto simp: div_eq_0_iff)
  qed
  finally show ?thesis by simp
qed

text \<open>Two bytes, most significant first, as the codecs write and read a length or an id.\<close>

definition be16 :: "nat \<Rightarrow> byte list" where
  "be16 n = [word_of_nat (drop_bit 8 n), word_of_nat (and n 255)]"

definition read16 :: "byte \<Rightarrow> byte \<Rightarrow> nat" where
  "read16 a b = or (push_bit 8 (unat a)) (unat b)"

lemma or_push: "b < 2 ^ k \<Longrightarrow> or (push_bit k a) b = a * 2 ^ k + (b :: nat)"
proof -
  assume "b < 2 ^ k"
  then have b: "take_bit k b = b" by (simp add: take_bit_eq_mod)
  have "and (push_bit k a) b = 0"
    by (rule bit_eqI) (metis b bit_0_eq bit_and_iff bit_push_bit_iff bit_take_bit_iff bot_apply
        bot_bool_def not_le)
  then show ?thesis
    by (simp add: disjunctive_add_eq_or [symmetric] push_bit_eq_mult)
qed

lemma read16_eq: "read16 a b = unat a * 256 + unat b"
  by (simp add: read16_def or_push)

lemma and_255: "and n 255 = n mod (256 :: nat)"
  using take_bit_eq_mask [of 8 n] by (simp add: mask_eq_exp_minus_1 take_bit_eq_mod)

lemma unat_or_0x80: "n < 128 \<Longrightarrow> unat (or (word_of_nat n) 0x80 :: byte) = n + 128"
  using or_push [of n 7 1] by (simp add: unsigned_or_eq push_bit_eq_mult or.commute)

lemma be16_eq: "be16 n = [word_of_nat (n div 256), word_of_nat (n mod 256)]"
  by (simp add: be16_def drop_bit_eq_div and_255)

lemma read16_be16 [simp]:
  "n < 65536 \<Longrightarrow> read16 (word_of_nat (n div 256)) (word_of_nat (n mod 256)) = n"
  by (simp add: read16_eq)

lemma length_be16 [simp]: "length (be16 n) = 2"
  by (simp add: be16_def)

section \<open>Sets and indexes\<close>

text \<open>
  A \<open>Set\<close> iterates in insertion order. An index is a \<open>Map\<close> from keys to sets; a set that has
  become empty stays.
\<close>

definition add_to :: "'a \<Rightarrow> 'a list \<Rightarrow> 'a list" where
  "add_to x xs = (if x \<in> set xs then xs else xs @ [x])"

definition set_of :: "('k \<times> 'a list) list \<Rightarrow> 'k \<Rightarrow> 'a list" where
  "set_of m k = (case map_of m k of Some s \<Rightarrow> s | None \<Rightarrow> [])"

definition index_in :: "'k \<Rightarrow> 'a \<Rightarrow> ('k \<times> 'a list) list \<Rightarrow> ('k \<times> 'a list) list" where
  "index_in k i m = AList.update k (add_to i (set_of m k)) m"

definition unindex_in :: "'k \<Rightarrow> 'a \<Rightarrow> ('k \<times> 'a list) list \<Rightarrow> ('k \<times> 'a list) list" where
  "unindex_in k i m = (case map_of m k of None \<Rightarrow> m | Some s \<Rightarrow> AList.update k (removeAll i s) m)"

lemma set_add_to [simp]: "set (add_to x xs) = insert x (set xs)"
  by (auto simp: add_to_def)

lemma set_of_index [simp]:
  "set (set_of (index_in k i m) k') = (if k' = k then insert i (set (set_of m k)) else set (set_of m k'))"
  by (cases "map_of m k"; cases "map_of m k'") (auto simp: set_of_def index_in_def map_simps)

lemma set_of_unindex [simp]:
  "set (set_of (unindex_in k i m) k') = (if k' = k then set (set_of m k) - {i} else set (set_of m k'))"
  by (auto simp: set_of_def unindex_in_def map_simps split: option.splits)

lemma set_of_fold_index [simp]:
  "set (set_of (fold (\<lambda>k. index_in k i) ks m) k') =
     (if k' \<in> set ks then insert i (set (set_of m k')) else set (set_of m k'))"
  by (induction ks arbitrary: m) auto

lemma set_of_fold_unindex [simp]:
  "set (set_of (fold (\<lambda>k. unindex_in k i) ks m) k') =
     (if k' \<in> set ks then set (set_of m k') - {i} else set (set_of m k'))"
  by (induction ks arbitrary: m) auto

lemma distinct_add_to: "distinct xs \<Longrightarrow> distinct (add_to x xs)"
  by (simp add: add_to_def)

lemma distinct_index: "\<forall>k. distinct (set_of m k) \<Longrightarrow> distinct (set_of (index_in k i m) k')"
  by (auto simp: set_of_def index_in_def map_simps distinct_add_to split: option.splits)

lemma distinct_unindex: "\<forall>k. distinct (set_of m k) \<Longrightarrow> distinct (set_of (unindex_in k i m) k')"
  by (auto simp: set_of_def unindex_in_def map_simps distinct_removeAll split: option.splits)

section \<open>Sorting with a comparison\<close>

text \<open>
  \<open>Array.prototype.sort\<close> is stable: \<open>lt a b\<close> is that the comparison of \<open>a\<close> with \<open>b\<close> is negative.
  Where the comparison is that of a key, the result is \<open>sort_key\<close>.
\<close>

definition place_in :: "('a \<Rightarrow> 'a \<Rightarrow> bool) \<Rightarrow> 'a \<Rightarrow> 'a list \<Rightarrow> 'a list" where
  "place_in lt x xs = takeWhile (\<lambda>y. lt y x) xs @ x # dropWhile (\<lambda>y. lt y x) xs"

definition sort_with :: "('a \<Rightarrow> 'a \<Rightarrow> bool) \<Rightarrow> 'a list \<Rightarrow> 'a list" where
  "sort_with lt xs = foldr (place_in lt) xs []"

lemma set_place_in [simp]: "set (place_in lt x xs) = insert x (set xs)"
proof -
  have "set xs = set (takeWhile (\<lambda>y. lt y x) xs) \<union> set (dropWhile (\<lambda>y. lt y x) xs)"
    by (metis set_append takeWhile_dropWhile_id)
  then show ?thesis by (simp add: place_in_def)
qed

lemma set_sort_with [simp]: "set (sort_with lt xs) = set xs"
  unfolding sort_with_def by (induction xs) simp_all

lemma place_in_insort:
  fixes key :: "'a \<Rightarrow> 'k::linorder"
  shows "(\<And>y. y \<in> set xs \<Longrightarrow> lt y x \<longleftrightarrow> key y < key x) \<Longrightarrow> place_in lt x xs = insort_key key x xs"
  by (induction xs) (auto simp: place_in_def not_le)

lemma sort_with_key:
  fixes key :: "'a \<Rightarrow> 'k::linorder"
  assumes "\<And>x y. x \<in> set xs \<Longrightarrow> y \<in> set xs \<Longrightarrow> lt x y \<longleftrightarrow> key x < key y"
  shows "sort_with lt xs = sort_key key xs"
  using assms
proof (induction xs)
  case (Cons x xs)
  then have "foldr (place_in lt) xs [] = sort_key key xs"
    by (simp add: sort_with_def)
  with Cons.prems show ?case
    by (auto simp: sort_with_def intro!: place_in_insort)
qed (simp add: sort_with_def)

end
