(* ===== verification/Resilience.thy ===== *)
theory Resilience
  imports Prelude
begin

text \<open>
  The resilience primitives of \<open>packages/core/src/resilience.ts\<close>: backoff, the sliding-window
  limiters, the circuit breaker, single-flight coalescing and bounded retry. The clock reading
  is an argument (\<open>now\<close>) of every operation that asks for the time; milliseconds are integers.
  A wait is an \<open>int option\<close>, \<open>None\<close> standing for the \<open>NaN\<close> that \<open>Math.max(1, undefined + \<dots>)\<close>
  gives when a limit of zero meets an empty bucket. \<open>sleep\<close> and \<open>combineSignals\<close> only wire
  timers and abort signals together and are not modelled; \<open>withRetry\<close> takes their outcome.
\<close>

section \<open>Backoff\<close>

record backoff_policy =
  bp_baseMs :: rat
  bp_maxMs :: rat
  bp_factor :: rat
  bp_jitter :: rat

definition DEFAULT_BACKOFF :: backoff_policy where
  "DEFAULT_BACKOFF = \<lparr>bp_baseMs = 1000, bp_maxMs = 5 * 60000, bp_factor = 2, bp_jitter = 1 / 5\<rparr>"

text \<open>\<open>rnd\<close> is the value the random source returned.\<close>

definition backoff_raw :: "int \<Rightarrow> backoff_policy \<Rightarrow> rat" where
  "backoff_raw attempt p = min (bp_maxMs p) (bp_baseMs p * bp_factor p ^ nat (max 0 attempt))"

definition backoffDelay :: "int \<Rightarrow> backoff_policy \<Rightarrow> rat \<Rightarrow> int" where
  "backoffDelay attempt p rnd =
     (let raw = backoff_raw attempt p;
          jitter = raw * bp_jitter p * (rnd * 2 - 1)
      in max 0 (math_round (raw + jitter)))"

section \<open>Sliding windows\<close>

fun prune :: "int list \<Rightarrow> int \<Rightarrow> int list" where
  "prune [] cutoff = []"
| "prune (t # ts) cutoff = (if t \<le> cutoff then prune ts cutoff else t # ts)"

definition head_wait :: "int list \<Rightarrow> int \<Rightarrow> int \<Rightarrow> int option" where
  "head_wait ts w now = (case ts of [] \<Rightarrow> None | t # _ \<Rightarrow> Some (max 1 (t + w - now)))"

record limiter_opts =
  rl_windowMs :: int
  rl_max :: int
  rl_globalMax :: "int option"
  rl_maxKeys :: "int option"

record rate_limiter =
  rl_buckets :: "(jstring \<times> int list) list"
  rl_global :: "int list"

definition new_limiter :: rate_limiter where
  "new_limiter = \<lparr>rl_buckets = [], rl_global = []\<rparr>"

text \<open>The bucket of a key, made when it is missing; the oldest key goes when there are too many.\<close>

definition open_bucket ::
    "limiter_opts \<Rightarrow> jstring \<Rightarrow> (jstring \<times> int list) list \<Rightarrow> (jstring \<times> int list) list" where
  "open_bucket opts key bs =
     (case map_of bs key of
        Some _ \<Rightarrow> bs
      | None \<Rightarrow>
          AList.update key []
            (if int (length bs) \<ge> (case rl_maxKeys opts of Some n \<Rightarrow> n | None \<Rightarrow> 2000)
             then (case bs of [] \<Rightarrow> [] | (k, _) # _ \<Rightarrow> AList.delete k bs)
             else bs))"

definition limiter_tryAcquire ::
    "limiter_opts \<Rightarrow> jstring \<Rightarrow> int \<Rightarrow> rate_limiter \<Rightarrow> int option \<times> rate_limiter" where
  "limiter_tryAcquire opts key now s =
     (let w = rl_windowMs opts;
          cutoff = now - w;
          bs = open_bucket opts key (rl_buckets s);
          bucket = prune (case map_of bs key of Some b \<Rightarrow> b | None \<Rightarrow> []) cutoff;
          glob = prune (rl_global s) cutoff;
          s' = \<lparr>rl_buckets = AList.update key bucket bs, rl_global = glob\<rparr>
      in if rl_max opts > 0 \<and> int (length bucket) \<ge> rl_max opts then (head_wait bucket w now, s')
         else if (case rl_globalMax opts of Some g \<Rightarrow> int (length glob) \<ge> g | None \<Rightarrow> False)
         then (head_wait glob w now, s')
         else (Some 0, \<lparr>rl_buckets = AList.update key (bucket @ [now]) bs,
                        rl_global = glob @ [now]\<rparr>))"

record host_budget =
  hb_buckets :: "(jstring \<times> int list) list"
  hb_limits :: "(jstring \<times> int) list"

definition new_budget :: host_budget where
  "new_budget = \<lparr>hb_buckets = [], hb_limits = []\<rparr>"

definition limitFor :: "jstring \<Rightarrow> host_budget \<Rightarrow> int option" where
  "limitFor host s = map_of (hb_limits s) host"

definition budget_tryAcquire ::
    "int \<Rightarrow> jstring \<Rightarrow> int \<Rightarrow> int \<Rightarrow> host_budget \<Rightarrow> int option \<times> host_budget" where
  "budget_tryAcquire w host perWindow now s =
     (let mx = (case map_of (hb_limits s) host of None \<Rightarrow> perWindow | Some d \<Rightarrow> min d perWindow);
          lims = AList.update host mx (hb_limits s);
          bucket = prune (case map_of (hb_buckets s) host of Some b \<Rightarrow> b | None \<Rightarrow> []) (now - w)
      in if int (length bucket) \<ge> mx
         then (head_wait bucket w now,
               \<lparr>hb_buckets = AList.update host bucket (hb_buckets s), hb_limits = lims\<rparr>)
         else (Some 0,
               \<lparr>hb_buckets = AList.update host (bucket @ [now]) (hb_buckets s), hb_limits = lims\<rparr>))"

section \<open>The window contract\<close>

text \<open>A run of calls, each answering and changing the state.\<close>

fun run_calls :: "('c \<Rightarrow> 's \<Rightarrow> 'r \<times> 's) \<Rightarrow> 'c list \<Rightarrow> 's \<Rightarrow> 'r list \<times> 's" where
  "run_calls step [] s = ([], s)"
| "run_calls step (c # cs) s =
     (case step c s of (r, s1) \<Rightarrow> (case run_calls step cs s1 of (rs, s2) \<Rightarrow> (r # rs, s2)))"

definition grant_times :: "('c \<Rightarrow> int) \<Rightarrow> ('c \<Rightarrow> 'r \<Rightarrow> bool) \<Rightarrow> 'c list \<Rightarrow> 'r list \<Rightarrow> int list" where
  "grant_times time granted cs rs = map (time \<circ> fst) (filter (\<lambda>(c, r). granted c r) (zip cs rs))"

definition in_window :: "int \<Rightarrow> int \<Rightarrow> int list \<Rightarrow> nat" where
  "in_window w t ts = length (filter (\<lambda>u. t - w < u \<and> u \<le> t) ts)"

lemma prune_dropWhile: "prune ts c = dropWhile (\<lambda>t. t \<le> c) ts"
  by (induction ts) auto

lemma prune_sorted: "sorted ts \<Longrightarrow> prune ts c = filter (\<lambda>t. c < t) ts"
proof (induction ts)
  case (Cons t ts)
  then show ?case by (cases "t \<le> c") (auto intro!: filter_True [symmetric])
qed simp

lemma prune_prune: "c \<le> d \<Longrightarrow> prune (prune ts c) d = prune ts d"
  by (induction ts) auto

lemma prune_snoc: "c < t \<Longrightarrow> prune ts c @ [t] = prune (ts @ [t]) c"
  by (induction ts) auto

lemma length_prune: "length (prune ts c) \<le> length ts"
  by (induction ts) auto

text \<open>
  A component that keeps a log of the grants of the last \<open>w\<close> milliseconds, and grants only
  while fewer than \<open>cap\<close> are in it.
\<close>

locale window_log =
  fixes w :: int
    and cap :: nat
    and time :: "'c \<Rightarrow> int"
    and ok :: "'c \<Rightarrow> bool"
    and step :: "'c \<Rightarrow> 's \<Rightarrow> 'r \<times> 's"
    and granted :: "'c \<Rightarrow> 'r \<Rightarrow> bool"
    and log :: "'s \<Rightarrow> int list"
    and inv :: "'s \<Rightarrow> bool"
  assumes granted_log: "inv s \<Longrightarrow> ok c \<Longrightarrow> step c s = (r, s') \<Longrightarrow> granted c r \<Longrightarrow>
      log s' = prune (log s) (time c - w) @ [time c] \<and> length (prune (log s) (time c - w)) < cap"
    and refused_log: "inv s \<Longrightarrow> ok c \<Longrightarrow> step c s = (r, s') \<Longrightarrow> \<not> granted c r \<Longrightarrow>
      log s' = log s \<or> log s' = prune (log s) (time c - w)"
    and inv_step: "inv s \<Longrightarrow> ok c \<Longrightarrow> step c s = (r, s') \<Longrightarrow> inv s'"
begin

text \<open>\<open>H\<close> is every grant so far; the log is what a past cutoff left of it.\<close>

definition logs :: "int list \<Rightarrow> int \<Rightarrow> 's \<Rightarrow> bool" where
  "logs H now s \<longleftrightarrow> sorted H \<and> (\<forall>h \<in> set H. h \<le> now) \<and>
     (\<exists>c. c \<le> now - w \<and> log s = prune H c) \<and> (\<forall>t. in_window w t H \<le> cap)"

lemma logs_prune:
  assumes "logs H now s" and "now \<le> t"
  shows "prune (log s) (t - w) = filter (\<lambda>u. t - w < u) H"
proof -
  from assms(1) obtain c where "c \<le> now - w" "log s = prune H c" "sorted H"
    by (auto simp: logs_def)
  with assms(2) have "prune (log s) (t - w) = prune H (t - w)"
    by (simp add: prune_prune)
  with \<open>sorted H\<close> show ?thesis by (simp add: prune_sorted)
qed

lemma in_window_snoc:
  assumes "length (filter (\<lambda>u. t0 - w < u) H) < cap" and "in_window w t H \<le> cap"
  shows "in_window w t (H @ [t0]) \<le> cap"
proof (cases "t0 \<le> t")
  case True
  then have "length (filter (\<lambda>u. t - w < u \<and> u \<le> t) H) \<le> length (filter (\<lambda>u. t0 - w < u) H)"
    by (induction H) auto
  with assms show ?thesis by (auto simp: in_window_def)
next
  case False
  with assms show ?thesis by (simp add: in_window_def)
qed

lemma logs_granted:
  assumes "logs H now s" "inv s" "ok c" "step c s = (r, s')" "granted c r" "now \<le> time c"
    and w_pos: "0 < w"
  shows "logs (H @ [time c]) (time c) s'"
proof -
  from assms(1,6) have p: "prune (log s) (time c - w) = filter (\<lambda>u. time c - w < u) H"
    by (rule logs_prune)
  from granted_log [OF assms(2-5)]
  have l: "log s' = prune (log s) (time c - w) @ [time c]"
    and n: "length (filter (\<lambda>u. time c - w < u) H) < cap"
    by (simp_all add: p)
  from assms(1) have H: "sorted H" "\<And>h. h \<in> set H \<Longrightarrow> h \<le> now" by (auto simp: logs_def)
  from H p l w_pos have "log s' = prune (H @ [time c]) (time c - w)"
    by (simp add: prune_sorted [symmetric] prune_snoc)
  moreover have "\<And>t. in_window w t (H @ [time c]) \<le> cap"
    using n assms(1) by (intro in_window_snoc) (auto simp: logs_def)
  ultimately show ?thesis
    using H assms(6) by (force simp: logs_def sorted_append)
qed

lemma logs_refused:
  assumes "logs H now s" "inv s" "ok c" "step c s = (r, s')" "\<not> granted c r" "now \<le> time c"
  shows "logs H (time c) s'"
proof -
  from assms(1) obtain d where d: "d \<le> now - w" "log s = prune H d" by (auto simp: logs_def)
  with assms(6) have "prune (log s) (time c - w) = prune H (time c - w)"
    by (simp add: prune_prune)
  with refused_log [OF assms(2-5)] d assms(6) have "\<exists>e. e \<le> time c - w \<and> log s' = prune H e"
    by (metis diff_right_mono order.refl order.trans)
  with assms(1,6) show ?thesis by (force simp: logs_def)
qed

lemma run_logs:
  assumes "logs H now s" "inv s" "sorted (now # map time cs)" "list_all ok cs"
    and "run_calls step cs s = (rs, s')" and w_pos: "0 < w"
  shows "in_window w t (H @ grant_times time granted cs rs) \<le> cap"
  using assms(1-5)
proof (induction cs arbitrary: H now s rs)
  case Nil
  then show ?case by (auto simp: grant_times_def logs_def)
next
  case (Cons c cs)
  obtain r s1 where st: "step c s = (r, s1)" by force
  with Cons.prems(5) obtain rs1 where rs: "rs = r # rs1" and run: "run_calls step cs s1 = (rs1, s')"
    by (auto split: prod.splits)
  from Cons.prems have le: "now \<le> time c" and c: "ok c" and cs: "list_all ok cs"
    and sorted: "sorted (time c # map time cs)" by auto
  note i1 = inv_step [OF Cons.prems(2) c st]
  show ?case
  proof (cases "granted c r")
    case True
    have "logs (H @ [time c]) (time c) s1"
      by (rule logs_granted [OF Cons.prems(1,2) c st True le w_pos])
    from Cons.IH [OF this i1 sorted cs run] True rs show ?thesis by (simp add: grant_times_def)
  next
    case False
    have "logs H (time c) s1"
      by (rule logs_refused [OF Cons.prems(1,2) c st False le])
    from Cons.IH [OF this i1 sorted cs run] False rs show ?thesis by (simp add: grant_times_def)
  qed
qed

text \<open>From an empty log, no window of length \<open>w\<close> ever holds more than \<open>cap\<close> grants.\<close>

lemma window_bound:
  assumes "log s = []" "inv s" "sorted (map time cs)" "list_all ok cs"
    and "run_calls step cs s = (rs, s')" and "0 < w"
  shows "in_window w t (grant_times time granted cs rs) \<le> cap"
proof (cases cs)
  case Nil
  then show ?thesis by (simp add: grant_times_def in_window_def)
next
  case (Cons c cs')
  have "logs [] (time c) s"
    using assms(1) by (auto simp: logs_def in_window_def intro: exI [of _ "time c - w"])
  from run_logs [OF this assms(2) _ assms(4,5,6)] assms(3) Cons show ?thesis by simp
qed

end


section \<open>Shared host budget\<close>

definition bucket_of :: "jstring \<Rightarrow> (jstring \<times> int list) list \<Rightarrow> int list" where
  "bucket_of k bs = (case map_of bs k of Some b \<Rightarrow> b | None \<Rightarrow> [])"

lemma bucket_of_update [simp]:
  "bucket_of k (AList.update k' b bs) = (if k = k' then b else bucket_of k bs)"
  by (simp add: bucket_of_def map_simps)

text \<open>A call of the budget is a host, the budget its client declares, and the time.\<close>

type_synonym budget_call = "jstring \<times> int \<times> int"

definition budget_step :: "int \<Rightarrow> budget_call \<Rightarrow> host_budget \<Rightarrow> int option \<times> host_budget" where
  "budget_step w = (\<lambda>(host, perWindow, now). budget_tryAcquire w host perWindow now)"

definition granted_to :: "jstring \<Rightarrow> budget_call \<Rightarrow> int option \<Rightarrow> bool" where
  "granted_to host = (\<lambda>(h, _, _) r. h = host \<and> r = Some 0)"

lemma head_wait_nonzero [simp]: "head_wait ts w now \<noteq> Some 0"
  by (auto simp: head_wait_def split: list.splits)

lemma budget_limit:
  "budget_tryAcquire w host n now s = (r, s') \<Longrightarrow>
   limitFor h s' = (if h = host then Some (case limitFor host s of None \<Rightarrow> n | Some d \<Rightarrow> min d n)
                    else limitFor h s)"
  by (auto simp: budget_tryAcquire_def limitFor_def Let_def map_simps split: if_splits)

interpretation budget: window_log w cap "\<lambda>(h, n, t). t"
  "\<lambda>(h, n, t). h = host \<longrightarrow> n \<le> int cap" "budget_step w" "granted_to host"
  "\<lambda>s. bucket_of host (hb_buckets s)" "\<lambda>s. True"
  for w :: int and cap :: nat and host :: jstring
proof unfold_locales
  fix s s' :: host_budget and c :: budget_call and r :: "int option"
  obtain h n t where c: "c = (h, n, t)" by (cases c)
  assume ok: "case c of (h, n, t) \<Rightarrow> h = host \<longrightarrow> n \<le> int cap"
    and st: "budget_step w c s = (r, s')"
  {
    assume "granted_to host c r"
    with st ok c show "bucket_of host (hb_buckets s') =
        prune (bucket_of host (hb_buckets s)) ((case c of (h, n, t) \<Rightarrow> t) - w) @
          [case c of (h, n, t) \<Rightarrow> t] \<and>
        length (prune (bucket_of host (hb_buckets s)) ((case c of (h, n, t) \<Rightarrow> t) - w)) < cap"
      by (auto simp: granted_to_def budget_step_def budget_tryAcquire_def Let_def
          bucket_of_def [symmetric] split: if_splits option.splits)
  next
    assume "\<not> granted_to host c r"
    with st c show "bucket_of host (hb_buckets s') = bucket_of host (hb_buckets s) \<or>
        bucket_of host (hb_buckets s') =
          prune (bucket_of host (hb_buckets s)) ((case c of (h, n, t) \<Rightarrow> t) - w)"
      by (auto simp: granted_to_def budget_step_def budget_tryAcquire_def Let_def
          bucket_of_def [symmetric] split: if_splits)
  }
qed simp

text \<open>
  C24: however many clients share a host's budget and in whatever order they call, if every call
  for the host declares at most \<open>n\<close> requests then no window of \<open>w\<close> milliseconds, wherever it
  ends, holds more than \<open>n\<close> granted requests.
\<close>
theorem budget_window_bound:
  assumes "0 < w" and "sorted (map (\<lambda>(h, m, now). now) calls)"
    and "\<forall>(h, m, now) \<in> set calls. h = host \<longrightarrow> m \<le> int n"
    and "run_calls (budget_step w) calls new_budget = (answers, s)"
  shows "in_window w t (grant_times (\<lambda>(h, m, now). now) (granted_to host) calls answers) \<le> n"
  using assms
  by (intro budget.window_bound) (auto simp: new_budget_def bucket_of_def list_all_iff)

text \<open>Two clients with different budgets for one host: the third request must wait.\<close>
theorem budget_window_bound_witness:
  defines "calls \<equiv> [(js ''a'', 3, 0), (js ''a'', 2, 5), (js ''a'', 3, 9)]"
  shows "fst (run_calls (budget_step 100) calls new_budget) = [Some 0, Some 0, Some 91] \<and>
    in_window 100 9 (grant_times (\<lambda>(h, m, now). now) (granted_to (js ''a'')) calls
      [Some 0, Some 0, Some 91]) \<le> 3"
proof -
  have run: "fst (run_calls (budget_step 100) calls new_budget) = [Some 0, Some 0, Some 91]"
    by (simp add: calls_def budget_step_def budget_tryAcquire_def new_budget_def head_wait_def)
  have "in_window 100 9 (grant_times (\<lambda>(h, m, now). now) (granted_to (js ''a'')) calls
      [Some 0, Some 0, Some 91]) \<le> 3"
    by (rule budget_window_bound
        [where s = "snd (run_calls (budget_step 100) calls new_budget)" and w = 100])
      (simp_all add: calls_def run [unfolded calls_def, symmetric])
  with run show ?thesis by simp
qed

section \<open>Rate limiter\<close>

type_synonym limiter_call = "jstring \<times> int"

definition limiter_step ::
    "limiter_opts \<Rightarrow> limiter_call \<Rightarrow> rate_limiter \<Rightarrow> int option \<times> rate_limiter" where
  "limiter_step opts = (\<lambda>(key, now). limiter_tryAcquire opts key now)"

abbreviation max_keys :: "limiter_opts \<Rightarrow> int" where
  "max_keys opts \<equiv> (case rl_maxKeys opts of Some n \<Rightarrow> n | None \<Rightarrow> 2000)"

interpretation global_log: window_log w cap "\<lambda>(k, t). t"
  "\<lambda>_. rl_globalMax opts = Some (int cap) \<and> rl_windowMs opts = w" "limiter_step opts"
  "\<lambda>_ r. r = Some 0" rl_global "\<lambda>s. True"
  for w :: int and cap :: nat and opts :: limiter_opts
  by unfold_locales
    (auto simp: limiter_step_def limiter_tryAcquire_def Let_def split: if_splits)

text \<open>While at most \<open>maxKeys\<close> keys are in use no bucket is ever thrown away.\<close>

definition keys_within :: "jstring list \<Rightarrow> rate_limiter \<Rightarrow> bool" where
  "keys_within ks s \<longleftrightarrow> distinct (map fst (rl_buckets s)) \<and> fst ` set (rl_buckets s) \<subseteq> set ks"

lemma open_bucket_kept:
  assumes "keys_within ks s" "k \<in> set ks" "int (length ks) \<le> max_keys opts"
  shows "open_bucket opts k (rl_buckets s) =
    (if map_of (rl_buckets s) k = None then AList.update k [] (rl_buckets s) else rl_buckets s)"
proof (cases "map_of (rl_buckets s) k")
  case None
  let ?B = "fst ` set (rl_buckets s)"
  from None have "k \<notin> ?B" by (simp add: map_of_eq_None_iff)
  with assms have "?B \<subset> set ks" by (auto simp: keys_within_def)
  then have "card ?B < card (set ks)" by (intro psubset_card_mono) auto
  also have "\<dots> \<le> length ks" by (rule card_length)
  finally have "length (rl_buckets s) < length ks"
    using assms(1) distinct_card [of "map fst (rl_buckets s)"] by (simp add: keys_within_def)
  with None assms(3) show ?thesis by (auto simp: open_bucket_def)
qed (simp add: open_bucket_def)

lemma open_bucket_of:
  assumes "keys_within ks s" "k \<in> set ks" "int (length ks) \<le> max_keys opts"
  shows "bucket_of k' (open_bucket opts k (rl_buckets s)) = bucket_of k' (rl_buckets s)"
  using open_bucket_kept [OF assms] by (auto simp: bucket_of_def map_simps)

lemma keys_of_update:
  "distinct (map fst m) \<and> fst ` set m \<subseteq> K \<Longrightarrow> k \<in> K \<Longrightarrow>
   distinct (map fst (AList.update k v m)) \<and> fst ` set (AList.update k v m) \<subseteq> K"
  by (simp add: dom_update distinct_update)

lemma keys_within_step:
  assumes "keys_within ks s" "k \<in> set ks" "int (length ks) \<le> max_keys opts"
    and "limiter_tryAcquire opts k now s = (r, s')"
  shows "keys_within ks s'"
proof -
  have "rl_buckets s' \<in> range (\<lambda>b. AList.update k b (open_bucket opts k (rl_buckets s)))"
    using assms(4) by (auto simp: limiter_tryAcquire_def Let_def split: if_splits)
  moreover have "distinct (map fst (open_bucket opts k (rl_buckets s))) \<and>
      fst ` set (open_bucket opts k (rl_buckets s)) \<subseteq> set ks"
    using assms(1,2) by (simp add: open_bucket_kept [OF assms(1-3)] keys_within_def keys_of_update
        distinct_update)
  ultimately show ?thesis
    using assms(2) unfolding keys_within_def by (metis (no_types, lifting) keys_of_update rangeE)
qed

interpretation key_log: window_log w cap "\<lambda>(k, t). t"
  "\<lambda>(k, t). k \<in> set ks \<and> int (length ks) \<le> max_keys opts \<and> 0 < rl_max opts \<and>
     rl_max opts = int cap \<and> rl_windowMs opts = w"
  "limiter_step opts" "\<lambda>(k, t) r. k = key \<and> r = Some 0"
  "\<lambda>s. bucket_of key (rl_buckets s)" "keys_within ks"
  for w :: int and cap :: nat and opts :: limiter_opts and ks :: "jstring list" and key :: jstring
  by unfold_locales
    (auto simp: limiter_step_def limiter_tryAcquire_def Let_def open_bucket_of
      bucket_of_def [symmetric] split: if_splits elim: keys_within_step)

text \<open>
  while the keys in use fit in \<open>maxKeys\<close>, no key is granted more than \<open>max\<close> slots in any
  window of \<open>windowMs\<close>; and the global cap, where there is one, bounds the grants of all keys
  together in every window, however many keys there are and however many were forgotten.
\<close>
theorem limiter_window_bounds:
  assumes "0 < rl_windowMs opts" and "sorted (map snd calls)"
    and "run_calls (limiter_step opts) calls new_limiter = (answers, s)"
  shows "(0 < rl_max opts \<and> int (length ks) \<le> max_keys opts \<and> fst ` set calls \<subseteq> set ks \<longrightarrow>
      int (in_window (rl_windowMs opts) t
        (grant_times snd (\<lambda>(k, _) r. k = key \<and> r = Some 0) calls answers)) \<le> rl_max opts) \<and>
    (\<forall>g. rl_globalMax opts = Some g \<and> 0 \<le> g \<longrightarrow>
      int (in_window (rl_windowMs opts) t
        (grant_times snd (\<lambda>_ r. r = Some 0) calls answers)) \<le> g)"
proof (intro conjI impI allI; (elim conjE)?)
  assume k: "0 < rl_max opts" "int (length ks) \<le> max_keys opts" "fst ` set calls \<subseteq> set ks"
  have "in_window (rl_windowMs opts) t
      (grant_times (\<lambda>(k, t). t) (\<lambda>(k, t) r. k = key \<and> r = Some 0) calls answers)
    \<le> nat (rl_max opts)"
    using assms k
    by (intro key_log.window_bound [where ks = ks])
      (auto simp: new_limiter_def bucket_of_def keys_within_def list_all_iff case_prod_beta')
  with k show "int (in_window (rl_windowMs opts) t
      (grant_times snd (\<lambda>(k, _) r. k = key \<and> r = Some 0) calls answers)) \<le> rl_max opts"
    by (simp add: case_prod_beta')
next
  fix g assume g: "rl_globalMax opts = Some g" "0 \<le> g"
  have "in_window (rl_windowMs opts) t
      (grant_times (\<lambda>(k, t). t) (\<lambda>_ r. r = Some 0) calls answers) \<le> nat g"
    using assms g
    by (intro global_log.window_bound) (auto simp: new_limiter_def list_all_iff case_prod_beta')
  with g show "int (in_window (rl_windowMs opts) t
      (grant_times snd (\<lambda>_ r. r = Some 0) calls answers)) \<le> g"
    by (simp add: case_prod_beta')
qed

theorem limiter_window_bounds_witness:
  defines "opts \<equiv> \<lparr>rl_windowMs = 100, rl_max = 1, rl_globalMax = Some 2, rl_maxKeys = None\<rparr>"
    and "calls \<equiv> [(js ''a'', 0), (js ''a'', 5), (js ''b'', 6), (js ''c'', 7)]"
    and "answers \<equiv> [Some 0, Some 95, Some 0, Some 93] :: int option list"
  shows "fst (run_calls (limiter_step opts) calls new_limiter) = answers \<and>
    int (in_window 100 7 (grant_times snd (\<lambda>(k, _) r. k = js ''a'' \<and> r = Some 0) calls answers)) \<le> 1 \<and>
    int (in_window 100 7 (grant_times snd (\<lambda>_ r. r = Some 0) calls answers)) \<le> 2"
proof -
  let ?run = "run_calls (limiter_step opts) calls new_limiter"
  have run: "fst ?run = answers"
    by (simp add: Let_def opts_def calls_def answers_def limiter_step_def limiter_tryAcquire_def
        open_bucket_def new_limiter_def head_wait_def)
  have eq: "?run = (answers, snd ?run)" using run by (metis prod.collapse)
  have "sorted (map snd calls)" "0 < rl_windowMs opts" by (simp_all add: calls_def opts_def)
  note limiter_window_bounds [OF this(2,1) eq, of "[js ''a'', js ''b'', js ''c'']" 7 "js ''a''"]
  with run show ?thesis by (simp add: opts_def calls_def)
qed

section \<open>Circuit breaker\<close>

record breaker_opts =
  cb_failureThreshold :: int
  cb_openMs :: int
  cb_maxOpenMs :: int

record breaker =
  cb_failures :: nat
  cb_trips :: nat
  cb_openedAt :: "int option"
  cb_probing :: bool

datatype circuit_state = Closed | Open | HalfOpen

definition new_breaker :: breaker where
  "new_breaker = \<lparr>cb_failures = 0, cb_trips = 0, cb_openedAt = None, cb_probing = False\<rparr>"

definition currentOpenMs :: "breaker_opts \<Rightarrow> breaker \<Rightarrow> int" where
  "currentOpenMs opts b = min (cb_maxOpenMs opts) (cb_openMs opts * 2 ^ (cb_trips b - 1))"

definition breaker_state :: "breaker_opts \<Rightarrow> int \<Rightarrow> breaker \<Rightarrow> circuit_state" where
  "breaker_state opts now b =
     (case cb_openedAt b of
        None \<Rightarrow> Closed
      | Some t \<Rightarrow> if now - t \<ge> currentOpenMs opts b then HalfOpen else Open)"

definition retryInMs :: "breaker_opts \<Rightarrow> int \<Rightarrow> breaker \<Rightarrow> int" where
  "retryInMs opts now b =
     (case breaker_state opts now b of
        Closed \<Rightarrow> 0
      | HalfOpen \<Rightarrow> if cb_probing b then max 1 (currentOpenMs opts b) else 0
      | Open \<Rightarrow> max 1 (the (cb_openedAt b) + currentOpenMs opts b - now))"

definition allow :: "breaker_opts \<Rightarrow> int \<Rightarrow> breaker \<Rightarrow> bool \<times> breaker" where
  "allow opts now b =
     (let st = breaker_state opts now b
      in if st = Closed then (True, b)
         else if st = HalfOpen \<and> \<not> cb_probing b then (True, b\<lparr>cb_probing := True\<rparr>)
         else (False, b))"

definition recordSuccess :: "breaker \<Rightarrow> breaker" where
  "recordSuccess b =
     b\<lparr>cb_failures := 0, cb_trips := 0, cb_openedAt := None, cb_probing := False\<rparr>"

definition recordFailure :: "breaker_opts \<Rightarrow> int \<Rightarrow> breaker \<Rightarrow> breaker" where
  "recordFailure opts now b =
     (let b1 = b\<lparr>cb_failures := Suc (cb_failures b), cb_probing := False\<rparr>
      in if cb_openedAt b1 \<noteq> None \<or> int (cb_failures b1) \<ge> cb_failureThreshold opts
         then b1\<lparr>cb_trips := Suc (cb_trips b1), cb_openedAt := Some now, cb_failures := 0\<rparr>
         else b1)"

text \<open>What happens to a breaker, with the time it happens.\<close>

datatype breaker_event = Attempt | Succeeded | Failed

inductive breaker_step ::
    "breaker_opts \<Rightarrow> breaker_event \<times> int \<Rightarrow> int \<times> breaker \<Rightarrow> int \<times> breaker \<Rightarrow> bool"
  for opts :: breaker_opts where
  attempt: "t \<le> now \<Longrightarrow> allow opts now b = (a, b') \<Longrightarrow>
    breaker_step opts (Attempt, now) (t, b) (now, b')"
| succeeded: "t \<le> now \<Longrightarrow> breaker_step opts (Succeeded, now) (t, b) (now, recordSuccess b)"
| failed: "t \<le> now \<Longrightarrow> breaker_step opts (Failed, now) (t, b) (now, recordFailure opts now b)"

inductive_cases breaker_stepE: "breaker_step opts e (t, b) (t', b')"

inductive breaker_reach :: "breaker_opts \<Rightarrow> int \<times> breaker \<Rightarrow> bool" for opts :: breaker_opts where
  start: "breaker_reach opts (t, new_breaker)"
| step: "breaker_reach opts s \<Longrightarrow> breaker_step opts e s s' \<Longrightarrow> breaker_reach opts s'"

definition breaker_inv :: "breaker_opts \<Rightarrow> int \<Rightarrow> breaker \<Rightarrow> bool" where
  "breaker_inv opts now b \<longleftrightarrow>
     (case cb_openedAt b of
        None \<Rightarrow> cb_trips b = 0 \<and> \<not> cb_probing b \<and> int (cb_failures b) < cb_failureThreshold opts
      | Some t \<Rightarrow> 0 < cb_trips b \<and> cb_failures b = 0 \<and> t \<le> now \<and>
          (cb_probing b \<longrightarrow> currentOpenMs opts b \<le> now - t))"

lemmas breaker_defs = currentOpenMs_def breaker_state_def allow_def recordSuccess_def
  recordFailure_def Let_def

lemma breaker_step_inv:
  assumes "breaker_step opts e (t, b) (t', b')" "breaker_inv opts t b" "0 < cb_failureThreshold opts"
  shows "breaker_inv opts t' b'"
  using assms
  by (elim breaker_stepE)
    (auto simp: breaker_inv_def breaker_defs split: option.splits if_splits)

lemma breaker_reach_inv:
  assumes "breaker_reach opts s" "0 < cb_failureThreshold opts"
  shows "breaker_inv opts (fst s) (snd s)"
  using assms
proof (induction rule: breaker_reach.induct)
  case (step s e s')
  then show ?case by (cases s; cases s') (auto intro: breaker_step_inv)
qed (simp add: breaker_inv_def new_breaker_def)



text \<open>Consecutive failures: closed below the threshold, then one more trip with every failure.\<close>

lemma fail_run:
  assumes "0 < cb_failureThreshold opts"
  shows "foldl (\<lambda>b t. recordFailure opts t b) new_breaker ts =
    (if int (length ts) < cb_failureThreshold opts then new_breaker\<lparr>cb_failures := length ts\<rparr>
     else new_breaker\<lparr>cb_trips := Suc (length ts - nat (cb_failureThreshold opts)),
                      cb_openedAt := Some (last ts)\<rparr>)"
proof (induction ts rule: rev_induct)
  case (snoc t ts)
  then show ?case
    using assms by (auto simp: recordFailure_def new_breaker_def Let_def Suc_diff_le nat_le_iff)
qed (use assms in \<open>simp add: new_breaker_def\<close>)

text \<open>
  a fresh breaker that sees only failures stays closed while they are fewer than the
  threshold; from then on it was opened at the time of the last failure, for a time that starts
  at \<open>openMs\<close>, doubles with each further failure and never passes \<open>maxOpenMs\<close>.
\<close>
theorem breaker_opens:
  assumes "0 < cb_failureThreshold opts"
  defines "b \<equiv> \<lambda>ts. foldl (\<lambda>b t. recordFailure opts t b) new_breaker ts"
  shows "(cb_openedAt (b ts) = None \<longleftrightarrow> int (length ts) < cb_failureThreshold opts) \<and>
    (cb_failureThreshold opts \<le> int (length ts) \<longrightarrow>
      cb_openedAt (b ts) = Some (last ts) \<and>
      currentOpenMs opts (b ts) =
        min (cb_maxOpenMs opts)
          (cb_openMs opts * 2 ^ (length ts - nat (cb_failureThreshold opts))))"
  unfolding b_def fail_run [OF assms(1)] by (auto simp: currentOpenMs_def new_breaker_def)

theorem breaker_opens_witness:
  defines "opts \<equiv> \<lparr>cb_failureThreshold = 2, cb_openMs = 50, cb_maxOpenMs = 300\<rparr>"
  shows "cb_openedAt (foldl (\<lambda>b t. recordFailure opts t b) new_breaker [7, 8, 9]) = Some 9 \<and>
    currentOpenMs opts (foldl (\<lambda>b t. recordFailure opts t b) new_breaker [7, 8, 9]) = 100"
  using breaker_opens [of opts "[7, 8, 9]"] by (simp add: opts_def)

section \<open>Backoff bounds\<close>

lemma jitter_factor:
  fixes raw j r :: rat
  assumes "0 \<le> raw" "0 \<le> j" "0 \<le> r" "r \<le> 1"
  shows "raw * (1 - j) \<le> raw + raw * j * (r * 2 - 1)" "raw + raw * j * (r * 2 - 1) \<le> raw * (1 + j)"
proof -
  have "raw * j * (-1) \<le> raw * j * (r * 2 - 1)" "raw * j * (r * 2 - 1) \<le> raw * j * 1"
    using assms by (intro mult_left_mono; simp)+
  then show "raw * (1 - j) \<le> raw + raw * j * (r * 2 - 1)"
      "raw + raw * j * (r * 2 - 1) \<le> raw * (1 + j)"
    by (simp_all add: algebra_simps)
qed

text \<open>
  a delay is the capped exponential step moved by at most the jitter fraction, rounded;
  so it is never negative and never more than the jitter above the cap, whatever the attempt.
\<close>
theorem backoff_bounds:
  assumes "0 \<le> bp_baseMs p" "0 \<le> bp_maxMs p" "0 \<le> bp_factor p" "0 \<le> bp_jitter p" "bp_jitter p \<le> 1"
    and "0 \<le> rnd" "rnd \<le> 1"
  shows "math_round (backoff_raw n p * (1 - bp_jitter p)) \<le> backoffDelay n p rnd \<and>
    backoffDelay n p rnd \<le> math_round (backoff_raw n p * (1 + bp_jitter p)) \<and>
    0 \<le> backoffDelay n p rnd \<and> backoffDelay n p rnd \<le> math_round (bp_maxMs p * (1 + bp_jitter p))"
proof -
  let ?raw = "backoff_raw n p"
  let ?x = "?raw + ?raw * bp_jitter p * (rnd * 2 - 1)"
  have raw: "0 \<le> ?raw" "?raw \<le> bp_maxMs p" using assms by (auto simp: backoff_raw_def)
  have lo: "?raw * (1 - bp_jitter p) \<le> ?x" and hi: "?x \<le> ?raw * (1 + bp_jitter p)"
    using jitter_factor [OF raw(1) assms(4,6,7)] .
  have "0 \<le> ?raw * (1 - bp_jitter p)" using raw assms by (intro mult_nonneg_nonneg) auto
  with lo have "0 \<le> ?x" by linarith
  then have nonneg: "0 \<le> math_round ?x" using math_round_mono [of 0 ?x] math_round_int [of 0] by simp
  have cap: "?raw * (1 + bp_jitter p) \<le> bp_maxMs p * (1 + bp_jitter p)"
    using raw assms by (intro mult_right_mono) auto
  have "backoffDelay n p rnd = math_round ?x" using nonneg by (simp add: backoffDelay_def Let_def)
  with lo hi cap nonneg show ?thesis
    by (auto intro: math_round_mono order.trans)
qed

theorem backoff_bounds_witness:
  "backoffDelay 3 DEFAULT_BACKOFF 1 \<le> math_round (300000 * (1 + 1 / 5)) \<and>
   6400 \<le> backoffDelay 3 DEFAULT_BACKOFF 1"
proof -
  have "math_round (6400 :: rat) = 6400" using math_round_int [of 6400] by simp
  with backoff_bounds [of DEFAULT_BACKOFF 1 3] show ?thesis
    by (simp add: DEFAULT_BACKOFF_def backoff_raw_def power3_eq_cube)
qed

section \<open>Retry\<close>

text \<open>
  The environment of \<open>withRetry\<close>: what the operation does at each attempt, whether the signal
  was aborted when it failed, and the error \<open>sleep\<close> rejects with, if it does.
\<close>

record 'e retry_opts =
  ro_maxRetries :: int
  ro_isRetryable :: "'e \<Rightarrow> bool"
  ro_retryAfterMs :: "'e \<Rightarrow> int option"
  ro_backoff :: "int \<Rightarrow> int"
  ro_aborted :: "int \<Rightarrow> bool"
  ro_sleep :: "int \<Rightarrow> int \<Rightarrow> 'e option"

text \<open>The outcome, and the retries announced through \<open>onRetry\<close> in order.\<close>

function retry_from ::
    "'e retry_opts \<Rightarrow> (int \<Rightarrow> 'e + 'a) \<Rightarrow> int \<Rightarrow> ('e + 'a) \<times> (int \<times> int \<times> 'e) list" where
  "retry_from opts fn attempt =
     (case fn attempt of
        Inr v \<Rightarrow> (Inr v, [])
      | Inl err \<Rightarrow>
          if ro_aborted opts attempt \<or> attempt \<ge> ro_maxRetries opts \<or> \<not> ro_isRetryable opts err
          then (Inl err, [])
          else
            (let delay = (case ro_retryAfterMs opts err of
                            Some d \<Rightarrow> d | None \<Rightarrow> ro_backoff opts attempt)
             in case ro_sleep opts attempt delay of
                  Some err' \<Rightarrow> (Inl err', [(attempt + 1, delay, err)])
                | None \<Rightarrow>
                    (case retry_from opts fn (attempt + 1) of
                       (r, retries) \<Rightarrow> (r, (attempt + 1, delay, err) # retries))))"
  by pat_completeness auto
termination
  by (relation "measure (\<lambda>(opts, fn, attempt). nat (ro_maxRetries opts - attempt))") auto

declare retry_from.simps [simp del]

definition withRetry ::
    "'e retry_opts \<Rightarrow> (int \<Rightarrow> 'e + 'a) \<Rightarrow> ('e + 'a) \<times> (int \<times> int \<times> 'e) list" where
  "withRetry opts fn = retry_from opts fn 0"

lemma retry_from_log:
  "retry_from opts fn k = (r, retries) \<Longrightarrow>
   int (length retries) \<le> max 0 (ro_maxRetries opts - k) \<and>
   (\<forall>i < length retries. \<exists>e. fn (k + int i) = Inl e \<and> ro_isRetryable opts e \<and>
      \<not> ro_aborted opts (k + int i) \<and> fst (retries ! i) = k + int i + 1) \<and>
   ((\<forall>n d. ro_sleep opts n d = None) \<longrightarrow> r = fn (k + int (length retries)))"
proof (induction opts fn k arbitrary: r retries rule: retry_from.induct)
  case (1 opts fn k)
  show ?case
  proof (cases "fn k")
    case (Inr v)
    with "1.prems" show ?thesis by (simp add: retry_from.simps [of opts fn k])
  next
    case (Inl e)
    let ?d = "case ro_retryAfterMs opts e of Some d \<Rightarrow> d | None \<Rightarrow> ro_backoff opts k"
    show ?thesis
    proof (cases "ro_aborted opts k \<or> k \<ge> ro_maxRetries opts \<or> \<not> ro_isRetryable opts e")
      case True
      with Inl "1.prems" show ?thesis by (simp add: retry_from.simps [of opts fn k])
    next
      case go: False
      show ?thesis
      proof (cases "ro_sleep opts k ?d")
        case (Some e')
        with Inl go "1.prems" show ?thesis
          by (auto simp: retry_from.simps [of opts fn k] Let_def)
      next
        case None
        obtain r1 l1 where rec: "retry_from opts fn (k + 1) = (r1, l1)" by force
        with Inl go None "1.prems" have retries: "retries = (k + 1, ?d, e) # l1" and r: "r = r1"
          by (auto simp: retry_from.simps [of opts fn k] Let_def)
        from "1.IH" [OF Inl go refl None rec]
        have IH: "int (length l1) \<le> max 0 (ro_maxRetries opts - (k + 1))"
          "\<And>i. i < length l1 \<Longrightarrow> \<exists>e. fn (k + 1 + int i) = Inl e \<and> ro_isRetryable opts e \<and>
             \<not> ro_aborted opts (k + 1 + int i) \<and> fst (l1 ! i) = k + 1 + int i + 1"
          "(\<forall>n d. ro_sleep opts n d = None) \<longrightarrow> r1 = fn (k + 1 + int (length l1))"
          by blast+
        have "\<exists>e. fn (k + int i) = Inl e \<and> ro_isRetryable opts e \<and>
            \<not> ro_aborted opts (k + int i) \<and> fst (retries ! i) = k + int i + 1"
          if "i < length retries" for i
          using that IH(2) [of "i - 1"] Inl go retries
          by (cases i) (auto simp: algebra_simps)
        with IH(1,3) go retries r show ?thesis by (auto simp: algebra_simps)
      qed
    qed
  qed
qed

text \<open>
  \<open>withRetry\<close> always comes to an end; it retries at most \<open>maxRetries\<close> times, each time after a
  retryable failure with the signal not aborted and announcing the attempts \<open>1, 2, \<dots>\<close>; and
  unless a sleep was interrupted its outcome is that of the last attempt made.
\<close>
theorem withRetry_outcome:
  assumes "withRetry opts fn = (r, retries)"
  shows "int (length retries) \<le> max 0 (ro_maxRetries opts) \<and>
   (\<forall>i < length retries. \<exists>e. fn (int i) = Inl e \<and> ro_isRetryable opts e \<and>
      \<not> ro_aborted opts (int i) \<and> fst (retries ! i) = int i + 1) \<and>
   ((\<forall>n d. ro_sleep opts n d = None) \<longrightarrow> r = fn (int (length retries)))"
  using retry_from_log [OF assms [unfolded withRetry_def]] by simp

theorem withRetry_outcome_witness:
  defines "opts \<equiv> \<lparr>ro_maxRetries = 3, ro_isRetryable = (\<lambda>e. e < (10::nat)), ro_retryAfterMs = (\<lambda>_. None),
     ro_backoff = (\<lambda>n. 100 * n), ro_aborted = (\<lambda>_. False), ro_sleep = (\<lambda>_ _. None)\<rparr>"
    and "fn \<equiv> (\<lambda>n. if n < 2 then Inl 1 else Inr CHR ''x'')"
  shows "withRetry opts fn = (Inr CHR ''x'', [(1, 0, 1), (2, 100, 1)]) \<and>
    int (length [(1::int, 0::int, 1::nat), (2, 100, 1)]) \<le> max 0 3"
proof -
  have eq: "withRetry opts fn = (Inr CHR ''x'', [(1, 0, 1), (2, 100, 1)])"
    by (simp add: withRetry_def opts_def fn_def retry_from.simps Let_def)
  from withRetry_outcome [OF eq] eq show ?thesis by (simp add: opts_def)
qed

section \<open>Single flight\<close>

text \<open>Promises are numbered in the order they are created.\<close>

record single_flight =
  sf_inflight :: "(jstring \<times> nat) list"
  sf_next :: nat

definition sf_run :: "jstring \<Rightarrow> single_flight \<Rightarrow> (nat \<times> bool) \<times> single_flight" where
  "sf_run key s =
     (case map_of (sf_inflight s) key of
        Some p \<Rightarrow> ((p, True), s)
      | None \<Rightarrow>
          (let p = sf_next s
           in ((p, False), s\<lparr>sf_inflight := AList.update key p (sf_inflight s), sf_next := Suc p\<rparr>)))"

text \<open>The \<open>finally\<close> of the promise \<open>p\<close> made for \<open>key\<close>.\<close>

definition sf_settle :: "jstring \<Rightarrow> nat \<Rightarrow> single_flight \<Rightarrow> single_flight" where
  "sf_settle key p s =
     (if map_of (sf_inflight s) key = Some p
      then s\<lparr>sf_inflight := AList.delete key (sf_inflight s)\<rparr> else s)"

definition sf_size :: "single_flight \<Rightarrow> nat" where
  "sf_size s = length (sf_inflight s)"

datatype sf_event = Run jstring | Settle jstring nat

fun sf_apply :: "sf_event \<Rightarrow> single_flight \<Rightarrow> single_flight" where
  "sf_apply (Run key) s = snd (sf_run key s)"
| "sf_apply (Settle key p) s = sf_settle key p s"

lemma sf_keep:
  "map_of (sf_inflight s) key = Some p \<Longrightarrow> e \<noteq> Settle key p \<Longrightarrow>
   map_of (sf_inflight (sf_apply e s)) key = Some p"
  by (cases e) (auto simp: sf_run_def sf_settle_def map_simps Let_def split: option.splits)

text \<open>
  once a call has started (or joined) the flight for a key, every later call with that key
  shares the same promise, whatever else runs or settles in between, until that promise settles;
  after it has settled the next call starts a new flight.
\<close>
theorem single_flight_shared:
  assumes "sf_run key s = ((p, b), s1)"
  shows "(Settle key p \<notin> set es \<longrightarrow>
      fst (sf_run key (fold sf_apply es s1)) = (p, True)) \<and>
    snd (fst (sf_run key (sf_settle key p s1))) = False"
proof -
  have p: "map_of (sf_inflight s1) key = Some p"
    using assms by (auto simp: sf_run_def Let_def map_simps split: option.splits)
  then have "Settle key p \<notin> set es \<Longrightarrow> map_of (sf_inflight (fold sf_apply es s1)) key = Some p"
  proof (induction es arbitrary: s1)
    case (Cons e es)
    then show ?case using sf_keep [of s1 key p e] by auto
  qed simp
  with p show ?thesis
    by (simp add: sf_run_def sf_settle_def map_simps Let_def)
qed

theorem single_flight_shared_witness:
  defines "s0 \<equiv> \<lparr>sf_inflight = [], sf_next = 0\<rparr>"
  shows "fst (sf_run (js ''k'') (fold sf_apply [Run (js ''j''), Settle (js ''j'') 1]
      (snd (sf_run (js ''k'') s0)))) = (0, True)"
proof -
  have "sf_run (js ''k'') s0 = ((0, False), snd (sf_run (js ''k'') s0))"
    by (simp add: s0_def sf_run_def Let_def)
  from single_flight_shared [OF this, of "[Run (js ''j''), Settle (js ''j'') 1]"]
  show ?thesis by simp
qed

end
