(* ===== verification/Utf8.thy ===== *)
theory Utf8
  imports Prelude
begin

text \<open>
  \<open>TextEncoder\<close> and \<open>TextDecoder\<close> as the WHATWG Encoding standard defines them for UTF-8: the
  encoder reads a string as scalar values, a lone surrogate becoming U+FFFD; the decoder writes
  U+FFFD for every ill-formed sequence, looks again at the byte that broke it, and drops a byte
  order mark at the front. The codecs of MQTT and Meshtastic rest on the round trip proved here.
\<close>

section \<open>Encoding\<close>

abbreviation is_high :: "jchar \<Rightarrow> bool" where "is_high c \<equiv> 55296 \<le> c \<and> c < 56320"
abbreviation is_low :: "jchar \<Rightarrow> bool" where "is_low c \<equiv> 56320 \<le> c \<and> c < 57344"

fun scalars :: "jstring \<Rightarrow> nat list" where
  "scalars [] = []"
| "scalars [c] = [if 55296 \<le> c \<and> c < 57344 then 65533 else c]"
| "scalars (c # d # s) =
     (if is_high c \<and> is_low d
      then (65536 + (c - 55296) * 1024 + (d - 56320)) # scalars s
      else (if 55296 \<le> c \<and> c < 57344 then 65533 else c) # scalars (d # s))"

definition enc_scalar :: "nat \<Rightarrow> nat list" where
  "enc_scalar n =
     (if n < 128 then [n]
      else if n < 2048 then [192 + n div 64, 128 + n mod 64]
      else if n < 65536 then [224 + n div 4096, 128 + n div 64 mod 64, 128 + n mod 64]
      else [240 + n div 262144, 128 + n div 4096 mod 64, 128 + n div 64 mod 64, 128 + n mod 64])"

definition utf8_encode :: "jstring \<Rightarrow> byte list" where
  "utf8_encode s = map word_of_nat (concat (map enc_scalar (scalars s)))"

section \<open>Decoding\<close>

fun continuation :: "nat \<Rightarrow> nat \<Rightarrow> nat \<Rightarrow> nat \<Rightarrow> nat list \<Rightarrow> nat option \<times> nat list" where
  "continuation cp 0 lo hi bs = (Some cp, bs)"
| "continuation cp (Suc needed) lo hi [] = (None, [])"
| "continuation cp (Suc needed) lo hi (b # bs) =
     (if lo \<le> b \<and> b \<le> hi then continuation (cp * 64 + (b - 128)) needed 128 191 bs
      else (None, b # bs))"

lemma continuation_length: "continuation cp n lo hi bs = (r, rest) \<Longrightarrow> length rest \<le> length bs"
  by (induction cp n lo hi bs rule: continuation.induct) (auto split: if_splits)

definition lead :: "nat \<Rightarrow> nat list \<Rightarrow> nat option \<times> nat list" where
  "lead b bs =
     (if b < 128 then (Some b, bs)
      else if 194 \<le> b \<and> b \<le> 223 then continuation (b - 192) 1 128 191 bs
      else if 224 \<le> b \<and> b \<le> 239
      then continuation (b - 224) 2 (if b = 224 then 160 else 128) (if b = 237 then 159 else 191) bs
      else if 240 \<le> b \<and> b \<le> 244
      then continuation (b - 240) 3 (if b = 240 then 144 else 128) (if b = 244 then 143 else 191) bs
      else (None, bs))"

lemma lead_length: "lead b bs = (r, rest) \<Longrightarrow> length rest \<le> length bs"
  by (auto simp: lead_def split: if_splits dest: continuation_length)

definition units :: "nat \<Rightarrow> jstring" where
  "units n =
     (if n < 65536 then [n]
      else [55296 + (n - 65536) div 1024, 56320 + (n - 65536) mod 1024])"

function decode_scalars :: "nat list \<Rightarrow> jstring" where
  "decode_scalars [] = []"
| "decode_scalars (b # bs) =
     (case lead b bs of (r, rest) \<Rightarrow>
        units (case r of Some n \<Rightarrow> n | None \<Rightarrow> 65533) @ decode_scalars rest)"
  by pat_completeness auto
termination
  by (relation "measure length") (auto simp: less_Suc_eq_le dest!: lead_length [OF sym])

definition utf8_decode :: "byte list \<Rightarrow> jstring" where
  "utf8_decode bs =
     (let ns = map unat bs
      in decode_scalars (if take 3 ns = [239, 187, 191] then drop 3 ns else ns))"

section \<open>Round trip\<close>

definition is_scalar :: "nat \<Rightarrow> bool" where
  "is_scalar n \<longleftrightarrow> n < 55296 \<or> (57344 \<le> n \<and> n < 1114112)"

lemma scalars_scalar: "n \<in> set (scalars s) \<Longrightarrow> (\<forall>c \<in> set s. c < 65536) \<Longrightarrow> is_scalar n"
  by (induction s rule: scalars.induct) (auto simp: is_scalar_def split: if_splits)

lemma enc_scalar_byte: "is_scalar n \<Longrightarrow> b \<in> set (enc_scalar n) \<Longrightarrow> b < 256"
  by (auto simp: enc_scalar_def is_scalar_def split: if_splits)

lemma enc_scalar_nonempty [simp]: "enc_scalar n \<noteq> []"
  by (simp add: enc_scalar_def)

lemma numeral_needed: "(1::nat) = Suc 0" "(2::nat) = Suc (Suc 0)" "(3::nat) = Suc (Suc (Suc 0))"
  by simp_all

text \<open>The digits of a number to the base 64.\<close>

lemma base64_2: "(n div 4096 * 64 + n div 64 mod 64) * 64 + n mod 64 = (n :: nat)"
proof -
  have "n div 4096 = n div 64 div 64" by (simp add: div_mult2_eq [symmetric])
  then have "n div 4096 * 64 + n div 64 mod 64 = n div 64" by simp
  then show ?thesis by simp
qed

lemma base64_3:
  "((n div 262144 * 64 + n div 4096 mod 64) * 64 + n div 64 mod 64) * 64 + n mod 64 = (n :: nat)"
proof -
  have "n div 262144 = n div 64 div 4096" "n div 4096 = n div 64 div 64"
    by (simp_all add: div_mult2_eq [symmetric])
  then have "(n div 262144 * 64 + n div 4096 mod 64) * 64 + n div 64 mod 64 = n div 64"
    using base64_2 [of "n div 64"] by simp
  then show ?thesis by simp
qed

lemma decode_enc_scalar:
  assumes "is_scalar n"
  shows "decode_scalars (enc_scalar n @ bs) = units n @ decode_scalars bs"
proof -
  consider "n < 128" | "128 \<le> n" "n < 2048" | "2048 \<le> n" "n < 65536" | "65536 \<le> n" "n < 1114112"
    using assms by (fastforce simp: is_scalar_def)
  then show ?thesis
  proof cases
    case 1
    then show ?thesis by (simp add: enc_scalar_def lead_def)
  next
    case 2
    have "lead (192 + n div 64) ((128 + n mod 64) # bs) = (Some n, bs)"
    proof -
      have a: "2 \<le> n div 64" "n div 64 < 32" using 2 by auto
      have d: "n div 64 * 64 + n mod 64 = n" by presburger
      show ?thesis using a d by (auto simp: lead_def numeral_needed)
    qed
    with 2 show ?thesis by (simp add: enc_scalar_def)
  next
    case 3
    have "lead (224 + n div 4096) ((128 + n div 64 mod 64) # (128 + n mod 64) # bs) = (Some n, bs)"
    proof -
      define p q r where "p = n div 4096" and "q = n div 64 mod 64" and "r = n mod 64"
      have n: "(p * 64 + q) * 64 + r = n" and "q < 64" "r < 64"
        unfolding p_def q_def r_def by (rule base64_2) simp_all
      with 3 have "p = 0 \<Longrightarrow> 32 \<le> q" and "p < 16" by auto
      moreover have "p = 13 \<Longrightarrow> q < 32"
        using assms 3 n \<open>q < 64\<close> \<open>r < 64\<close> by (auto simp: is_scalar_def)
      ultimately show ?thesis
        using n \<open>q < 64\<close> \<open>r < 64\<close> unfolding p_def [symmetric] q_def [symmetric] r_def [symmetric]
        by (auto simp: lead_def numeral_needed)
    qed
    with 3 show ?thesis by (simp add: enc_scalar_def)
  next
    case 4
    have "lead (240 + n div 262144)
        ((128 + n div 4096 mod 64) # (128 + n div 64 mod 64) # (128 + n mod 64) # bs) = (Some n, bs)"
    proof -
      define o' p q r where "o' = n div 262144" and "p = n div 4096 mod 64"
        and "q = n div 64 mod 64" and "r = n mod 64"
      have n: "((o' * 64 + p) * 64 + q) * 64 + r = n" and lt: "p < 64" "q < 64" "r < 64"
        unfolding o'_def p_def q_def r_def by (rule base64_3) simp_all
      with 4 have "o' = 0 \<Longrightarrow> 16 \<le> p" and "o' < 5" and "o' = 4 \<Longrightarrow> p < 16" by auto
      then show ?thesis
        using n lt
        unfolding o'_def [symmetric] p_def [symmetric] q_def [symmetric] r_def [symmetric]
        by (auto simp: lead_def numeral_needed)
    qed
    with 4 show ?thesis by (simp add: enc_scalar_def)
  qed
qed

lemma decode_enc_scalars:
  "(\<And>n. n \<in> set ns \<Longrightarrow> is_scalar n) \<Longrightarrow>
   decode_scalars (concat (map enc_scalar ns)) = concat (map units ns)"
  by (induction ns) (simp_all add: decode_enc_scalar)

text \<open>A string of code units with no surrogate out of place.\<close>

fun well_formed :: "jstring \<Rightarrow> bool" where
  "well_formed [] = True"
| "well_formed [c] = (c < 65536 \<and> \<not> (55296 \<le> c \<and> c < 57344))"
| "well_formed (c # d # s) =
     (if is_high c then is_low d \<and> well_formed s
      else c < 65536 \<and> \<not> is_low c \<and> well_formed (d # s))"

lemma well_formed_units: "well_formed s \<Longrightarrow> c \<in> set s \<Longrightarrow> c < 65536"
  by (induction s rule: well_formed.induct) (auto split: if_splits)

lemma units_small: "c < 65536 \<Longrightarrow> units c = [c]"
  by (simp add: units_def)

lemma units_scalars: "well_formed s \<Longrightarrow> concat (map units (scalars s)) = s"
proof (induction s rule: well_formed.induct)
  case (3 c d s)
  show ?case
  proof (cases "is_high c")
    case True
    with "3.prems" have "is_low d" by simp
    obtain x y where xy: "c = 55296 + x" "d = 56320 + y" "y < 1024" "x < 1024"
      using True \<open>is_low d\<close> that [of "c - 55296" "d - 56320"] by auto
    then have "units (65536 + (c - 55296) * 1024 + (d - 56320)) = [c, d]"
      by (simp add: units_def)
    with 3 True \<open>is_low d\<close> show ?thesis by simp
  next
    case False
    with "3.prems" have c: "c < 55296 \<or> 57344 \<le> c" "c < 65536" by auto
    with 3 False have "concat (map units (scalars (d # s))) = d # s" by simp
    with c show ?thesis by (elim disjE) (simp_all add: units_small)
  qed
qed (auto simp: units_def)

text \<open>The byte order mark is the encoding of U+FEFF and of nothing else.\<close>

lemma take_3: "take 3 (a # b # c # bs) = [a, b, c]"
  by simp

lemma enc_scalar_bom:
  assumes "is_scalar n" "take 3 (enc_scalar n @ bs) = [239, 187, 191]"
  shows "n = 65279"
proof -
  consider "n < 2048" | "2048 \<le> n" "n < 65536" | "65536 \<le> n" "n < 1114112"
    using assms by (fastforce simp: is_scalar_def)
  then show ?thesis
  proof cases
    case 2
    then have "enc_scalar n = [224 + n div 4096, 128 + n div 64 mod 64, 128 + n mod 64]"
      by (simp add: enc_scalar_def)
    with assms(2) have "224 + n div 4096 = 239" "128 + n div 64 mod 64 = 187" "128 + n mod 64 = 191"
      by (simp_all only: append_Cons append_Nil take_3 list.inject)
    then show ?thesis using base64_2 [of n] by simp
  next
    case 1
    then have "n div 64 < 32" by simp
    with 1 assms(2) show ?thesis by (auto simp: enc_scalar_def split: if_splits)
  next
    case 3
    with assms(2) show ?thesis by (simp add: enc_scalar_def)
  qed
qed

lemma utf8_encode_bytes: 
  assumes "\<forall>c \<in> set s. c < 65536"
  shows "map unat (utf8_encode s) = concat (map enc_scalar (scalars s))"
proof -
  have "unat (word_of_nat b :: byte) = b" if "b \<in> set (concat (map enc_scalar (scalars s)))" for b
    using that assms by (auto dest!: scalars_scalar enc_scalar_byte)
  then show ?thesis 
    unfolding utf8_encode_def map_map by (intro map_idI) simp
qed

lemma scalars_hd: "well_formed s \<Longrightarrow> scalars s = 65279 # ns \<Longrightarrow> hd s = 65279"
  by (induction s rule: scalars.induct) (auto split: if_splits)

text \<open>
  Decoding gives back every well-formed string that does not start with U+FEFF (which the
  decoder takes for a byte order mark).
\<close>
lemma utf8_roundtrip:
  assumes "well_formed s" and "s = [] \<or> hd s \<noteq> 65279"
  shows "utf8_decode (utf8_encode s) = s"
proof -
  let ?ns = "concat (map enc_scalar (scalars s))"
  have units: "\<forall>c \<in> set s. c < 65536" using assms(1) well_formed_units by blast
  have "take 3 ?ns \<noteq> [239, 187, 191]"
  proof
    assume bom: "take 3 ?ns = [239, 187, 191]"
    then obtain n ns where "scalars s = n # ns" by (cases "scalars s") auto
    moreover from this have "is_scalar n" using scalars_scalar [of n s] units by simp
    ultimately have "scalars s = 65279 # ns" using bom enc_scalar_bom [of n] by simp
    with assms show False using scalars_hd by fastforce
  qed
  then show ?thesis
    using assms(1) units scalars_scalar [of _ s]
    by (simp add: utf8_decode_def utf8_encode_bytes decode_enc_scalars units_scalars)
qed

end
