(* ===== verification/Mqtt_Packets.thy ===== *)
theory Mqtt_Packets
  imports Utf8
begin

unbundle bit_operations_syntax

text \<open>
  The MQTT 3.1.1 codec of \<open>packages/runtime/src/support/mqtt-packets.ts\<close>: the encoders of the
  packets the client sends, the reader that cuts packets off a growing buffer, and the decoder of
  the packets it reads. An exception is an \<open>Inl\<close> of \<open>mqtt_error\<close>. The reader is an instance
  of the \<open>framer\<close> contract, so what it returns does not depend on how the bytes arrived.
\<close>

section \<open>Encoders\<close>

datatype mqtt_error =
    StringTooLong
  | LengthMalformed
  | PacketTooBig nat
  | StringTruncated
  | ConnackTruncated
  | PublishQos3
  | PublishTruncated
  | PubackTruncated
  | SubackTruncated

datatype packet_type =
    CONNECT | CONNACK | PUBLISH | PUBACK | SUBSCRIBE | SUBACK | UNSUBSCRIBE
  | PINGREQ | PINGRESP | DISCONNECT

fun type_code :: "packet_type \<Rightarrow> nat" where
  "type_code CONNECT = 1"
| "type_code CONNACK = 2"
| "type_code PUBLISH = 3"
| "type_code PUBACK = 4"
| "type_code SUBSCRIBE = 8"
| "type_code SUBACK = 9"
| "type_code UNSUBSCRIBE = 10"
| "type_code PINGREQ = 12"
| "type_code PINGRESP = 13"
| "type_code DISCONNECT = 14"

definition MAX_PACKET_BYTES :: nat where "MAX_PACKET_BYTES = 4 * 1024 * 1024"
definition MAX_STRING_BYTES :: nat where "MAX_STRING_BYTES = 65535"

definition utf8 :: "jstring \<Rightarrow> mqtt_error + byte list" where
  "utf8 s = (let bytes = utf8_encode s
             in if length bytes > MAX_STRING_BYTES then Inl StringTooLong else Inr bytes)"

definition lengthPrefixed :: "byte list \<Rightarrow> byte list" where
  "lengthPrefixed bytes = be16 (length bytes) @ bytes"

fun encodeRemainingLength :: "nat \<Rightarrow> byte list" where
  "encodeRemainingLength n =
     (let byte = (word_of_nat (n mod 128) :: byte); x = n div 128
      in if x > 0 then (byte OR 0x80) # encodeRemainingLength x else [byte])"

declare encodeRemainingLength.simps [simp del]

definition packet :: "nat \<Rightarrow> byte list \<Rightarrow> byte list" where
  "packet typeAndFlags body = word_of_nat typeAndFlags # encodeRemainingLength (length body) @ body"

record connect_options =
  co_clientId :: jstring
  co_keepAliveSeconds :: nat
  co_username :: "jstring option"
  co_password :: "jstring option"
  co_cleanSession :: "bool option"

text \<open>The strings in order; the first one that is too long is the error.\<close>

fun utf8_all :: "jstring list \<Rightarrow> mqtt_error + byte list list" where
  "utf8_all [] = Inr []"
| "utf8_all (s # ss) =
     (case utf8 s of
        Inl e \<Rightarrow> Inl e
      | Inr b \<Rightarrow> (case utf8_all ss of Inl e \<Rightarrow> Inl e | Inr bs \<Rightarrow> Inr (b # bs)))"

definition option_list :: "'a option \<Rightarrow> 'a list" where
  "option_list x = (case x of None \<Rightarrow> [] | Some a \<Rightarrow> [a])"

definition connect_flags :: "connect_options \<Rightarrow> byte" where
  "connect_flags opts =
     (let f0 = 0;
          f1 = (if co_cleanSession opts \<noteq> Some False then f0 OR 0x02 else f0);
          f2 = (if co_username opts \<noteq> None then f1 OR 0x80 else f1)
      in if co_password opts \<noteq> None then f2 OR 0x40 else f2)"

definition encodeConnect :: "connect_options \<Rightarrow> mqtt_error + byte list" where
  "encodeConnect opts =
     (case utf8_all (js ''MQTT'' # co_clientId opts # option_list (co_username opts) @
                     option_list (co_password opts)) of
        Inl e \<Rightarrow> Inl e
      | Inr bss \<Rightarrow>
          Inr (packet (push_bit 4 (type_code CONNECT))
            (lengthPrefixed (hd bss) @ [4, connect_flags opts] @ be16 (co_keepAliveSeconds opts) @
             concat (map lengthPrefixed (tl bss)))))"

definition encodeSubscribe :: "nat \<Rightarrow> (jstring \<times> nat) list \<Rightarrow> mqtt_error + byte list" where
  "encodeSubscribe packetId topics =
     (case utf8_all (map fst topics) of
        Inl e \<Rightarrow> Inl e
      | Inr bss \<Rightarrow>
          Inr (packet (push_bit 4 (type_code SUBSCRIBE) OR 0x02)
            (be16 packetId @
             concat (map2 (\<lambda>b t. lengthPrefixed b @ [word_of_nat (snd t)]) bss topics))))"

definition encodePuback :: "nat \<Rightarrow> byte list" where
  "encodePuback packetId = packet (push_bit 4 (type_code PUBACK)) (be16 packetId)"

definition encodePingreq :: "byte list" where
  "encodePingreq = [word_of_nat (push_bit 4 (type_code PINGREQ)), 0]"

definition encodeDisconnect :: "byte list" where
  "encodeDisconnect = [word_of_nat (push_bit 4 (type_code DISCONNECT)), 0]"

section \<open>Decoder\<close>

datatype decoded =
    Connack (sessionPresent: bool) (returnCode: nat)
  | Publish (topic: jstring) (payload: "byte list") (qos: nat) (retained: bool) (dup: bool)
      (publishId: "nat option")
  | Puback (pubackId: nat)
  | Suback (subackId: nat) (returnCodes: "nat list")
  | Pingresp
  | OtherPacket (packetType: nat)

definition readString :: "byte list \<Rightarrow> nat \<Rightarrow> mqtt_error + jstring \<times> nat" where
  "readString body pos =
     (if pos + 2 > length body then Inl StringTruncated
      else
        (let len = read16 (body ! pos) (body ! (pos + 1))
         in if pos + 2 + len > length body then Inl StringTruncated
            else Inr (utf8_decode (slice (pos + 2) (pos + 2 + len) body), pos + 2 + len)))"

definition decode_publish :: "byte \<Rightarrow> byte list \<Rightarrow> mqtt_error + decoded" where
  "decode_publish typeAndFlags body =
     (let isDup = typeAndFlags AND 0x08 \<noteq> 0;
          q = unat (drop_bit 1 (typeAndFlags AND 0x06));
          ret = typeAndFlags AND 0x01 \<noteq> 0
      in if q = 3 then Inl PublishQos3
         else
           (case readString body 0 of
              Inl e \<Rightarrow> Inl e
            | Inr (t, pos) \<Rightarrow>
                if q > 0 then
                  (if pos + 2 > length body then Inl PublishTruncated
                   else Inr (Publish t (drop (pos + 2) body) q ret isDup
                               (Some (read16 (body ! pos) (body ! (pos + 1))))))
                else Inr (Publish t (drop pos body) q ret isDup None)))"

definition decode :: "byte \<Rightarrow> byte list \<Rightarrow> mqtt_error + decoded" where
  "decode typeAndFlags body =
     (let t = unat (drop_bit 4 typeAndFlags)
      in if t = type_code CONNACK then
           (if length body < 2 then Inl ConnackTruncated
            else Inr (Connack (body ! 0 AND 0x01 = 1) (unat (body ! 1))))
         else if t = type_code PUBLISH then decode_publish typeAndFlags body
         else if t = type_code PUBACK then
           (if length body < 2 then Inl PubackTruncated
            else Inr (Puback (read16 (body ! 0) (body ! 1))))
         else if t = type_code SUBACK then
           (if length body < 2 then Inl SubackTruncated
            else Inr (Suback (read16 (body ! 0) (body ! 1)) (map unat (drop 2 body))))
         else if t = type_code PINGRESP then Inr Pingresp
         else Inr (OtherPacket t))"

section \<open>Reader\<close>

text \<open>The remaining length from the bytes after the first, with the bytes left after it.\<close>

fun read_length :: "nat \<Rightarrow> nat \<Rightarrow> byte list \<Rightarrow> (mqtt_error, nat, byte) cut" where
  "read_length multiplier len [] = Wait"
| "read_length multiplier len (b # bs) =
     (let len' = len + unat (b AND 0x7f) * multiplier
      in if multiplier > 128 * 128 * 128 then Fault LengthMalformed
         else if b AND 0x80 = 0 then Cut len' bs
         else read_length (multiplier * 128) len' bs)"

definition frame :: "byte list \<Rightarrow> (mqtt_error, byte \<times> byte list, byte) cut" where
  "frame b =
     (if length b < 2 then Wait
      else
        (case read_length 1 0 (tl b) of
           Wait \<Rightarrow> Wait
         | Fault e \<Rightarrow> Fault e
         | Cut len rest \<Rightarrow>
             if len > MAX_PACKET_BYTES then Fault (PacketTooBig len)
             else if length rest < len then Wait
             else Cut (hd b, take len rest) (drop len rest)))"

lemma read_length_rest: "read_length m n b = Cut len r \<Longrightarrow> length r < length b"
  by (induction m n b rule: read_length.induct) (auto simp: Let_def split: if_splits)

lemma frame_shorter: "frame b = Cut f r \<Longrightarrow> length r < length b"
  by (auto simp: frame_def split: if_splits cut.splits dest!: read_length_rest)

text \<open>\<open>push\<close>: every packet the buffer completes; a fault throws and loses the packets before it.\<close>

function read_packets :: "byte list \<Rightarrow> (mqtt_error + decoded list) \<times> byte list" where
  "read_packets b =
     (case frame b of
        Wait \<Rightarrow> (Inr [], b)
      | Fault e \<Rightarrow> (Inl e, b)
      | Cut (t, body) r \<Rightarrow>
          (case decode t body of
             Inl e \<Rightarrow> (Inl e, r)
           | Inr p \<Rightarrow>
               (case read_packets r of
                  (Inl e, r') \<Rightarrow> (Inl e, r')
                | (Inr ps, r') \<Rightarrow> (Inr (p # ps), r'))))"
  by pat_completeness auto
termination
  by (relation "measure length") (auto dest: frame_shorter)

declare read_packets.simps [simp del]

definition reader_push :: "byte list \<Rightarrow> byte list \<Rightarrow> (mqtt_error + decoded list) \<times> byte list" where
  "reader_push chunk buffer = read_packets (buffer @ chunk)"

text \<open>A connection: the chunks in the order they arrive; it is closed at the first fault.\<close>

fun reader_run :: "byte list list \<Rightarrow> byte list \<Rightarrow> (mqtt_error + decoded list) \<times> byte list" where
  "reader_run [] b = (Inr [], b)"
| "reader_run (c # cs) b =
     (case reader_push c b of
        (Inl e, r) \<Rightarrow> (Inl e, r)
      | (Inr ps, r) \<Rightarrow>
          (case reader_run cs r of
             (Inl e, r') \<Rightarrow> (Inl e, r')
           | (Inr qs, r') \<Rightarrow> (Inr (ps @ qs), r')))"

section \<open>Framing\<close>

lemma read_encoded_length:
  "k \<le> 3 \<Longrightarrow> n < 128 ^ (4 - k) \<Longrightarrow>
   read_length (128 ^ k) a (encodeRemainingLength n @ xs) = Cut (a + n * 128 ^ k) xs"
proof (induction n arbitrary: k a rule: encodeRemainingLength.induct)
  case (1 n)
  have k: "\<not> (128 :: nat) ^ k > 128 * 128 * 128"
    using "1.prems"(1) power_increasing [of k 3 "128 :: nat"] by (simp add: power3_eq_cube)
  have byte: "n mod 128 < 128" by simp
  show ?case
  proof (cases "n div 128 > 0")
    case True
    have "k \<noteq> 3" using True "1.prems" by auto
    then have "Suc k \<le> 3" using "1.prems" by simp
    moreover have "n div 128 < 128 ^ (4 - Suc k)"
    proof (rule less_mult_imp_div_less)
      have "4 - k = Suc (4 - Suc k)" using \<open>Suc k \<le> 3\<close> by simp
      with "1.prems"(2) show "n < 128 ^ (4 - Suc k) * 128" by (simp only: power_Suc mult.commute)
    qed
    ultimately have "read_length (128 ^ Suc k) (a + n mod 128 * 128 ^ k)
        (encodeRemainingLength (n div 128) @ xs)
      = Cut (a + n mod 128 * 128 ^ k + n div 128 * 128 ^ Suc k) xs"
      using "1.IH" [OF refl refl True] by blast
    moreover have "a + n mod 128 * 128 ^ k + n div 128 * 128 ^ Suc k = a + n * 128 ^ k"
    proof -
      have "r * x + q * (128 * x) = (r + q * 128) * x" for q r x :: nat
        by (simp add: algebra_simps)
      then show ?thesis by (simp only: mod_div_mult_eq add.assoc power_Suc)
    qed
    ultimately have "read_length (128 ^ k * 128) (a + n mod 128 * 128 ^ k)
        (encodeRemainingLength (n div 128) @ xs) = Cut (a + n * 128 ^ k) xs"
      by (simp only: power_Suc2)
    then show ?thesis
      using True k unat_or_0x80 [OF byte]
      by (simp add: encodeRemainingLength.simps [of n] Let_def)
  next
    case False
    then show ?thesis
      using k byte by (simp add: encodeRemainingLength.simps [of n] Let_def)
  qed
qed

lemma frame_packet:
  assumes "length body \<le> MAX_PACKET_BYTES"
  shows "frame (packet t body @ rest) = Cut (word_of_nat t, body) rest"
proof -
  have "encodeRemainingLength (length body) \<noteq> []"
    by (subst encodeRemainingLength.simps) (simp add: Let_def)
  then obtain l ls where l: "encodeRemainingLength (length body) = l # ls"
    by (cases "encodeRemainingLength (length body)") auto
  have "read_length 1 0 (encodeRemainingLength (length body) @ body @ rest)
      = Cut (length body) (body @ rest)"
    using assms read_encoded_length [of 0 "length body" 0 "body @ rest"]
    by (simp add: MAX_PACKET_BYTES_def)
  with assms l show ?thesis by (simp add: frame_def packet_def)
qed

lemma read_length_extend:
  "read_length m n b = Cut len r \<Longrightarrow> read_length m n (b @ x) = Cut len (r @ x)"
  "read_length m n b = Fault e \<Longrightarrow> read_length m n (b @ x) = Fault e"
  by (induction m n b rule: read_length.induct) (auto simp: Let_def split: if_splits)

lemma frame_extend:
  "frame b = Cut f r \<Longrightarrow> frame (b @ x) = Cut f (r @ x)"
  "frame b = Fault e \<Longrightarrow> frame (b @ x) = Fault e"
  by (cases b; auto simp: frame_def read_length_extend split: if_splits cut.splits)+

definition packet_cut :: "byte list \<Rightarrow> (mqtt_error, decoded, byte) cut" where
  "packet_cut b =
     (case frame b of
        Wait \<Rightarrow> Wait
      | Fault e \<Rightarrow> Fault e
      | Cut (t, body) r \<Rightarrow> (case decode t body of Inl e \<Rightarrow> Fault e | Inr p \<Rightarrow> Cut p r))"

interpretation mqtt: framer packet_cut
  by unfold_locales
    (auto simp: packet_cut_def frame_extend split: cut.splits prod.splits sum.splits
      dest: frame_shorter)

lemma read_packets_drain:
  "drain packet_cut b = (ps, e, r) \<Longrightarrow>
   (case e of None \<Rightarrow> read_packets b = (Inr ps, r) | Some e' \<Rightarrow> fst (read_packets b) = Inl e')"
proof (induction b arbitrary: ps rule: read_packets.induct)
  case (1 b)
  show ?case
  proof (cases "packet_cut b")
    case Wait
    with "1.prems" have "ps = []" "e = None" "r = b" by (simp_all add: mqtt.drain_Wait)
    with Wait show ?thesis
      by (auto simp: read_packets.simps [of b] packet_cut_def
          split: cut.splits prod.splits sum.splits)
  next
    case (Fault e')
    with "1.prems" have "e = Some e'" by (simp add: mqtt.drain_Fault)
    with Fault show ?thesis
      by (auto simp: read_packets.simps [of b] packet_cut_def
          split: cut.splits prod.splits sum.splits)
  next
    case (Cut p r')
    then obtain t body where f: "frame b = Cut (t, body) r'" and d: "decode t body = Inr p"
      by (auto simp: packet_cut_def split: cut.splits prod.splits sum.splits)
    from Cut "1.prems" obtain ps' where rec: "drain packet_cut r' = (ps', e, r)" and ps: "ps = p # ps'"
      by (auto simp: mqtt.drain_Cut split: prod.splits)
    from "1.IH" [OF f refl d rec] f d ps show ?thesis
      by (auto simp: read_packets.simps [of b] split: option.splits prod.splits sum.splits)
  qed
qed

lemma reader_run_feed:
  "mqtt.feed cs b = (ps, e, r) \<Longrightarrow>
   (case e of None \<Rightarrow> reader_run cs b = (Inr ps, r) | Some e' \<Rightarrow> fst (reader_run cs b) = Inl e')"
proof (induction cs arbitrary: b ps)
  case (Cons c cs)
  obtain gs e1 r1 where d: "drain packet_cut (b @ c) = (gs, e1, r1)" by (metis prod_cases3)
  note p = read_packets_drain [OF d]
  show ?case
  proof (cases e1)
    case None
    obtain hs where f: "mqtt.feed cs r1 = (hs, e, r)" and ps: "ps = gs @ hs"
      using Cons.prems d None by (auto split: prod.splits)
    from Cons.IH [OF f] p None ps show ?thesis
      by (auto simp: reader_push_def split: option.splits prod.splits sum.splits)
  next
    case (Some e')
    with Cons.prems d p show ?thesis
      by (auto simp: reader_push_def split: prod.splits sum.splits)
  qed
qed simp


section \<open>Round trips\<close>

definition publish_head :: "nat \<Rightarrow> bool \<Rightarrow> bool \<Rightarrow> nat" where
  "publish_head q ret isDup = 48 + (if isDup then 8 else 0) + q * 2 + (if ret then 1 else 0)"

text \<open>A PUBLISH as a broker writes it (MQTT 3.1.1, section 3.3): the codec only reads them.\<close>

definition broker_publish ::
    "jstring \<Rightarrow> byte list \<Rightarrow> nat \<Rightarrow> bool \<Rightarrow> bool \<Rightarrow> nat option \<Rightarrow> byte list" where
  "broker_publish t body q ret isDup pid =
     packet (publish_head q ret isDup)
       (lengthPrefixed (utf8_encode t) @ (case pid of None \<Rightarrow> [] | Some i \<Rightarrow> be16 i) @ body)"

lemma read_packets_Wait: "frame b = Wait \<Longrightarrow> read_packets b = (Inr [], b)"
  by (simp add: read_packets.simps)

lemma push_packet:
  assumes "length body \<le> MAX_PACKET_BYTES" "decode (word_of_nat t) body = Inr p"
  shows "reader_push (packet t body @ rest) [] =
    (case read_packets rest of (Inl e, r) \<Rightarrow> (Inl e, r) | (Inr ps, r) \<Rightarrow> (Inr (p # ps), r))"
  unfolding reader_push_def append_Nil
  by (subst read_packets.simps) (simp add: frame_packet [OF assms(1)] assms(2))

lemma readString_prefixed:
  assumes "length b \<le> MAX_STRING_BYTES"
  shows "readString (lengthPrefixed b @ rest) 0 = Inr (utf8_decode b, 2 + length b)"
  using assms
  by (simp add: readString_def lengthPrefixed_def be16_eq slice_def MAX_STRING_BYTES_def
      read16_eq Let_def)

lemma publish_flags:
  fixes q :: nat and ret isDup :: bool
  assumes "q \<le> 2"
  defines "f \<equiv> word_of_nat (publish_head q ret isDup) :: byte"
  shows "drop_bit 4 f = 3" "(f AND 0x08 \<noteq> 0) = isDup" "unat (drop_bit 1 (f AND 0x06)) = q"
    "(f AND 0x01 \<noteq> 0) = ret"
proof -
  have "q = 0 \<or> q = 1 \<or> q = 2" using assms(1) by auto
  then show "drop_bit 4 f = 3" "(f AND 0x08 \<noteq> 0) = isDup" "unat (drop_bit 1 (f AND 0x06)) = q"
      "(f AND 0x01 \<noteq> 0) = ret"
    unfolding f_def publish_head_def by (elim disjE; cases isDup; cases ret; simp)+
qed



text \<open>
  an acknowledgement the client writes reads back with its packet id, the remaining length of
  every packet it can write reads back exactly, and its frame ends where the packet ends.
\<close>
theorem encoder_framing:
  assumes "length body \<le> MAX_PACKET_BYTES" "i < 65536"
  shows "frame (packet t body @ rest) = Cut (word_of_nat t, body) rest \<and>
    reader_push (encodePuback i) [] = (Inr [Puback i], []) \<and>
    length (encodeRemainingLength (length body)) \<le> 4"
proof -
  have "decode (word_of_nat 64) (be16 i) = Inr (Puback i)"
    using assms(2) by (simp add: decode_def be16_eq Let_def)
  then have "reader_push (encodePuback i @ []) [] = (Inr [Puback i], [])"
    unfolding encodePuback_def
    by (subst push_packet)
      (simp_all add: MAX_PACKET_BYTES_def push_bit_eq_mult read_packets_Wait frame_def)
  moreover have "length (encodeRemainingLength n) \<le> k" if "n < 128 ^ k" "0 < k" for n k
    using that
  proof (induction n arbitrary: k rule: encodeRemainingLength.induct)
    case (1 n)
    show ?case
    proof (cases "n div 128 > 0")
      case True
      then obtain k' where k: "k = Suc k'" "k' \<noteq> 0"
        using "1.prems" by (cases k; cases "k - 1") auto
      then have "n div 128 < 128 ^ k'" using "1.prems" by (intro less_mult_imp_div_less) simp
      with "1.IH" [OF refl refl True, of k'] k True show ?thesis
        by (simp add: encodeRemainingLength.simps [of n] Let_def)
    next
      case False
      with "1.prems" show ?thesis by (simp add: encodeRemainingLength.simps [of n] Let_def)
    qed
  qed
  then have "length (encodeRemainingLength (length body)) \<le> 4"
    using assms(1) by (simp add: MAX_PACKET_BYTES_def)
  ultimately show ?thesis using assms(1) by (simp add: frame_packet)
qed

theorem encoder_framing_witness:
  "frame (packet 16 [7, 8] @ [9]) = Cut (16, [7, 8]) [9] \<and>
   reader_push (encodePuback 777) [] = (Inr [Puback 777], [])"
  using encoder_framing [of "[7, 8]" 777 16 "[9]"] by (simp add: MAX_PACKET_BYTES_def)

end
