(* ===== verification/Topics.thy ===== *)
theory Topics
  imports Prelude
begin

text \<open>
  MQTT topic names and filters: the matcher and the filter check of the runtime's client
  (\<open>packages/runtime/src/support/mqtt-packets.ts\<close>, prefix \<open>rt_\<close>), those of the connector
  (\<open>packages/connector-runtime/src/connectors/mqtt/topics.ts\<close>) and the check a connector
  definition passes (\<open>packages/connector-sdk/src/mqtt.ts\<close>). \<open>covers\<close> is the matching relation
  of MQTT 3.1.1, section 4.7, which both matchers are proved to decide.
\<close>

section \<open>The code\<close>

definition slash :: jchar where "slash = jc CHR ''/''"
definition hash :: jchar where "hash = jc CHR ''#''"
definition plus_sign :: jchar where "plus_sign = jc CHR ''+''"
definition dollar :: jchar where "dollar = jc CHR ''$''"

lemmas topic_chars = slash_def hash_def plus_sign_def dollar_def

text \<open>The loop over the levels, which both matchers share; at its end the lengths must agree.\<close>

fun level_loop :: "jstring list \<Rightarrow> jstring list \<Rightarrow> bool" where
  "level_loop [] t = (t = [])"
| "level_loop (part # f) t =
     (if part = [hash] then True
      else (case t of
              [] \<Rightarrow> False
            | x # t' \<Rightarrow> if part \<noteq> [plus_sign] \<and> part \<noteq> x then False else level_loop f t'))"

definition rt_topicMatches :: "jstring \<Rightarrow> jstring \<Rightarrow> bool" where
  "rt_topicMatches filt topic =
     (if starts_with [dollar] topic \<and> \<not> starts_with [dollar] filt then False
      else level_loop (split_on slash filt) (split_on slash topic))"

definition filter_level :: "nat \<Rightarrow> nat \<times> jstring \<Rightarrow> bool" where
  "filter_level final = (\<lambda>(i, p).
     if p = [hash] then i = final
     else if p = [plus_sign] then True
     else hash \<notin> set p \<and> plus_sign \<notin> set p)"

definition rt_isValidTopicFilter :: "jstring \<Rightarrow> bool" where
  "rt_isValidTopicFilter filt =
     (if filt = [] \<or> length filt > 1024 \<or> 0 \<in> set filt then False
      else
        (let parts = split_on slash filt
         in list_all (filter_level (length parts - 1)) (enumerate 0 parts)))"

definition isTopicName :: "jstring \<Rightarrow> bool" where
  "isTopicName topic \<longleftrightarrow> length topic > 0 \<and> plus_sign \<notin> set topic \<and> hash \<notin> set topic"

definition topicLevels :: "jstring \<Rightarrow> jstring list" where
  "topicLevels topic = split_on slash topic"

definition topicMatches :: "jstring \<Rightarrow> jstring \<Rightarrow> bool" where
  "topicMatches filt topic =
     (if \<not> isTopicName topic then False
      else
        (let f = split_on slash filt; t = split_on slash topic
         in if starts_with [dollar] topic \<and> (f ! 0 = [plus_sign] \<or> f ! 0 = [hash]) then False
            else level_loop f t))"

definition matchesAny :: "jstring list \<Rightarrow> jstring \<Rightarrow> bool" where
  "matchesAny filters topic = list_ex (\<lambda>f. topicMatches f topic) filters"

definition sampleTopic :: "jstring \<Rightarrow> jstring" where
  "sampleTopic filt =
     (let levels = map (\<lambda>l. if l = [plus_sign] then js ''x'' else l) (split_on slash filt);
          levels' = (if last levels = [hash] then butlast levels else levels)
      in if levels' \<noteq> [] then join_with slash levels' else js ''x'')"

datatype filter_fault =
    FilterEmpty
  | FilterTooLong
  | FilterControlCharacter
  | HashNotLast
  | PlusNotWhole

definition MAX_TOPIC_LENGTH :: nat where "MAX_TOPIC_LENGTH = 256"

fun check_levels :: "nat \<Rightarrow> jstring list \<Rightarrow> filter_fault option" where
  "check_levels n [] = None"
| "check_levels n (level # levels) =
     (if hash \<in> set level \<and> (level \<noteq> [hash] \<or> levels \<noteq> []) then Some HashNotLast
      else if plus_sign \<in> set level \<and> level \<noteq> [plus_sign] then Some PlusNotWhole
      else check_levels (Suc n) levels)"

definition checkTopicFilter :: "jstring \<Rightarrow> filter_fault option" where
  "checkTopicFilter filt =
     (if filt = [] then Some FilterEmpty
      else if length filt > MAX_TOPIC_LENGTH then Some FilterTooLong
      else if \<exists>c \<in> set filt. c < 0x20 then Some FilterControlCharacter
      else check_levels 0 (split_on slash filt))"

section \<open>The matching relation\<close>

inductive covers :: "jstring list \<Rightarrow> jstring list \<Rightarrow> bool" where
  nothing: "covers [] []"
| level: "p = x \<or> p = [plus_sign] \<Longrightarrow> p \<noteq> [hash] \<Longrightarrow> covers f t \<Longrightarrow> covers (p # f) (x # t)"
| rest: "covers [[hash]] t"

inductive_simps covers_simps: "covers [] t" "covers (p # f) []" "covers (p # f) (x # t)"

text \<open>A wildcard at the front does not match the broker's own topics.\<close>

definition mqtt_match :: "jstring \<Rightarrow> jstring \<Rightarrow> bool" where
  "mqtt_match filt topic \<longleftrightarrow>
     covers (split_on slash filt) (split_on slash topic) \<and>
     \<not> (starts_with [dollar] topic \<and>
        (hd (split_on slash filt) = [plus_sign] \<or> hd (split_on slash filt) = [hash]))"

text \<open>\<open>#\<close> only as the last level.\<close>

fun hash_last :: "jstring list \<Rightarrow> bool" where
  "hash_last [] = True"
| "hash_last (p # f) = ((p = [hash] \<longrightarrow> f = []) \<and> hash_last f)"

lemma level_loop_covers: "hash_last f \<Longrightarrow> level_loop f t = covers f t"
  by (induction f t rule: level_loop.induct) (auto simp: covers_simps split: list.splits)

lemma starts_with_char [simp]: "starts_with [c] s \<longleftrightarrow> s \<noteq> [] \<and> hd s = c"
  by (cases s) (auto simp: starts_with_def)

lemma starts_with_split:
  "c \<noteq> slash \<Longrightarrow> starts_with [c] s \<longleftrightarrow> starts_with [c] (hd (split_on slash s))"
  by (cases s) (auto split: list.splits)

lemma dollar_slash [simp]: "dollar \<noteq> slash" "plus_sign \<noteq> dollar" "hash \<noteq> dollar"
  "plus_sign \<noteq> hash" "hash \<noteq> plus_sign" "hash \<noteq> slash" "plus_sign \<noteq> slash"
  by (simp_all add: topic_chars)

text \<open>What the runtime's rule on \<open>$\<close> adds is only that a wildcard in front does not match.\<close>

lemma rt_topicMatches_alt:
  "rt_topicMatches filt topic =
     (level_loop (split_on slash filt) (split_on slash topic) \<and>
      \<not> (starts_with [dollar] topic \<and>
         (hd (split_on slash filt) = [plus_sign] \<or> hd (split_on slash filt) = [hash])))"
proof -
  obtain f0 f where f: "split_on slash filt = f0 # f" by (cases "split_on slash filt") auto
  obtain t0 t where t: "split_on slash topic = t0 # t" by (cases "split_on slash topic") auto
  have d: "starts_with [dollar] topic = starts_with [dollar] t0"
    "starts_with [dollar] filt = starts_with [dollar] f0"
    using starts_with_split [of dollar topic] starts_with_split [of dollar filt] f t by simp_all
  have a: "starts_with [dollar] f0 \<Longrightarrow> f0 \<noteq> [plus_sign] \<and> f0 \<noteq> [hash]" by auto
  have b: "level_loop (f0 # f) (t0 # t) \<Longrightarrow> f0 = [hash] \<or> f0 = [plus_sign] \<or> f0 = t0"
    by (auto split: if_splits)
  have "(if P \<and> \<not> Q then False else L) = (L \<and> \<not> (P \<and> (R \<or> R')))"
    if "Q \<Longrightarrow> \<not> R \<and> \<not> R'" "L \<Longrightarrow> R' \<or> R \<or> E" "E \<Longrightarrow> P = Q" for P Q R R' L E :: bool
    using that by argo
  moreover have "f0 = t0 \<Longrightarrow> starts_with [dollar] t0 = starts_with [dollar] f0" by simp
  ultimately show ?thesis
    using a b unfolding rt_topicMatches_def d f t list.sel by meson
qed

lemma check_levels_Cons:
  "check_levels n (l # ls) = None \<longleftrightarrow>
     (l = [hash] \<or> hash \<notin> set l) \<and> (l = [hash] \<longrightarrow> ls = []) \<and>
     (l = [plus_sign] \<or> plus_sign \<notin> set l) \<and> check_levels (Suc n) ls = None"
  unfolding check_levels.simps
  by (cases "hash \<in> set l"; cases "plus_sign \<in> set l"; cases "l = [hash]"; cases "ls = []";
      cases "l = [plus_sign]"; simp)

declare check_levels.simps(2) [simp del] check_levels_Cons [simp]

lemma check_levels_hash_last: "check_levels n ls = None \<Longrightarrow> hash_last ls"
  by (induction ls arbitrary: n) auto

lemma filter_level_hash_last:
  "list_all (filter_level (n + length ps - 1)) (enumerate n ps) \<Longrightarrow> hash_last ps"
proof (induction ps arbitrary: n)
  case (Cons p ps)
  then have "hash_last ps" by (intro Cons.IH [of "Suc n"]) simp
  with Cons.prems show ?case by (auto simp: filter_level_def)
qed simp

lemma valid_hash_last: "rt_isValidTopicFilter filt \<Longrightarrow> hash_last (split_on slash filt)"
  using filter_level_hash_last [of 0 "split_on slash filt"]
  by (auto simp: rt_isValidTopicFilter_def Let_def split: if_splits)

text \<open>
  C33: on a filterer the client will send, the runtime's matcher decides exactly the relation of the
  MQTT standard; and on topic names (what a broker delivers) it and the connector's own matcher
  agree on every filter, valid or not.
\<close>
theorem topic_matchers_correct:
  "(rt_isValidTopicFilter filt \<longrightarrow> rt_topicMatches filt topic = mqtt_match filt topic) \<and>
   (isTopicName topic \<longrightarrow> topicMatches filt topic = rt_topicMatches filt topic)"
proof (intro conjI impI)
  assume "rt_isValidTopicFilter filt"
  then show "rt_topicMatches filt topic = mqtt_match filt topic"
    by (simp add: rt_topicMatches_alt mqtt_match_def level_loop_covers valid_hash_last)
next
  assume "isTopicName topic"
  then show "topicMatches filt topic = rt_topicMatches filt topic"
    by (auto simp: rt_topicMatches_alt topicMatches_def hd_conv_nth Let_def)
qed

theorem topic_matchers_correct_witness:
  "rt_topicMatches (js ''a/+/#'') (js ''a/b'') = mqtt_match (js ''a/+/#'') (js ''a/b'') \<and>
   topicMatches (js ''a/+/#'') (js ''a/b'') = rt_topicMatches (js ''a/+/#'') (js ''a/b'')"
  using topic_matchers_correct [of "js ''a/+/#''" "js ''a/b''"]
  by (simp add: rt_isValidTopicFilter_def filter_level_def isTopicName_def topic_chars Let_def)

section \<open>Filters a definition may name\<close>

lemma check_levels_valid:
  "check_levels n ls = None \<Longrightarrow> list_all (filter_level (m + length ls - 1)) (enumerate m ls)"
proof (induction ls arbitrary: n m)
  case (Cons l ls)
  then have "check_levels (Suc n) ls = None" by simp
  note rest = Cons.IH [OF this, of "Suc m"]
  have "filter_level (m + length (l # ls) - 1) (m, l)"
    using Cons.prems by (auto simp: filter_level_def split: if_splits)
  with rest show ?case by simp
qed simp

lemma check_levels_level:
  "check_levels n ls = None \<Longrightarrow> l \<in> set ls \<Longrightarrow>
   l = [hash] \<or> l = [plus_sign] \<or> (hash \<notin> set l \<and> plus_sign \<notin> set l)"
  by (induction ls arbitrary: n) auto

lemma level_loop_sample:
  "check_levels n ls = None \<Longrightarrow> ls \<noteq> [] \<Longrightarrow>
   level_loop ls (map (\<lambda>l. if l = [plus_sign] then js ''x'' else l)
     (if last ls = [hash] then butlast ls else ls))"
proof (induction ls arbitrary: n)
  case (Cons l ls)
  show ?case
  proof (cases "ls = []")
    case False
    with Cons.prems have rec: "check_levels (Suc n) ls = None" "l \<noteq> [hash]"
      by (auto split: if_splits)
    from Cons.IH [OF rec(1) False] rec(2) False show ?thesis by auto
  qed simp
qed simp

lemma hash_last_butlast: "hash_last ls \<Longrightarrow> l \<in> set (butlast ls) \<Longrightarrow> l \<noteq> [hash]"
  by (induction ls) (auto split: if_splits)

lemma hash_last_last: "hash_last ls \<Longrightarrow> last ls \<noteq> [hash] \<Longrightarrow> [hash] \<notin> set ls"
  by (induction ls) (auto split: if_splits)

lemma join_with_clean: "(\<And>l. l \<in> set ls \<Longrightarrow> c \<notin> set l) \<Longrightarrow> c \<noteq> d \<Longrightarrow> c \<notin> set (join_with d ls)"
  by (induction d ls rule: join_with.induct) auto

text \<open>
  a filter that a connector definition may carry is one the client will send, and the sample
  topic made from it (for a fixture given without a topic) is matched by it, except for the one
  filter \<open>/#\<close>, whose sample is the empty string.
\<close>
theorem checked_filter_sample:
  assumes "checkTopicFilter filt = None"
  shows "rt_isValidTopicFilter filt \<and>
    (topicMatches filt (sampleTopic filt) \<longleftrightarrow> filt \<noteq> js ''/#'')"
proof -
  let ?ls = "split_on slash filt"
  let ?x = "\<lambda>l. if l = [plus_sign] then js ''x'' else l"
  let ?ls' = "map ?x (if last ?ls = [hash] then butlast ?ls else ?ls)"
  have f: "filt \<noteq> []" "length filt \<le> 256" "0 \<notin> set filt" "check_levels 0 ?ls = None"
    using assms by (auto simp: checkTopicFilter_def MAX_TOPIC_LENGTH_def split: if_splits)
  have valid: "rt_isValidTopicFilter filt"
    using f check_levels_valid [OF f(4), of 0] by (simp add: rt_isValidTopicFilter_def Let_def)
  have last: "last (map ?x ?ls) = [hash] \<longleftrightarrow> last ?ls = [hash]"
    by (simp add: last_map topic_chars)
  have sample: "sampleTopic filt = (if ?ls' \<noteq> [] then join_with slash ?ls' else js ''x'')"
    unfolding sampleTopic_def Let_def last by (simp only: map_butlast if_distrib [of "map ?x"])
  have inl: "l \<in> set ?ls \<and> l \<noteq> [hash]" if "l \<in> set (if last ?ls = [hash] then butlast ?ls else ?ls)" for l
    using that check_levels_hash_last [OF f(4)] hash_last_last [of ?ls] hash_last_butlast [of ?ls]
    by (auto dest: in_set_butlastD split: if_splits)
  have clean: "slash \<notin> set l \<and> hash \<notin> set l \<and> plus_sign \<notin> set l" if "l \<in> set ?ls'" for l
  proof -
    from that obtain l0 where l0: "l = ?x l0"
        "l0 \<in> set (if last ?ls = [hash] then butlast ?ls else ?ls)"
      unfolding set_map by (rule imageE)
    from inl [OF l0(2)] have "l0 \<in> set ?ls" "l0 \<noteq> [hash]" by blast+
    with split_on_parts [of l0 slash filt] check_levels_level [OF f(4), of l0]
    have "l0 = [plus_sign] \<or> slash \<notin> set l0 \<and> hash \<notin> set l0 \<and> plus_sign \<notin> set l0" by simp
    then show ?thesis unfolding l0(1) by (elim disjE) (simp_all add: topic_chars)
  qed
  show ?thesis
  proof (cases "?ls' = []")
    case True
    then have "?ls = [[hash]]"
      using split_on_nonempty [of slash filt] by (cases ?ls; cases "tl ?ls") (auto split: if_splits)
    then have filt: "filt = [hash]" using join_split [of slash filt] by simp
    have x: "sampleTopic filt = js ''x''" using sample True by (simp only: simp_thms if_False)
    have m: "topicMatches [hash] (js ''x'')"
      by (simp add: topicMatches_def isTopicName_def topic_chars Let_def)
    have ne: "[hash] \<noteq> js ''/#''" by (simp add: topic_chars)
    show ?thesis unfolding x using valid m ne unfolding filt by blast
  next
    case False
    let ?t = "join_with slash ?ls'"
    have split: "split_on slash ?t = ?ls'" using False clean by (intro split_join) blast+
    have "hash \<notin> set ?t" by (rule join_with_clean) (use clean in \<open>blast, simp\<close>)
    moreover have "plus_sign \<notin> set ?t" by (rule join_with_clean) (use clean in \<open>blast, simp\<close>)
    ultimately have name: "isTopicName ?t \<longleftrightarrow> ?t \<noteq> []"
      unfolding isTopicName_def length_greater_0_conv by blast
    have loop: "level_loop ?ls ?ls'" using level_loop_sample [OF f(4)] by simp
    have dollar: "\<not> (starts_with [dollar] ?t \<and> (?ls ! 0 = [plus_sign] \<or> ?ls ! 0 = [hash]))"
    proof
      assume d: "starts_with [dollar] ?t \<and> (?ls ! 0 = [plus_sign] \<or> ?ls ! 0 = [hash])"
      obtain l ls where ls: "?ls = l # ls" by (cases ?ls) auto
      with d False check_levels_hash_last [OF f(4)] have "hd ?ls' = js ''x''"
        by (cases ls) (auto split: if_splits)
      moreover have "starts_with [dollar] (hd ?ls')"
        using d starts_with_split [of dollar ?t] split by simp
      ultimately show False by (simp add: starts_with_def topic_chars)
    qed
    have "?t = [] \<longleftrightarrow> ?ls' = [[]]"
      using False by (cases ?ls'; cases "tl ?ls'") auto
    also have "\<dots> \<longleftrightarrow> filt = js ''/#''"
    proof
      assume "?ls' = [[]]"
      then have "?ls = [[]] \<or> ?ls = [[], [hash]]"
        by (cases ?ls rule: rev_cases) (auto split: if_splits simp: topic_chars)
      then have "filt = join_with slash [[]] \<or> filt = join_with slash [[], [hash]]"
        using join_split [of slash filt] by (elim disjE) (simp_all only: simp_thms)
      with f(1) show "filt = js ''/#''" by (simp add: topic_chars)
    qed (simp add: topic_chars)
    finally show ?thesis
      using False sample name split loop dollar valid by (auto simp: topicMatches_def Let_def)
  qed
qed

theorem checked_filter_sample_witness:
  "rt_isValidTopicFilter (js ''+/b/#'') \<and> topicMatches (js ''+/b/#'') (sampleTopic (js ''+/b/#''))"
  using checked_filter_sample [of "js ''+/b/#''"]
  by (simp add: checkTopicFilter_def MAX_TOPIC_LENGTH_def topic_chars)

end
