(* ===== verification/Mesh_Wire.thy ===== *)
theory Mesh_Wire
  imports Utf8
begin

unbundle bit_operations_syntax

text \<open>
  Meshtastic's client stream, \<open>providers/meshtastic-local/src/wire.ts\<close>: the frame reader, the
  protocol-buffer reader, the messages read from a node and the frames sent to it.

  A \<open>ProtoReader\<close> is the list of the bytes still ahead of its position; each of its methods
  takes that list and gives the value with the bytes left, or the \<open>ProtoError\<close> it throws.
  The two halves of a varint are 32-bit words, as the code's \<open>>>> 0\<close> makes them. A \<open>float\<close>
  is kept as the 32 bits of its IEEE representation, which this code only passes on.
\<close>

section \<open>Frames\<close>

definition START1 :: byte where "START1 = 0x94"
definition START2 :: byte where "START2 = 0xc3"
definition MAX_FRAME_PAYLOAD :: nat where "MAX_FRAME_PAYLOAD = 512"

datatype mesh_token = SkippedByte | Payload "byte list"

text \<open>One turn of the loop of \<open>FrameReader.push\<close> at the current position.\<close>

fun mesh_cut :: "byte list \<Rightarrow> (unit, mesh_token, byte) cut" where
  "mesh_cut [] = Wait"
| "mesh_cut (b0 # r0) =
     (if b0 \<noteq> START1 then Cut SkippedByte r0
      else (case r0 of
              [] \<Rightarrow> Wait
            | b1 # r1 \<Rightarrow>
                if b1 \<noteq> START2 then Cut SkippedByte r0
                else (case r1 of
                        b2 # b3 # r \<Rightarrow>
                          (let len = read16 b2 b3
                           in if len > MAX_FRAME_PAYLOAD then Cut SkippedByte r0
                              else if len > length r then Wait
                              else Cut (Payload (take len r)) (drop len r))
                      | _ \<Rightarrow> Wait)))"

record frame_reader =
  fr_buf :: "byte list"
  fr_skipped :: nat

definition new_frame_reader :: frame_reader where
  "new_frame_reader = \<lparr>fr_buf = [], fr_skipped = 0\<rparr>"

definition payloads :: "mesh_token list \<Rightarrow> byte list list" where
  "payloads ts = concat (map (\<lambda>t. case t of Payload p \<Rightarrow> [p] | SkippedByte \<Rightarrow> []) ts)"

definition frame_push :: "byte list \<Rightarrow> frame_reader \<Rightarrow> byte list list \<times> frame_reader" where
  "frame_push chunk s =
     (case drain mesh_cut (fr_buf s @ chunk) of
        (ts, _, rest) \<Rightarrow>
          (payloads ts,
           \<lparr>fr_buf = rest,
            fr_skipped = fr_skipped s + length (filter (\<lambda>t. t = SkippedByte) ts)\<rparr>))"

datatype range_error = PayloadTooLong | NotOneNode | NoPacketId | TextLength

definition mesh_frame :: "byte list \<Rightarrow> range_error + byte list" where
  "mesh_frame payload =
     (if length payload > MAX_FRAME_PAYLOAD then Inl PayloadTooLong
      else Inr (START1 # START2 # be16 (length payload) @ payload))"

section \<open>The protocol-buffer reader\<close>

datatype proto_error =
    FieldNumberZero
  | VarintPastEnd
  | VarintTooLong
  | WireType nat nat
  | Fixed32PastEnd
  | FloatPastEnd
  | Fixed64PastEnd
  | LengthPastEnd
  | WireNotRead nat

type_synonym 'a reads = "proto_error + 'a \<times> byte list"

fun varint_from :: "nat \<Rightarrow> 32 word \<Rightarrow> 32 word \<Rightarrow> byte list \<Rightarrow> (32 word \<times> 32 word) reads" where
  "varint_from i lo hi [] = (if i \<ge> 10 then Inl VarintTooLong else Inl VarintPastEnd)"
| "varint_from i lo hi (b # bs) =
     (if i \<ge> 10 then Inl VarintTooLong
      else
        (let lo' = (if i < 4 then lo OR push_bit (7 * i) (ucast (b AND 0x7f))
                    else if i = 4 then lo OR push_bit 28 (ucast (b AND 0x0f)) else lo);
             hi' = (if i < 4 then hi
                    else if i = 4 then hi OR ucast (drop_bit 4 (b AND 0x7f))
                    else hi OR push_bit (7 * i - 32) (ucast (b AND 0x7f)))
         in if b AND 0x80 = 0 then Inr ((lo', hi'), bs) else varint_from (Suc i) lo' hi' bs))"

definition varint :: "byte list \<Rightarrow> (32 word \<times> 32 word) reads" where
  "varint bs = varint_from 0 0 0 bs"

text \<open>The value of a read, changed; the error or the remaining bytes kept.\<close>

definition got :: "'a reads \<Rightarrow> ('a \<Rightarrow> 'b) \<Rightarrow> 'b reads" where
  "got x k = (case x of Inl e \<Rightarrow> Inl e | Inr (v, r) \<Rightarrow> Inr (k v, r))"

text \<open>The same when what is done with the value may throw.\<close>

definition got_try :: "'a reads \<Rightarrow> ('a \<Rightarrow> proto_error + 'b) \<Rightarrow> 'b reads" where
  "got_try x k =
     (case x of
        Inl e \<Rightarrow> Inl e
      | Inr (v, r) \<Rightarrow> (case k v of Inl e \<Rightarrow> Inl e | Inr w \<Rightarrow> Inr (w, r)))"

definition next_field :: "byte list \<Rightarrow> (nat \<times> nat) option reads" where
  "next_field bs =
     (if bs = [] then Inr (None, [])
      else got_try (varint bs) (\<lambda>(lo, hi).
        let field = unat lo div 8 + unat hi * 0x20000000; wire = unat (lo AND 7)
        in if field < 1 then Inl FieldNumberZero else Inr (Some (field, wire))))"

definition expect :: "nat \<Rightarrow> nat \<Rightarrow> 'a reads \<Rightarrow> 'a reads" where
  "expect wire want x = (if wire \<noteq> want then Inl (WireType wire want) else x)"

definition r_uint32 :: "nat \<Rightarrow> byte list \<Rightarrow> nat reads" where
  "r_uint32 wire bs = expect wire 0 (got (varint bs) (\<lambda>(lo, hi). unat lo))"

definition r_int32 :: "nat \<Rightarrow> byte list \<Rightarrow> int reads" where
  "r_int32 wire bs = expect wire 0 (got (varint bs) (\<lambda>(lo, hi). sint lo))"

definition r_sint32 :: "nat \<Rightarrow> byte list \<Rightarrow> int reads" where
  "r_sint32 wire bs =
     expect wire 0 (got (varint bs) (\<lambda>(lo, hi). sint (drop_bit 1 lo XOR (- (lo AND 1)))))"

definition r_bool :: "nat \<Rightarrow> byte list \<Rightarrow> bool reads" where
  "r_bool wire bs = expect wire 0 (got (varint bs) (\<lambda>(lo, hi). lo \<noteq> 0 \<or> hi \<noteq> 0))"

definition le32 :: "byte list \<Rightarrow> 32 word" where
  "le32 bs = (case bs of
     b0 # b1 # b2 # b3 # _ \<Rightarrow>
       word_of_nat (unat b0 + unat b1 * 256 + unat b2 * 65536 + unat b3 * 16777216)
   | _ \<Rightarrow> 0)"

definition fixed32_or :: "proto_error \<Rightarrow> byte list \<Rightarrow> (32 word) reads" where
  "fixed32_or e bs = (if length bs < 4 then Inl e else Inr (le32 bs, drop 4 bs))"

definition r_fixed32 :: "nat \<Rightarrow> byte list \<Rightarrow> nat reads" where
  "r_fixed32 wire bs = expect wire 5 (got (fixed32_or Fixed32PastEnd bs) unat)"

definition r_sfixed32 :: "nat \<Rightarrow> byte list \<Rightarrow> int reads" where
  "r_sfixed32 wire bs = expect wire 5 (got (fixed32_or Fixed32PastEnd bs) sint)"

definition r_float :: "nat \<Rightarrow> byte list \<Rightarrow> (32 word) reads" where
  "r_float wire bs = expect wire 5 (fixed32_or FloatPastEnd bs)"

definition r_bytes :: "nat \<Rightarrow> byte list \<Rightarrow> byte list reads" where
  "r_bytes wire bs =
     expect wire 2
       (case varint bs of
          Inl e \<Rightarrow> Inl e
        | Inr ((lo, hi), r) \<Rightarrow>
            if hi \<noteq> 0 \<or> unat lo > length r then Inl LengthPastEnd
            else Inr (take (unat lo) r, drop (unat lo) r))"

definition r_string :: "nat \<Rightarrow> byte list \<Rightarrow> jstring reads" where
  "r_string wire bs = got (r_bytes wire bs) utf8_decode"

definition skip_field :: "nat \<Rightarrow> byte list \<Rightarrow> unit reads" where
  "skip_field wire bs =
     (if wire = 0 then got (varint bs) (\<lambda>_. ())
      else if wire = 1 then
        (if length bs < 8 then Inl Fixed64PastEnd else Inr ((), drop 8 bs))
      else if wire = 2 then got (r_bytes wire bs) (\<lambda>_. ())
      else if wire = 5 then
        (if length bs < 4 then Inl Fixed32PastEnd else Inr ((), drop 4 bs))
      else Inl (WireNotRead wire))"

text \<open>
  The loop \<open>for (let f = r.next(); f; f = r.next())\<close> around a message's \<open>switch\<close>. The test on
  the lengths is there for termination: \<open>message_reader\<close> below shows that it always holds.
\<close>

type_synonym 'm field_step = "'m \<Rightarrow> nat \<Rightarrow> nat \<Rightarrow> byte list \<Rightarrow> 'm reads"

function read_fields :: "'m field_step \<Rightarrow> 'm \<Rightarrow> byte list \<Rightarrow> proto_error + 'm" where
  "read_fields step m bs =
     (case next_field bs of
        Inl e \<Rightarrow> Inl e
      | Inr (None, _) \<Rightarrow> Inr m
      | Inr (Some (field, wire), r) \<Rightarrow>
          (case step m field wire r of
             Inl e \<Rightarrow> Inl e
           | Inr (m', r') \<Rightarrow>
               if length r' < length bs then read_fields step m' r' else Inr m'))"
  by pat_completeness auto
termination
  by (relation "measure (\<lambda>(step, m, bs). length bs)") auto

declare read_fields.simps [simp del]

section \<open>The messages\<close>

record mesh_position =
  mp_latitudeI :: "int option"
  mp_longitudeI :: "int option"
  mp_altitudeM :: "int option"
  mp_fixTime :: "nat option"
  mp_time :: "nat option"
  mp_precisionBits :: "nat option"
  mp_satsInView :: "nat option"
  mp_locationSource :: "nat option"
  mp_pdop :: "nat option"
  mp_hdop :: "nat option"
  mp_gpsAccuracyMm :: "nat option"
  mp_fixQuality :: "nat option"
  mp_fixType :: "nat option"

definition no_position :: mesh_position where
  "no_position = \<lparr>mp_latitudeI = None, mp_longitudeI = None, mp_altitudeM = None,
     mp_fixTime = None, mp_time = None, mp_precisionBits = None, mp_satsInView = None,
     mp_locationSource = None, mp_pdop = None, mp_hdop = None, mp_gpsAccuracyMm = None,
     mp_fixQuality = None, mp_fixType = None\<rparr>"

definition position_field :: "mesh_position field_step" where
  "position_field p field wire r =
     (if field = 1 then got (r_sfixed32 wire r) (\<lambda>v. p\<lparr>mp_latitudeI := Some v\<rparr>)
      else if field = 2 then got (r_sfixed32 wire r) (\<lambda>v. p\<lparr>mp_longitudeI := Some v\<rparr>)
      else if field = 3 then got (r_int32 wire r) (\<lambda>v. p\<lparr>mp_altitudeM := Some v\<rparr>)
      else if field = 4 then got (r_fixed32 wire r) (\<lambda>v. p\<lparr>mp_time := Some v\<rparr>)
      else if field = 5 then got (r_uint32 wire r) (\<lambda>v. p\<lparr>mp_locationSource := Some v\<rparr>)
      else if field = 7 then got (r_fixed32 wire r) (\<lambda>v. p\<lparr>mp_fixTime := Some v\<rparr>)
      else if field = 11 then got (r_uint32 wire r) (\<lambda>v. p\<lparr>mp_pdop := Some v\<rparr>)
      else if field = 12 then got (r_uint32 wire r) (\<lambda>v. p\<lparr>mp_hdop := Some v\<rparr>)
      else if field = 14 then got (r_uint32 wire r) (\<lambda>v. p\<lparr>mp_gpsAccuracyMm := Some v\<rparr>)
      else if field = 17 then got (r_uint32 wire r) (\<lambda>v. p\<lparr>mp_fixQuality := Some v\<rparr>)
      else if field = 18 then got (r_uint32 wire r) (\<lambda>v. p\<lparr>mp_fixType := Some v\<rparr>)
      else if field = 19 then got (r_uint32 wire r) (\<lambda>v. p\<lparr>mp_satsInView := Some v\<rparr>)
      else if field = 23 then got (r_uint32 wire r) (\<lambda>v. p\<lparr>mp_precisionBits := Some v\<rparr>)
      else got (skip_field wire r) (\<lambda>_. p))"

definition readPosition :: "byte list \<Rightarrow> proto_error + mesh_position" where
  "readPosition buf = read_fields position_field no_position buf"

record mesh_user =
  mu_id :: "jstring option"
  mu_longName :: "jstring option"
  mu_shortName :: "jstring option"
  mu_hwModel :: "nat option"
  mu_role :: "nat option"
  mu_isLicensed :: "bool option"

definition no_user :: mesh_user where
  "no_user = \<lparr>mu_id = None, mu_longName = None, mu_shortName = None, mu_hwModel = None,
     mu_role = None, mu_isLicensed = None\<rparr>"

definition user_field :: "mesh_user field_step" where
  "user_field u field wire r =
     (if field = 1 then got (r_string wire r) (\<lambda>v. u\<lparr>mu_id := Some v\<rparr>)
      else if field = 2 then got (r_string wire r) (\<lambda>v. u\<lparr>mu_longName := Some v\<rparr>)
      else if field = 3 then got (r_string wire r) (\<lambda>v. u\<lparr>mu_shortName := Some v\<rparr>)
      else if field = 5 then got (r_uint32 wire r) (\<lambda>v. u\<lparr>mu_hwModel := Some v\<rparr>)
      else if field = 6 then got (r_bool wire r) (\<lambda>v. u\<lparr>mu_isLicensed := Some v\<rparr>)
      else if field = 7 then got (r_uint32 wire r) (\<lambda>v. u\<lparr>mu_role := Some v\<rparr>)
      else got (skip_field wire r) (\<lambda>_. u))"

definition readUser :: "byte list \<Rightarrow> proto_error + mesh_user" where
  "readUser buf = read_fields user_field no_user buf"

record mesh_device =
  md_batteryLevel :: "nat option"
  md_voltage :: "32 word option"
  md_channelUtilization :: "32 word option"
  md_airUtilTx :: "32 word option"
  md_uptimeSeconds :: "nat option"

definition no_device :: mesh_device where
  "no_device = \<lparr>md_batteryLevel = None, md_voltage = None, md_channelUtilization = None,
     md_airUtilTx = None, md_uptimeSeconds = None\<rparr>"

definition device_field :: "mesh_device field_step" where
  "device_field d field wire r =
     (if field = 1 then got (r_uint32 wire r) (\<lambda>v. d\<lparr>md_batteryLevel := Some v\<rparr>)
      else if field = 2 then got (r_float wire r) (\<lambda>v. d\<lparr>md_voltage := Some v\<rparr>)
      else if field = 3 then got (r_float wire r) (\<lambda>v. d\<lparr>md_channelUtilization := Some v\<rparr>)
      else if field = 4 then got (r_float wire r) (\<lambda>v. d\<lparr>md_airUtilTx := Some v\<rparr>)
      else if field = 5 then got (r_uint32 wire r) (\<lambda>v. d\<lparr>md_uptimeSeconds := Some v\<rparr>)
      else got (skip_field wire r) (\<lambda>_. d))"

definition readDeviceMetrics :: "byte list \<Rightarrow> proto_error + mesh_device" where
  "readDeviceMetrics buf = read_fields device_field no_device buf"

record mesh_environment =
  me_temperatureC :: "32 word option"
  me_relativeHumidity :: "32 word option"
  me_barometricPressureHpa :: "32 word option"

definition environment_field :: "mesh_environment field_step" where
  "environment_field e field wire r =
     (if field = 1 then got (r_float wire r) (\<lambda>v. e\<lparr>me_temperatureC := Some v\<rparr>)
      else if field = 2 then got (r_float wire r) (\<lambda>v. e\<lparr>me_relativeHumidity := Some v\<rparr>)
      else if field = 3 then got (r_float wire r) (\<lambda>v. e\<lparr>me_barometricPressureHpa := Some v\<rparr>)
      else got (skip_field wire r) (\<lambda>_. e))"

definition readEnvironment :: "byte list \<Rightarrow> proto_error + mesh_environment" where
  "readEnvironment buf =
     read_fields environment_field
       \<lparr>me_temperatureC = None, me_relativeHumidity = None, me_barometricPressureHpa = None\<rparr> buf"

record mesh_telemetry =
  mt_time :: "nat option"
  mt_device :: "mesh_device option"
  mt_environment :: "mesh_environment option"

text \<open>A submessage: its bytes are read, then the bytes are read as a message.\<close>

definition submessage :: "(byte list \<Rightarrow> proto_error + 'a) \<Rightarrow> nat \<Rightarrow> byte list \<Rightarrow> 'a reads" where
  "submessage read wire r = got_try (r_bytes wire r) read"

definition telemetry_field :: "mesh_telemetry field_step" where
  "telemetry_field t field wire r =
     (if field = 1 then got (r_fixed32 wire r) (\<lambda>v. t\<lparr>mt_time := Some v\<rparr>)
      else if field = 2
      then got (submessage readDeviceMetrics wire r) (\<lambda>v. t\<lparr>mt_device := Some v\<rparr>)
      else if field = 3
      then got (submessage readEnvironment wire r) (\<lambda>v. t\<lparr>mt_environment := Some v\<rparr>)
      else got (skip_field wire r) (\<lambda>_. t))"

definition readTelemetry :: "byte list \<Rightarrow> proto_error + mesh_telemetry" where
  "readTelemetry buf =
     read_fields telemetry_field \<lparr>mt_time = None, mt_device = None, mt_environment = None\<rparr> buf"

record mesh_node =
  mn_num :: nat
  mn_user :: "mesh_user option"
  mn_position :: "mesh_position option"
  mn_snr :: "32 word option"
  mn_lastHeard :: "nat option"
  mn_device :: "mesh_device option"
  mn_hopsAway :: "nat option"
  mn_viaMqtt :: "bool option"

definition node_field :: "mesh_node field_step" where
  "node_field n field wire r =
     (if field = 1 then got (r_uint32 wire r) (\<lambda>v. n\<lparr>mn_num := v\<rparr>)
      else if field = 2 then got (submessage readUser wire r) (\<lambda>v. n\<lparr>mn_user := Some v\<rparr>)
      else if field = 3 then got (submessage readPosition wire r) (\<lambda>v. n\<lparr>mn_position := Some v\<rparr>)
      else if field = 4 then got (r_float wire r) (\<lambda>v. n\<lparr>mn_snr := Some v\<rparr>)
      else if field = 5 then got (r_fixed32 wire r) (\<lambda>v. n\<lparr>mn_lastHeard := Some v\<rparr>)
      else if field = 6
      then got (submessage readDeviceMetrics wire r) (\<lambda>v. n\<lparr>mn_device := Some v\<rparr>)
      else if field = 8 then got (r_bool wire r) (\<lambda>v. n\<lparr>mn_viaMqtt := Some v\<rparr>)
      else if field = 9 then got (r_uint32 wire r) (\<lambda>v. n\<lparr>mn_hopsAway := Some v\<rparr>)
      else got (skip_field wire r) (\<lambda>_. n))"

definition readNodeInfo :: "byte list \<Rightarrow> proto_error + mesh_node" where
  "readNodeInfo buf =
     read_fields node_field
       \<lparr>mn_num = 0, mn_user = None, mn_position = None, mn_snr = None, mn_lastHeard = None,
        mn_device = None, mn_hopsAway = None, mn_viaMqtt = None\<rparr> buf"

record mesh_data =
  da_portnum :: nat
  da_payload :: "byte list option"
  da_requestId :: "nat option"

definition PORT_TEXT_MESSAGE :: nat where "PORT_TEXT_MESSAGE = 1"

definition data_field :: "mesh_data field_step" where
  "data_field d field wire r =
     (if field = 1 then got (r_uint32 wire r) (\<lambda>v. d\<lparr>da_portnum := v\<rparr>)
      else if field = 2 then got (r_bytes wire r) (\<lambda>v. d\<lparr>da_payload := Some v\<rparr>)
      else if field = 6 then got (r_fixed32 wire r) (\<lambda>v. d\<lparr>da_requestId := Some v\<rparr>)
      else got (skip_field wire r) (\<lambda>_. d))"

definition readData :: "byte list \<Rightarrow> proto_error + mesh_data" where
  "readData buf =
     (case read_fields data_field \<lparr>da_portnum = 0, da_payload = None, da_requestId = None\<rparr> buf of
        Inl e \<Rightarrow> Inl e
      | Inr d \<Rightarrow>
          if da_portnum d = PORT_TEXT_MESSAGE
          then Inr \<lparr>da_portnum = da_portnum d, da_payload = None, da_requestId = None\<rparr>
          else Inr (d\<lparr>da_requestId :=
                 (if da_requestId d \<noteq> Some 0 then da_requestId d else None)\<rparr>))"

definition routing_field :: "nat field_step" where
  "routing_field err field wire r =
     (if field = 3 then got (r_uint32 wire r) (\<lambda>v. v) else got (skip_field wire r) (\<lambda>_. err))"

definition readRoutingError :: "byte list \<Rightarrow> proto_error + nat" where
  "readRoutingError buf = read_fields routing_field 0 buf"

record lora_config =
  lc_region :: nat
  lc_usePreset :: bool
  lc_modemPreset :: nat
  lc_hopLimit :: nat
  lc_txEnabled :: bool

definition lora_field :: "lora_config field_step" where
  "lora_field c field wire r =
     (if field = 1 then got (r_bool wire r) (\<lambda>v. c\<lparr>lc_usePreset := v\<rparr>)
      else if field = 2 then got (r_uint32 wire r) (\<lambda>v. c\<lparr>lc_modemPreset := v\<rparr>)
      else if field = 7 then got (r_uint32 wire r) (\<lambda>v. c\<lparr>lc_region := v\<rparr>)
      else if field = 8 then got (r_uint32 wire r) (\<lambda>v. c\<lparr>lc_hopLimit := v\<rparr>)
      else if field = 9 then got (r_bool wire r) (\<lambda>v. c\<lparr>lc_txEnabled := v\<rparr>)
      else got (skip_field wire r) (\<lambda>_. c))"

definition readLoraConfig :: "byte list \<Rightarrow> proto_error + lora_config" where
  "readLoraConfig buf =
     read_fields lora_field
       \<lparr>lc_region = 0, lc_usePreset = False, lc_modemPreset = 0, lc_hopLimit = 0,
        lc_txEnabled = False\<rparr> buf"

record mesh_packet =
  pk_from :: nat
  pk_to :: nat
  pk_rxTime :: "nat option"
  pk_rxSnr :: "32 word option"
  pk_rxRssi :: "int option"
  pk_hopStart :: "nat option"
  pk_hopLimit :: "nat option"
  pk_viaMqtt :: "bool option"
  pk_decoded :: "mesh_data option"
  pk_id :: "nat option"
  pk_encrypted :: bool

definition no_packet :: mesh_packet where
  "no_packet = \<lparr>pk_from = 0, pk_to = 0, pk_rxTime = None, pk_rxSnr = None, pk_rxRssi = None,
     pk_hopStart = None, pk_hopLimit = None, pk_viaMqtt = None, pk_decoded = None, pk_id = None,
     pk_encrypted = False\<rparr>"

definition packet_field :: "mesh_packet field_step" where
  "packet_field p field wire r =
     (if field = 1 then got (r_fixed32 wire r) (\<lambda>v. p\<lparr>pk_from := v\<rparr>)
      else if field = 2 then got (r_fixed32 wire r) (\<lambda>v. p\<lparr>pk_to := v\<rparr>)
      else if field = 4 then got (submessage readData wire r) (\<lambda>v. p\<lparr>pk_decoded := Some v\<rparr>)
      else if field = 6 then got (r_fixed32 wire r) (\<lambda>v. p\<lparr>pk_id := Some v\<rparr>)
      else if field = 5 then got (skip_field wire r) (\<lambda>_. p\<lparr>pk_encrypted := True\<rparr>)
      else if field = 7 then got (r_fixed32 wire r) (\<lambda>v. p\<lparr>pk_rxTime := Some v\<rparr>)
      else if field = 8 then got (r_float wire r) (\<lambda>v. p\<lparr>pk_rxSnr := Some v\<rparr>)
      else if field = 9 then got (r_uint32 wire r) (\<lambda>v. p\<lparr>pk_hopLimit := Some v\<rparr>)
      else if field = 12 then got (r_int32 wire r) (\<lambda>v. p\<lparr>pk_rxRssi := Some v\<rparr>)
      else if field = 14 then got (r_bool wire r) (\<lambda>v. p\<lparr>pk_viaMqtt := Some v\<rparr>)
      else if field = 15 then got (r_uint32 wire r) (\<lambda>v. p\<lparr>pk_hopStart := Some v\<rparr>)
      else got (skip_field wire r) (\<lambda>_. p))"

definition readMeshPacket :: "byte list \<Rightarrow> proto_error + mesh_packet" where
  "readMeshPacket buf = read_fields packet_field no_packet buf"

record queue_status =
  qs_res :: int
  qs_free :: nat
  qs_meshPacketId :: nat

datatype from_radio =
    Packet mesh_packet
  | MyInfo nat
  | NodeInfo mesh_node
  | ConfigComplete nat
  | Rebooted
  | Metadata "jstring option"
  | LoraSettings lora_config
  | QueueStatus queue_status
  | OtherMessage

definition my_info_field :: "nat field_step" where
  "my_info_field n field wire r =
     (if field = 1 then got (r_uint32 wire r) (\<lambda>v. v) else got (skip_field wire r) (\<lambda>_. n))"

definition config_field :: "from_radio field_step" where
  "config_field out field wire r =
     (if field = 6 then got (submessage readLoraConfig wire r) LoraSettings
      else got (skip_field wire r) (\<lambda>_. out))"

definition queue_field :: "queue_status field_step" where
  "queue_field q field wire r =
     (if field = 1 then got (r_int32 wire r) (\<lambda>v. q\<lparr>qs_res := v\<rparr>)
      else if field = 2 then got (r_uint32 wire r) (\<lambda>v. q\<lparr>qs_free := v\<rparr>)
      else if field = 4 then got (r_uint32 wire r) (\<lambda>v. q\<lparr>qs_meshPacketId := v\<rparr>)
      else got (skip_field wire r) (\<lambda>_. q))"

definition metadata_field :: "jstring option field_step" where
  "metadata_field v field wire r =
     (if field = 1 then got (r_string wire r) (\<lambda>s. Some (take 64 s))
      else got (skip_field wire r) (\<lambda>_. v))"

definition from_radio_field :: "from_radio field_step" where
  "from_radio_field out field wire r =
     (if field = 2 then got (submessage readMeshPacket wire r) Packet
      else if field = 3
      then got (submessage (read_fields my_info_field 0) wire r) MyInfo
      else if field = 4 then got (submessage readNodeInfo wire r) NodeInfo
      else if field = 7 then got (r_uint32 wire r) ConfigComplete
      else if field = 8 then got (skip_field wire r) (\<lambda>_. Rebooted)
      else if field = 5 then submessage (read_fields config_field out) wire r
      else if field = 11
      then got (submessage (read_fields queue_field
             \<lparr>qs_res = 0, qs_free = 0, qs_meshPacketId = 0\<rparr>) wire r) QueueStatus
      else if field = 13
      then got (submessage (read_fields metadata_field None) wire r)
             (\<lambda>v. Metadata (if v = Some [] then None else v))
      else got (skip_field wire r) (\<lambda>_. out))"

definition readFromRadio :: "byte list \<Rightarrow> proto_error + from_radio" where
  "readFromRadio buf = read_fields from_radio_field OtherMessage buf"

section \<open>What the provider sends\<close>

definition MAX_TEXT_BYTES :: nat where "MAX_TEXT_BYTES = 200"

fun varint_loop :: "nat \<Rightarrow> byte list" where
  "varint_loop v =
     (if v > 0x7f then (word_of_nat (v mod 128) OR 0x80) # varint_loop (v div 128)
      else [word_of_nat v])"

declare varint_loop.simps [simp del]

definition varintBytes :: "nat \<Rightarrow> byte list" where
  "varintBytes n = varint_loop (n mod 2 ^ 32)"

definition key_byte :: "nat \<Rightarrow> nat \<Rightarrow> byte" where
  "key_byte field wire = word_of_nat (or (push_bit 3 field) wire)"

definition wantConfigFrame :: "nat \<Rightarrow> range_error + byte list" where
  "wantConfigFrame ident = mesh_frame (key_byte 3 0 # varintBytes ident)"

definition heartbeatFrame :: "range_error + byte list" where
  "heartbeatFrame = mesh_frame [key_byte 7 2, 0]"

definition lenField :: "nat \<Rightarrow> byte list \<Rightarrow> byte list" where
  "lenField field bs = key_byte field 2 # varintBytes (length bs) @ bs"

definition varintField :: "nat \<Rightarrow> nat \<Rightarrow> byte list" where
  "varintField field n = key_byte field 0 # varintBytes n"

definition fixed32Field :: "nat \<Rightarrow> nat \<Rightarrow> byte list" where
  "fixed32Field field n =
     (let v = n mod 2 ^ 32
      in [key_byte field 5, word_of_nat (and v 255), word_of_nat (and (drop_bit 8 v) 255),
          word_of_nat (and (drop_bit 16 v) 255), word_of_nat (and (drop_bit 24 v) 255)])"

record text_packet =
  tp_to :: nat
  tp_id :: nat
  tp_text :: jstring
  tp_channel :: nat
  tp_hopLimit :: int

definition text_data :: "byte list \<Rightarrow> byte list" where
  "text_data text = varintField 1 PORT_TEXT_MESSAGE @ lenField 2 text"

definition text_packet_bytes :: "text_packet \<Rightarrow> byte list \<Rightarrow> byte list" where
  "text_packet_bytes p text =
     fixed32Field 2 (tp_to p)
     @ (if tp_channel p \<noteq> 0 then varintField 3 (tp_channel p) else [])
     @ lenField 4 (text_data text)
     @ fixed32Field 6 (tp_id p)
     @ varintField 9 (nat (min 7 (max 0 (tp_hopLimit p))))
     @ varintField 10 1"

definition textPacketFrame :: "text_packet \<Rightarrow> range_error + byte list" where
  "textPacketFrame p =
     (if tp_to p = 0xffffffff \<or> tp_to p = 0 then Inl NotOneNode
      else if tp_id p = 0 then Inl NoPacketId
      else
        (let text = utf8_encode (tp_text p)
         in if text = [] \<or> length text > MAX_TEXT_BYTES then Inl TextLength
            else mesh_frame (lenField 1 (text_packet_bytes p text))))"

text \<open>\<open>!a1b2c3d4\<close>: \<open>toLowerCase\<close> on the characters the pattern then accepts is the ASCII one.\<close>

definition hex_digit :: "nat \<Rightarrow> jchar" where
  "hex_digit d = (if d < 10 then 48 + d else 87 + d)"

fun hex_digits :: "nat \<Rightarrow> nat \<Rightarrow> jstring" where
  "hex_digits 0 n = []"
| "hex_digits (Suc k) n = hex_digits k (n div 16) @ [hex_digit (n mod 16)]"

definition nodeNum :: "jstring \<Rightarrow> nat option" where
  "nodeNum ident =
     (case trim ident of
        c # ds \<Rightarrow> if c = jc CHR ''!'' \<and> length ds = 8 \<and> list_all is_hex ds
                  then Some (hex_nat ds) else None
      | [] \<Rightarrow> None)"

text \<open>The eight digits of \<open>(num >>> 0).toString(16).padStart(8, '0')\<close>.\<close>

definition nodeId :: "nat \<Rightarrow> jstring" where
  "nodeId num = jc CHR ''!'' # hex_digits 8 (num mod 2 ^ 32)"

section \<open>What a read promises\<close>

text \<open>
  A read that succeeds consumed a prefix of its bytes, and reads the same from a longer buffer.
\<close>

definition stable :: "(byte list \<Rightarrow> 'a reads) \<Rightarrow> bool" where
  "stable p \<longleftrightarrow>
     (\<forall>bs v r. p bs = Inr (v, r) \<longrightarrow>
        length r \<le> length bs \<and> (\<forall>t. p (bs @ t) = Inr (v, r @ t)))"

named_theorems stable_intros \<open>reads that keep the contract of a read\<close>

lemma stableD:
  "stable p \<Longrightarrow> p bs = Inr (v, r) \<Longrightarrow> length r \<le> length bs"
  "stable p \<Longrightarrow> p bs = Inr (v, r) \<Longrightarrow> p (bs @ t) = Inr (v, r @ t)"
  by (auto simp: stable_def)

lemma varint_from_shorter: "varint_from i lo hi bs = Inr (v, r) \<Longrightarrow> length r < length bs"
  by (induction bs arbitrary: i lo hi)
    (auto simp: Let_def simp del: high_bit split: if_splits intro: less_SucI)

lemma varint_from_extend:
  "varint_from i lo hi bs = Inr (v, r) \<Longrightarrow> varint_from i lo hi (bs @ t) = Inr (v, r @ t)"
  by (induction bs arbitrary: i lo hi)
    (auto simp: Let_def simp del: high_bit split: if_splits)

lemma varint_stable [stable_intros]: "stable varint"
  unfolding varint_def stable_def
  by (auto dest: varint_from_shorter simp: varint_from_extend less_imp_le)

lemma stable_got [stable_intros]: "stable p \<Longrightarrow> stable (\<lambda>bs. got (p bs) k)"
  by (fastforce simp: stable_def got_def split: sum.splits)

lemma stable_got_try [stable_intros]: "stable p \<Longrightarrow> stable (\<lambda>bs. got_try (p bs) k)"
  by (fastforce simp: stable_def got_try_def split: sum.splits)

lemma stable_expect [stable_intros]: "stable p \<Longrightarrow> stable (\<lambda>bs. expect wire want (p bs))"
  by (simp add: stable_def expect_def)

lemma stable_if [stable_intros]:
  "stable p \<Longrightarrow> stable q \<Longrightarrow> stable (\<lambda>bs. if c then p bs else q bs)"
  by (cases c) simp_all

lemma stable_fail [stable_intros]: "stable (\<lambda>bs. Inl e)"
  by (simp add: stable_def)

lemma fixed32_or_stable [stable_intros]: "stable (fixed32_or e)"
proof -
  have "le32 (bs @ t) = le32 bs" if "4 \<le> length bs" for bs t
    using that
    by (cases bs; cases "tl bs"; cases "tl (tl bs)"; cases "tl (tl (tl bs))")
      (simp_all add: le32_def)
  then show ?thesis by (auto simp: stable_def fixed32_or_def split: if_splits)
qed

lemma varint_shorter: "varint bs = Inr (v, r) \<Longrightarrow> length r < length bs"
  by (simp add: varint_def varint_from_shorter)

lemma r_bytes_stable [stable_intros]: "stable (r_bytes wire)"
  unfolding stable_def r_bytes_def expect_def
  by (auto split: sum.splits if_splits dest!: varint_shorter simp: stableD(2) [OF varint_stable])

lemma skip_field_stable [stable_intros]: "stable (skip_field wire)"
proof -
  have "stable (\<lambda>bs. if length bs < n then Inl e else Inr ((), drop n bs))" for n e
    by (auto simp: stable_def split: if_splits)
  then show ?thesis
    unfolding skip_field_def by (intro stable_intros)
qed

lemma typed_reads_stable [stable_intros]:
  "stable (r_uint32 wire)" "stable (r_int32 wire)" "stable (r_sint32 wire)"
  "stable (r_bool wire)" "stable (r_fixed32 wire)" "stable (r_sfixed32 wire)"
  "stable (r_float wire)" "stable (r_string wire)"
  unfolding r_uint32_def r_int32_def r_sint32_def r_bool_def r_fixed32_def r_sfixed32_def
    r_float_def r_string_def
  by (intro stable_intros)+

lemma submessage_stable [stable_intros]: "stable (submessage read wire)"
  unfolding submessage_def by (intro stable_intros)

lemma next_field_some:
  "next_field bs = Inr (Some fw, r) \<Longrightarrow> length r < length bs"
  by (auto simp: next_field_def got_try_def dest: varint_shorter split: sum.splits if_splits)

lemma next_field_extend:
  "next_field bs = Inr (Some fw, r) \<Longrightarrow> next_field (bs @ t) = Inr (Some fw, r @ t)"
  by (auto simp: next_field_def got_try_def stableD(2) [OF varint_stable] Let_def
      split: sum.splits if_splits)

lemma next_field_none: "next_field bs = Inr (None, r) \<Longrightarrow> bs = []"
  by (auto simp: next_field_def got_try_def Let_def split: sum.splits if_splits prod.splits)

lemma next_field_nil [simp]: "next_field [] = Inr (None, [])"
  by (simp add: next_field_def)

section \<open>The loop over a message's fields\<close>

text \<open>
  The contract of a message's \<open>switch\<close>: every case is a read, and a field number without a
  case is skipped by its wire type.
\<close>

locale message_reader =
  fixes step :: "'m field_step" and known :: "nat set"
  assumes step_stable: "stable (step m field wire)"
    and step_unknown: "field \<notin> known \<Longrightarrow> step m field wire r = got (skip_field wire r) (\<lambda>_. m)"
begin

lemma read_nil [simp]: "read_fields step m [] = Inr m"
  by (subst read_fields.simps) simp

lemma read_field:
  "next_field bs = Inr (Some (field, wire), r) \<Longrightarrow>
   read_fields step m bs =
     (case step m field wire r of Inl e \<Rightarrow> Inl e | Inr (m', r') \<Rightarrow> read_fields step m' r')"
  using next_field_some [of bs "(field, wire)" r] stableD(1) [OF step_stable]
  by (subst read_fields.simps) (fastforce split: sum.splits)

text \<open>A message followed by more fields: the reading goes on from the message read so far.\<close>

lemma read_append:
  "read_fields step m a = Inr m' \<Longrightarrow> read_fields step m (a @ b) = read_fields step m' b"
proof (induction a arbitrary: m rule: length_induct)
  case (1 a)
  show ?case
  proof (cases "a = []")
    case True
    with 1 show ?thesis by simp
  next
    case False
    with "1.prems" obtain field wire r where n: "next_field a = Inr (Some (field, wire), r)"
      by (cases "next_field a") (auto simp: read_fields.simps dest: next_field_none
          split: option.splits prod.splits)
    with "1.prems" obtain m1 r1 where s: "step m field wire r = Inr (m1, r1)"
      and rd: "read_fields step m1 r1 = Inr m'"
      by (auto simp: read_field split: sum.splits)
    have "length r1 < length a"
      using next_field_some [OF n] stableD(1) [OF step_stable s] by simp
    with "1.IH" rd have "read_fields step m1 (r1 @ b) = read_fields step m' b" by blast
    then show ?thesis
      by (simp add: read_field [OF next_field_extend [OF n]] stableD(2) [OF step_stable s])
  qed
qed

text \<open>What every case of the switch keeps, the whole reading keeps.\<close>

lemma read_invariant:
  assumes keeps: "\<And>m field wire r m' r'. P m \<Longrightarrow> step m field wire r = Inr (m', r') \<Longrightarrow> P m'"
  shows "P m \<Longrightarrow> read_fields step m bs = Inr m' \<Longrightarrow> P m'"
proof (induction bs arbitrary: m rule: length_induct)
  case (1 bs)
  show ?case
  proof (cases "bs = []")
    case True
    with 1 show ?thesis by simp
  next
    case False
    with "1.prems" obtain field wire r where n: "next_field bs = Inr (Some (field, wire), r)"
      by (cases "next_field bs") (auto simp: read_fields.simps dest: next_field_none
          split: option.splits prod.splits)
    with "1.prems" obtain m1 r1 where s: "step m field wire r = Inr (m1, r1)"
      and rd: "read_fields step m1 r1 = Inr m'"
      by (auto simp: read_field split: sum.splits)
    have "length r1 < length bs"
      using next_field_some [OF n] stableD(1) [OF step_stable s] by simp
    with "1.IH" rd keeps [OF "1.prems"(1) s] show ?thesis by blast
  qed
qed

text \<open>A field of an unknown number leaves the message as it was.\<close>

lemma read_unknown:
  assumes "next_field u = Inr (Some (field, wire), r)" and "field \<notin> known"
    and "skip_field wire r = Inr ((), [])"
  shows "read_fields step m (u @ b) = read_fields step m b"
proof (rule read_append)
  show "read_fields step m u = Inr m"
    using assms by (simp add: read_field step_unknown got_def)
qed

end

text \<open>A field of a number and wire type, as its encoder writes it.\<close>

definition whole_field :: "nat \<Rightarrow> byte list \<Rightarrow> bool" where
  "whole_field field u \<longleftrightarrow>
     (case next_field u of
        Inr (Some (f, wire), r) \<Rightarrow> f = field \<and> skip_field wire r = Inr ((), [])
      | _ \<Rightarrow> False)"

lemma whole_fieldE:
  assumes "whole_field field u"
  obtains wire r where "next_field u = Inr (Some (field, wire), r)"
    "skip_field wire r = Inr ((), [])"
proof (cases "next_field u")
  case (Inl e)
  with assms show ?thesis by (simp add: whole_field_def)
next
  case (Inr x)
  obtain f r where "x = (f, r)" by (cases x)
  with Inr assms that show ?thesis
    by (cases f) (auto simp: whole_field_def)
qed

interpretation position: message_reader position_field "{1, 2, 3, 4, 5, 7, 11, 12, 14, 17, 18, 19, 23}"
  by unfold_locales (unfold position_field_def, (intro stable_intros | simp)+)

interpretation user: message_reader user_field "{1, 2, 3, 5, 6, 7}"
  by unfold_locales (unfold user_field_def, (intro stable_intros | simp)+)

interpretation device: message_reader device_field "{1, 2, 3, 4, 5}"
  by unfold_locales (unfold device_field_def, (intro stable_intros | simp)+)

interpretation environment: message_reader environment_field "{1, 2, 3}"
  by unfold_locales (unfold environment_field_def, (intro stable_intros | simp)+)

interpretation telemetry: message_reader telemetry_field "{1, 2, 3}"
  by unfold_locales (unfold telemetry_field_def, (intro stable_intros | simp)+)

interpretation node: message_reader node_field "{1, 2, 3, 4, 5, 6, 8, 9}"
  by unfold_locales (unfold node_field_def, (intro stable_intros | simp)+)

interpretation mdata: message_reader data_field "{1, 2, 6}"
  by unfold_locales (unfold data_field_def, (intro stable_intros | simp)+)

interpretation routing: message_reader routing_field "{3}"
  by unfold_locales (unfold routing_field_def, (intro stable_intros | simp)+)

interpretation lora: message_reader lora_field "{1, 2, 7, 8, 9}"
  by unfold_locales (unfold lora_field_def, (intro stable_intros | simp)+)

interpretation mpacket: message_reader packet_field "{1, 2, 4, 5, 6, 7, 8, 9, 12, 14, 15}"
  by unfold_locales (unfold packet_field_def, (intro stable_intros | simp)+)

interpretation my_info: message_reader my_info_field "{1}"
  by unfold_locales (unfold my_info_field_def, (intro stable_intros | simp)+)

interpretation config: message_reader config_field "{6}"
  by unfold_locales (unfold config_field_def, (intro stable_intros | simp)+)

interpretation mqueue: message_reader queue_field "{1, 2, 4}"
  by unfold_locales (unfold queue_field_def, (intro stable_intros | simp)+)

interpretation metadata: message_reader metadata_field "{1}"
  by unfold_locales (unfold metadata_field_def, (intro stable_intros | simp)+)

interpretation radio: message_reader from_radio_field "{2, 3, 4, 5, 7, 8, 11, 13}"
  by unfold_locales (unfold from_radio_field_def, (intro stable_intros | simp)+)

section \<open>What is written is read back\<close>

lemma ucast_low7: "(ucast (b AND 0x7f :: byte) :: 32 word) = word_of_nat (unat b mod 128)"
proof -
  have "(ucast (b AND 0x7f) :: 32 word) = word_of_nat (unat (b AND 0x7f))"
    by (simp del: unat_low7)
  then show ?thesis by simp
qed

lemma low7_or_rest:
  "word_of_nat (v mod 128) OR push_bit 7 (word_of_nat (v div 128)) = (word_of_nat v :: 32 word)"
proof -
  have "or (push_bit 7 (v div 128)) (v mod 128) = v"
    using or_push [of "v mod 128" 7 "v div 128"] by simp
  then have "(word_of_nat (or (push_bit 7 (v div 128)) (v mod 128)) :: 32 word) = word_of_nat v"
    by simp
  then show ?thesis
    by (simp only: of_nat_or_eq of_nat_push_bit or.commute)
qed

lemma varint_loop_read:
  "i \<le> 4 \<Longrightarrow> v < 2 ^ (32 - 7 * i) \<Longrightarrow>
   varint_from i lo 0 (varint_loop v @ r) = Inr ((lo OR push_bit (7 * i) (word_of_nat v), 0), r)"
proof (induction v arbitrary: i lo rule: varint_loop.induct)
  case (1 v)
  show ?case
  proof (cases "v > 127")
    case True
    have i: "i < 4"
    proof (rule ccontr)
      assume "\<not> i < 4"
      with "1.prems" have "v < 2 ^ (32 - 28)" by (auto simp: not_less)
      with True show False by simp
    qed
    have "(2::nat) ^ (32 - 7 * i) = 2 ^ (32 - 7 * Suc i) * 128"
    proof -
      have "32 - 7 * i = (32 - 7 * Suc i) + 7" using i by simp
      then have "(2::nat) ^ (32 - 7 * i) = 2 ^ (32 - 7 * Suc i) * 2 ^ 7" by (simp only: power_add)
      then show ?thesis by simp
    qed
    with "1.prems" have small: "v div 128 < 2 ^ (32 - 7 * Suc i)"
      by (simp add: less_mult_imp_div_less)
    let ?b = "word_of_nat (v mod 128) OR 0x80 :: byte"
    have ub: "unat ?b = v mod 128 + 128" by (rule unat_or_0x80) simp
    then have low: "(ucast (?b AND 0x7f) :: 32 word) = word_of_nat (v mod 128)"
      unfolding ucast_low7 by simp
    have high: "?b AND 0x80 \<noteq> 0" using ub by (simp only: high_bit)
    have loop: "varint_loop v = ?b # varint_loop (v div 128)"
      using True by (subst varint_loop.simps) simp
    let ?lo = "lo OR push_bit (7 * i) (word_of_nat (v mod 128))"
    have "varint_from i lo 0 (varint_loop v @ r) =
        varint_from (Suc i) ?lo 0 (varint_loop (v div 128) @ r)"
      unfolding loop using i low high by (simp add: Let_def del: high_bit)
    also have "\<dots> = Inr ((?lo OR push_bit (7 * Suc i) (word_of_nat (v div 128)), 0), r)"
      using "1.IH" True i small by simp
    also have "?lo OR push_bit (7 * Suc i) (word_of_nat (v div 128)) =
        lo OR push_bit (7 * i) (word_of_nat (v mod 128) OR push_bit 7 (word_of_nat (v div 128)))"
      by (simp add: push_bit_or or.assoc add.commute)
    finally show ?thesis by (simp only: low7_or_rest)
  next
    case False
    then have loop: "varint_loop v = [word_of_nat v]" by (subst varint_loop.simps) simp
    have uv: "unat (word_of_nat v :: byte) = v" using False by simp
    then have low: "(ucast (word_of_nat v AND 0x7f :: byte) :: 32 word) = word_of_nat v"
      unfolding ucast_low7 using False by simp
    have high: "word_of_nat v AND 0x80 = (0 :: byte)" using uv False by simp
    show ?thesis
    proof (cases "i = 4")
      case True
      with "1.prems" have v16: "v < 16" by simp
      have all: "\<forall>n < 16. (ucast (word_of_nat n AND 0x0f :: byte) :: 32 word) = word_of_nat n \<and>
          drop_bit 4 (word_of_nat n AND 0x7f :: byte) = 0"
        by code_simp
      with v16 have "(ucast (word_of_nat v AND 0x0f :: byte) :: 32 word) = word_of_nat v"
        "drop_bit 4 (word_of_nat v AND 0x7f :: byte) = 0" by blast+
      with True loop high show ?thesis by (simp add: Let_def)
    next
      case F: False
      with "1.prems" loop low high show ?thesis by (simp add: Let_def)
    qed
  qed
qed

lemma varint_varintBytes [simp]: "varint (varintBytes n @ r) = Inr ((word_of_nat n, 0), r)"
proof -
  have "(word_of_nat (n mod 2 ^ 32) :: 32 word) = word_of_nat n"
    by (simp add: word_unat_eq_iff unat_of_nat)
  with varint_loop_read [of 0 "n mod 2 ^ 32" 0 r] show ?thesis
    by (simp add: varint_def varintBytes_def)
qed

lemma varint_loop_length: "v < 128 ^ k \<Longrightarrow> 0 < k \<Longrightarrow> length (varint_loop v) \<le> k"
proof (induction v arbitrary: k rule: varint_loop.induct)
  case (1 v)
  obtain j where k: "k = Suc j" using "1.prems" by (cases k) auto
  show ?case
  proof (cases "v > 127")
    case True
    with "1.prems" k have "0 < j" by (cases j) auto
    moreover have "v div 128 < 128 ^ j"
      using "1.prems"(1) k by (intro less_mult_imp_div_less) (simp add: mult.commute)
    ultimately have "0 < j" "v div 128 < 128 ^ j" by blast+
    with "1.IH" True k show ?thesis by (subst varint_loop.simps) auto
  next
    case False
    with k show ?thesis by (subst varint_loop.simps) simp
  qed
qed

lemma next_field_key:
  assumes "0 < field" "field < 16" "wire < 8"
  shows "next_field (key_byte field wire # r) = Inr (Some (field, wire), r)"
proof -
  obtain k where k_def: "k = field * 8 + wire" by simp
  have kb: "key_byte field wire = word_of_nat k"
    using assms or_push [of wire 3 field] by (simp add: key_byte_def k_def)
  have k128: "k < 128" using assms by (simp add: k_def)
  then have loop: "varint_loop k = [word_of_nat k]" by (subst varint_loop.simps) simp
  have v: "varint (word_of_nat k # r) = Inr ((word_of_nat k, 0), r)"
    using varint_loop_read [of 0 k 0 r] k128 loop by (simp add: varint_def)
  have u: "unat (word_of_nat k :: 32 word) = k"
    using k128 by (simp add: unat_of_nat)
  have low: "unat (word_of_nat k AND 7 :: 32 word) = k mod 8"
  proof -
    have "(word_of_nat k AND 7 :: 32 word) = take_bit 3 (word_of_nat k)"
      by (simp add: take_bit_eq_mask mask_eq_exp_minus_1)
    then show ?thesis
      using unsigned_take_bit_eq [of 3 "word_of_nat k :: 32 word", where 'a = nat] u
      by (simp add: take_bit_eq_mod [of 3 k])
  qed
  have "k div 8 = field" "k mod 8 = wire" using assms by (simp_all add: k_def)
  with u low assms show ?thesis
    by (simp add: next_field_def got_try_def kb v Let_def)
qed

lemma base256:
  assumes "v < 4294967296"
  shows "v mod 256 + v div 256 mod 256 * 256 + v div 65536 mod 256 * 65536
      + v div 16777216 mod 256 * 16777216 = (v :: nat)"
proof -
  define a b c where "a = v div 256" and "b = a div 256" and "c = b div 256"
  have "v div 65536 = b" "v div 16777216 = c"
    by (simp_all add: a_def b_def c_def div_mult2_eq [symmetric])
  moreover have "c < 256"
    using assms by (simp add: a_def b_def c_def div_mult2_eq [symmetric] less_mult_imp_div_less)
  moreover have "v = a * 256 + v mod 256" "a = b * 256 + a mod 256" "b = c * 256 + b mod 256"
    unfolding a_def b_def c_def by (simp_all only: div_mult_mod_eq)
  ultimately show ?thesis
    unfolding a_def [symmetric] by (simp only: mod_less)
qed

lemma le32_written:
  assumes "v < 4294967296"
  shows "le32 (word_of_nat (v mod 256) # word_of_nat (v div 256 mod 256)
     # word_of_nat (v div 65536 mod 256) # word_of_nat (v div 16777216 mod 256) # r) = word_of_nat v"
  unfolding le32_def list.case
  by (subst unat_byte_of_nat, simp)+ (simp only: base256 [OF assms])

lemma fixed32_bytes:
  "drop 1 (fixed32Field field n) @ r =
   word_of_nat (n mod 2 ^ 32 mod 256) # word_of_nat (n mod 2 ^ 32 div 256 mod 256)
     # word_of_nat (n mod 2 ^ 32 div 65536 mod 256)
     # word_of_nat (n mod 2 ^ 32 div 16777216 mod 256) # r"
  by (simp add: fixed32Field_def Let_def and_255 drop_bit_eq_div)

lemma fixed32Field_read:
  "fixed32Field field n @ r = key_byte field 5 # drop 1 (fixed32Field field n) @ r"
  "r_fixed32 5 (drop 1 (fixed32Field field n) @ r) = Inr (n mod 2 ^ 32, r)"
proof -
  obtain v where v: "v = n mod 2 ^ 32" by simp
  then have less: "v < 4294967296" by simp
  then have "unat (word_of_nat v :: 32 word) = v" by (simp add: unat_of_nat)
  then show "r_fixed32 5 (drop 1 (fixed32Field field n) @ r) = Inr (n mod 2 ^ 32, r)"
    unfolding fixed32_bytes v [symmetric] r_fixed32_def fixed32_or_def
    by (simp add: expect_def got_def le32_written [OF less] del: mod_mod_trivial)
qed (simp add: fixed32Field_def Let_def)

lemma r_bytes_lenField [simp]:
  "length bs < 2 ^ 32 \<Longrightarrow> r_bytes 2 (varintBytes (length bs) @ bs @ r) = Inr (bs, r)"
  by (simp add: r_bytes_def expect_def unat_of_nat)

lemma r_bytes_last [simp]:
  "length bs < 2 ^ 32 \<Longrightarrow> r_bytes 2 (varintBytes (length bs) @ bs) = Inr (bs, [])"
  using r_bytes_lenField [of bs "[]"] by simp

lemma r_uint32_varintBytes [simp]:
  "r_uint32 0 (varintBytes n @ r) = Inr (n mod 2 ^ 32, r)"
  by (simp add: r_uint32_def expect_def got_def unat_of_nat)

lemma skip_varintBytes [simp]: "skip_field 0 (varintBytes n @ r) = Inr ((), r)"
  by (simp add: skip_field_def got_def)

lemma varintBytes_length: "length (varintBytes n) \<le> 5"
  unfolding varintBytes_def by (rule varint_loop_length) (simp_all add: less_le_trans)

lemma varintBytes_short: "n < 128 \<Longrightarrow> length (varintBytes n) = 1"
  by (simp add: varintBytes_def varint_loop.simps)

lemma varintBytes_two: "n < 16384 \<Longrightarrow> length (varintBytes n) \<le> 2"
  unfolding varintBytes_def by (rule varint_loop_length) simp_all

lemmas field_writers = lenField_def varintField_def

lemma mesh_cut_shorter: "mesh_cut b = Cut f r \<Longrightarrow> length r < length b"
  by (induction b rule: mesh_cut.induct) (auto simp: Let_def split: if_splits list.splits)

lemma mesh_cut_extend: "mesh_cut b = Cut f r \<Longrightarrow> mesh_cut (b @ x) = Cut f (r @ x)"
  by (induction b rule: mesh_cut.induct) (auto simp: Let_def split: if_splits list.splits)

interpretation mesh: framer mesh_cut
proof
  show "mesh_cut b = Fault e \<Longrightarrow> mesh_cut (b @ x) = Fault e" for b e x
    by (induction b rule: mesh_cut.induct) (auto simp: Let_def split: if_splits list.splits)
qed (auto intro: mesh_cut_shorter mesh_cut_extend)

lemma mesh_no_fault: "mesh_cut b \<noteq> Fault e"
  by (induction b rule: mesh_cut.induct) (auto simp: Let_def split: if_splits list.splits)

lemma mesh_drain_total: "\<exists>ts r. drain mesh_cut b = (ts, None, r)"
proof (induction b rule: length_induct)
  case (1 b)
  show ?case
  proof (cases "mesh_cut b")
    case (Cut f r)
    with 1 mesh_cut_shorter [OF Cut] obtain ts r' where "drain mesh_cut r = (ts, None, r')" by blast
    with Cut show ?thesis by (simp add: mesh.drain_Cut)
  qed (simp_all add: mesh.drain_Wait mesh_no_fault)
qed

text \<open>What one connection delivers: the payloads of each chunk, in order.\<close>

fun frame_run :: "byte list list \<Rightarrow> frame_reader \<Rightarrow> byte list list \<times> frame_reader" where
  "frame_run [] s = ([], s)"
| "frame_run (c # cs) s =
     (case frame_push c s of (ps, s1) \<Rightarrow> (case frame_run cs s1 of (qs, s2) \<Rightarrow> (ps @ qs, s2)))"

lemma payloads_append [simp]: "payloads (a @ b) = payloads a @ payloads b"
  by (simp add: payloads_def)

lemma frame_push_join:
  assumes "frame_push a s = (ps, s1)" and "frame_push b s1 = (qs, s2)"
  shows "frame_push (a @ b) s = (ps @ qs, s2)"
proof -
  obtain ts r where d: "drain mesh_cut (fr_buf s @ a) = (ts, None, r)"
    using mesh_drain_total by blast
  obtain us r' where d': "drain mesh_cut (r @ b) = (us, None, r')"
    using mesh_drain_total by blast
  show ?thesis
    using assms d d' mesh.drain_append [OF d, of b] by (auto simp: frame_push_def)
qed

lemma frame_run_buffer:
  "mesh_cut (fr_buf s) = Wait \<Longrightarrow> frame_run cs s = frame_push (concat cs) s"
proof (induction cs arbitrary: s)
  case Nil
  then show ?case
    by (simp add: frame_push_def mesh.drain_Wait payloads_def)
next
  case (Cons c cs)
  obtain ps s1 where a: "frame_push c s = (ps, s1)" by (cases "frame_push c s")
  obtain qs s2 where b: "frame_push (concat cs) s1 = (qs, s2)" by (cases "frame_push (concat cs) s1")
  obtain ts r where d: "drain mesh_cut (fr_buf s @ c) = (ts, None, r)"
    using mesh_drain_total by blast
  with a have "mesh_cut (fr_buf s1) = Wait"
    using mesh.drain_rest [OF d] by (auto simp: frame_push_def)
  with Cons.IH b have "frame_run cs s1 = (qs, s2)" by simp
  with a frame_push_join [OF a b] show ?case by simp
qed

lemma frame_run_push: "frame_run cs new_frame_reader = frame_push (concat cs) new_frame_reader"
  by (rule frame_run_buffer) (simp add: new_frame_reader_def)

text \<open>A payload with bytes before it that are no frame start, as the node sends them.\<close>

definition sent :: "byte list \<times> byte list \<Rightarrow> byte list" where
  "sent np = fst np @ START1 # START2 # be16 (length (snd np)) @ snd np"

lemma cut_noise: "b \<noteq> START1 \<Longrightarrow> mesh_cut (b # r) = Cut SkippedByte r"
  by simp

lemma cut_frame:
  "length p \<le> 512 \<Longrightarrow>
   mesh_cut (START1 # START2 # be16 (length p) @ p @ r) = Cut (Payload p) r"
  by (simp add: be16_eq MAX_FRAME_PAYLOAD_def)

lemma drain_noise:
  "START1 \<notin> set n \<Longrightarrow>
   drain mesh_cut (n @ r) =
     (case drain mesh_cut r of (ts, e, r') \<Rightarrow> (replicate (length n) SkippedByte @ ts, e, r'))"
  by (induction n) (auto simp: mesh.drain_Cut [OF cut_noise] split: prod.splits)

lemma drain_sent:
  "(\<forall>np \<in> set nps. START1 \<notin> set (fst np) \<and> length (snd np) \<le> 512) \<Longrightarrow>
   \<exists>ts. drain mesh_cut (concat (map sent nps)) = (ts, None, []) \<and> payloads ts = map snd nps \<and>
     length (filter (\<lambda>t. t = SkippedByte) ts) = (\<Sum>np\<leftarrow>nps. length (fst np))"
proof (induction nps)
  case Nil
  then show ?case by (simp add: mesh.drain_Wait payloads_def)
next
  case (Cons np nps)
  then obtain ts where
    "drain mesh_cut (concat (map sent nps)) = (ts, None, [])" "payloads ts = map snd nps"
    "length (filter (\<lambda>t. t = SkippedByte) ts) = (\<Sum>np\<leftarrow>nps. length (fst np))"
    by auto
  moreover obtain n p where np: "np = (n, p)" by (cases np)
  moreover have "concat (map sent (np # nps)) =
      n @ START1 # START2 # be16 (length p) @ p @ concat (map sent nps)"
    by (simp add: sent_def np)
  moreover have "drain mesh_cut (START1 # START2 # be16 (length p) @ p @ concat (map sent nps)) =
      (Payload p # ts, None, [])"
    using Cons.prems calculation(1) np by (simp add: mesh.drain_Cut [OF cut_frame])
  ultimately show ?case
    using Cons.prems by (simp only: drain_noise) (simp add: drain_noise payloads_def)
qed



text \<open>The buffer: a partial frame is at most its header and a payload short of one byte.\<close>

lemma mesh_wait_short: "mesh_cut b = Wait \<Longrightarrow> length b < 4 + MAX_FRAME_PAYLOAD"
  by (cases b rule: mesh_cut.cases)
    (auto simp: Let_def MAX_FRAME_PAYLOAD_def split: if_splits list.splits)

text \<open>
  The frame reader keeps less than one whole frame between two chunks, whatever bytes
  arrive: 515 bytes at most, so a noisy or hostile peer cannot grow the buffer.
\<close>
theorem frame_buffer_bound:
  assumes "frame_push chunk s = (ps, s')"
  shows "length (fr_buf s') < 4 + MAX_FRAME_PAYLOAD \<and>
    (\<forall>p \<in> set ps. length p \<le> MAX_FRAME_PAYLOAD) \<and> fr_skipped s \<le> fr_skipped s'"
proof -
  obtain ts r where d: "drain mesh_cut (fr_buf s @ chunk) = (ts, None, r)"
    using mesh_drain_total by blast
  have cut: "length p \<le> MAX_FRAME_PAYLOAD" if "mesh_cut b = Cut (Payload p) q" for b p q
    using that by (cases b rule: mesh_cut.cases)
      (auto simp: Let_def split: if_splits list.splits)
  have "drain mesh_cut b = (ts, None, r) \<Longrightarrow> p \<in> set (payloads ts) \<Longrightarrow>
      length p \<le> MAX_FRAME_PAYLOAD" for b p ts
  proof (induction b arbitrary: ts rule: length_induct)
    case (1 b)
    show ?case
    proof (cases "mesh_cut b")
      case (Cut f q)
      with 1 mesh_cut_shorter [OF Cut] show ?thesis
        by (cases f) (auto simp: mesh.drain_Cut payloads_def dest: cut split: prod.splits)
    qed (use 1 in \<open>auto simp: mesh.drain_Wait mesh_no_fault payloads_def\<close>)
  qed
  with d assms mesh_wait_short [OF mesh.drain_rest [OF d]] show ?thesis
    by (auto simp: frame_push_def)
qed

theorem frame_buffer_bound_witness:
  "(case frame_push [0x94, 0xc3, 0] new_frame_reader of (ps, s') \<Rightarrow>
     length (fr_buf s') < 4 + MAX_FRAME_PAYLOAD)"
  using frame_buffer_bound [of "[0x94, 0xc3, 0]" new_frame_reader]
  by (auto split: prod.splits)

section \<open>Text stays out of what is kept\<close>

lemma readData_private:
  "readData bs = Inr d \<Longrightarrow> da_portnum d = PORT_TEXT_MESSAGE \<Longrightarrow>
   da_payload d = None \<and> da_requestId d = None"
  by (auto simp: readData_def split: sum.splits if_splits)

definition private_packet :: "mesh_packet \<Rightarrow> bool" where
  "private_packet p \<longleftrightarrow>
     (\<forall>d. pk_decoded p = Some d \<longrightarrow> da_portnum d \<noteq> PORT_TEXT_MESSAGE \<or>
        (da_payload d = None \<and> da_requestId d = None))"

lemma got_Inr: "got x k = Inr (v, r) \<longleftrightarrow> (\<exists>w. x = Inr (w, r) \<and> v = k w)"
  by (auto simp: got_def split: sum.splits)

lemma submessage_Inr:
  "submessage read wire bs = Inr (v, r) \<longleftrightarrow>
   (\<exists>body. r_bytes wire bs = Inr (body, r) \<and> read body = Inr v)"
  by (auto simp: submessage_def got_try_def split: sum.splits)

lemma packet_field_private:
  "private_packet p \<Longrightarrow> packet_field p field wire r = Inr (p', r') \<Longrightarrow> private_packet p'"
  by (auto simp: packet_field_def got_Inr submessage_Inr private_packet_def
      dest: readData_private split: if_splits)

lemma readMeshPacket_private: "readMeshPacket bs = Inr p \<Longrightarrow> private_packet p"
  unfolding readMeshPacket_def
  by (rule mpacket.read_invariant [where P = private_packet, OF packet_field_private])
    (auto simp: private_packet_def no_packet_def)

definition private_message :: "from_radio \<Rightarrow> bool" where
  "private_message m \<longleftrightarrow> (\<forall>p. m = Packet p \<longrightarrow> private_packet p)"

lemma config_field_private:
  "private_message m \<Longrightarrow> config_field m field wire r = Inr (m', r') \<Longrightarrow> private_message m'"
  by (auto simp: config_field_def got_Inr private_message_def split: if_splits)

lemma radio_field_private:
  assumes "private_message m" and "from_radio_field m field wire r = Inr (m', r')"
  shows "private_message m'"
proof (cases "field = 5")
  case True
  with assms(2) obtain body where rd: "read_fields config_field m body = Inr m'"
    by (auto simp: from_radio_field_def submessage_Inr)
  show ?thesis
    by (rule config.read_invariant [of private_message, OF _ assms(1) rd])
      (rule config_field_private)
next
  case False
  with assms show ?thesis
    by (auto simp: from_radio_field_def got_Inr submessage_Inr private_message_def
        dest: readMeshPacket_private split: if_splits)
qed

text \<open>
  C5: What people write stays unread. Whatever bytes a node sends, a message that decodes to a
  packet of the text port carries neither the payload nor a request id: only the port number is
  kept, in the order and nesting of fields the sender chose.
\<close>
theorem text_never_kept:
  assumes "readFromRadio buf = Inr (Packet p)" and "pk_decoded p = Some d"
    and "da_portnum d = PORT_TEXT_MESSAGE"
  shows "d = \<lparr>da_portnum = PORT_TEXT_MESSAGE, da_payload = None, da_requestId = None\<rparr>"
proof -
  have "private_message (Packet p)"
  proof (rule radio.read_invariant [of private_message])
    show "read_fields from_radio_field OtherMessage buf = Inr (Packet p)"
      using assms(1) by (simp add: readFromRadio_def)
  qed (auto simp: private_message_def [of OtherMessage] intro: radio_field_private)
  with assms(2, 3) show ?thesis
    by (cases d) (auto simp: private_message_def private_packet_def)
qed

text \<open>One field of each kind that a writer wrote, read by a message's switch.\<close>

context message_reader
begin

lemma read_key:
  "0 < field \<Longrightarrow> field < 16 \<Longrightarrow> wire < 8 \<Longrightarrow>
   read_fields step m (key_byte field wire # r) =
     (case step m field wire r of Inl e \<Rightarrow> Inl e | Inr (m', r') \<Rightarrow> read_fields step m' r')"
  by (rule read_field) (rule next_field_key)

lemma read_varintField:
  "0 < field \<Longrightarrow> field < 16 \<Longrightarrow>
   read_fields step m (varintField field n @ r) =
     (case step m field 0 (varintBytes n @ r) of
        Inl e \<Rightarrow> Inl e | Inr (m', r') \<Rightarrow> read_fields step m' r')"
  by (simp add: varintField_def read_key)

lemma read_lenField:
  "0 < field \<Longrightarrow> field < 16 \<Longrightarrow>
   read_fields step m (lenField field bs @ r) =
     (case step m field 2 (varintBytes (length bs) @ bs @ r) of
        Inl e \<Rightarrow> Inl e | Inr (m', r') \<Rightarrow> read_fields step m' r')"
  by (simp add: lenField_def read_key)

lemma read_fixed32Field:
  "0 < field \<Longrightarrow> field < 16 \<Longrightarrow>
   read_fields step m (fixed32Field field n @ r) =
     (case step m field 5 (drop 1 (fixed32Field field n) @ r) of
        Inl e \<Rightarrow> Inl e | Inr (m', r') \<Rightarrow> read_fields step m' r')"
  by (subst fixed32Field_read(1)) (rule read_key, simp_all)

end

lemma submessage_lenField [simp]:
  "length bs < 2 ^ 32 \<Longrightarrow>
   submessage read 2 (varintBytes (length bs) @ bs @ r) =
     (case read bs of Inl e \<Rightarrow> Inl e | Inr v \<Rightarrow> Inr (v, r))"
  by (simp add: submessage_def got_try_def)

lemma submessage_last [simp]:
  "length bs < 2 ^ 32 \<Longrightarrow>
   submessage read 2 (varintBytes (length bs) @ bs) =
     (case read bs of Inl e \<Rightarrow> Inl e | Inr v \<Rightarrow> Inr (v, []))"
  using submessage_lenField [of bs read "[]"] by simp

lemma length_varintField: "length (varintField f n) \<le> 6"
  using varintBytes_length [of n] by (simp add: varintField_def)

lemma length_fixed32Field [simp]: "length (fixed32Field f n) = 5"
  by (simp add: fixed32Field_def Let_def)

lemma length_lenField: "length bs < 16384 \<Longrightarrow> length (lenField f bs) \<le> 3 + length bs"
  using varintBytes_two [of "length bs"] by (simp add: lenField_def)

lemma text_data_fields:
  "length text < 2 ^ 32 \<Longrightarrow>
   read_fields data_field \<lparr>da_portnum = 0, da_payload = None, da_requestId = None\<rparr> (text_data text)
     = Inr \<lparr>da_portnum = 1, da_payload = Some text, da_requestId = None\<rparr>"
  using mdata.read_lenField [of 2 _ "text" "[]"]
  by (simp add: text_data_def mdata.read_varintField data_field_def got_def PORT_TEXT_MESSAGE_def)

lemma text_data_read:
  "length text < 2 ^ 32 \<Longrightarrow>
   readData (text_data text) = Inr \<lparr>da_portnum = 1, da_payload = None, da_requestId = None\<rparr>"
  by (simp add: readData_def text_data_fields PORT_TEXT_MESSAGE_def)

text \<open>A packet of the text port with its text; what is kept of it.\<close>

theorem text_never_kept_witness:
  "readFromRadio (lenField 2 (lenField 4 (text_data [65]))) =
     Inr (Packet (no_packet\<lparr>pk_decoded :=
       Some \<lparr>da_portnum = PORT_TEXT_MESSAGE, da_payload = None, da_requestId = None\<rparr>\<rparr>))"
  (is "?read = Inr (Packet (_\<lparr>pk_decoded := Some ?d\<rparr>))")
proof -
  have "length (text_data [65]) \<le> 20"
    using length_varintField [of 1 1] length_lenField [of "[65]" 2]
    by (simp add: text_data_def PORT_TEXT_MESSAGE_def)
  then have short: "length (text_data [65]) < 2 ^ 32" "length (lenField 4 (text_data [65])) < 2 ^ 32"
    using length_lenField [of "text_data [65]" 4] by simp_all
  obtain d where d: "d = \<lparr>da_portnum = 1, da_payload = None, da_requestId = None\<rparr>" by simp
  have "readMeshPacket (lenField 4 (text_data [65])) = Inr (no_packet\<lparr>pk_decoded := Some d\<rparr>)"
    using mpacket.read_lenField [of 4 no_packet "text_data [65]" "[]"] short
    by (simp add: readMeshPacket_def packet_field_def text_data_read got_def d)
  then have "?read = Inr (Packet (no_packet\<lparr>pk_decoded := Some d\<rparr>))"
    using radio.read_lenField [of 2 OtherMessage "lenField 4 (text_data [65])" "[]"] short
    by (simp add: readFromRadio_def from_radio_field_def got_def)
  moreover from text_never_kept [OF this, of d] have "d = ?d"
    by (simp add: d PORT_TEXT_MESSAGE_def)
  ultimately show ?thesis by simp
qed

section \<open>The test message\<close>

definition sent_hops :: "text_packet \<Rightarrow> nat" where
  "sent_hops p = nat (min 7 (max 0 (tp_hopLimit p)))"

lemma text_data_length: "length t \<le> 200 \<Longrightarrow> length (text_data t) \<le> 209"
  using length_varintField [of 1 1] length_lenField [of t 2]
  by (simp add: text_data_def PORT_TEXT_MESSAGE_def)

lemma text_packet_length: "length t \<le> 200 \<Longrightarrow> length (text_packet_bytes p t) \<le> 240"
  using text_data_length [of t] length_lenField [of "text_data t" 4]
    length_varintField [of 3 "tp_channel p"] length_varintField [of 9 "sent_hops p"]
    length_varintField [of 10 1]
  by (simp add: text_packet_bytes_def sent_hops_def)

lemma skip_channel [simp]:
  "packet_field p 3 0 (varintBytes n @ r) = Inr (p, r)"
  "packet_field p 10 0 (varintBytes n @ r) = Inr (p, r)"
  by (simp_all add: packet_field_def got_def)

lemma text_packet_read:
  assumes "length t \<le> 200"
  shows "readMeshPacket (text_packet_bytes p t) =
    Inr (no_packet\<lparr>pk_to := tp_to p mod 2 ^ 32,
      pk_decoded := Some \<lparr>da_portnum = 1, da_payload = None, da_requestId = None\<rparr>,
      pk_id := Some (tp_id p mod 2 ^ 32), pk_hopLimit := Some (sent_hops p)\<rparr>)"
proof -
  have short: "length (text_data t) < 2 ^ 32" "length t < 2 ^ 32"
    using text_data_length [OF assms] assms by simp_all
  have hops: "sent_hops p mod 2 ^ 32 = sent_hops p" by (simp add: sent_hops_def)
  have last: "read_fields packet_field q (varintField 10 1) = Inr q" for q
    using mpacket.read_varintField [of 10 q 1 "[]"] skip_channel(2) [of q 1 "[]"] by simp
  define c where "c = (if tp_channel p \<noteq> 0 then varintField 3 (tp_channel p) else [])"
  have channel: "read_fields packet_field q (c @ r) = read_fields packet_field q r" for q r
    by (simp add: mpacket.read_varintField c_def)
  show ?thesis
    using short hops unfolding readMeshPacket_def text_packet_bytes_def c_def [symmetric]
      sent_hops_def [symmetric]
    by (simp add: mpacket.read_fixed32Field mpacket.read_lenField mpacket.read_varintField
        last [unfolded One_nat_def] channel fixed32Field_read(2) [unfolded One_nat_def] packet_field_def got_def text_data_read)
qed

text \<open>
  C14: A test message goes to one node, once, as asked. When \<open>textPacketFrame\<close> accepts a packet,
  the bytes are one frame whose payload is a \<open>ToRadio\<close> with one packet; read by the provider's
  own reader it names the destination, the packet id and the hop limit (forced into 0 to 7) that
  were asked for; its data field carries the text of the message, of 1 to 200 bytes; and the
  destination is neither 0 nor the broadcast address.
\<close>
theorem text_packet_readback:
  assumes "textPacketFrame p = Inr bytes" and "tp_to p < 2 ^ 32" and "tp_id p < 2 ^ 32"
  shows "\<exists>rest packet. frame_push bytes new_frame_reader = ([key_byte 1 2 # rest], new_frame_reader) \<and>
    r_bytes 2 rest = Inr (packet, []) \<and>
    readMeshPacket packet = Inr (no_packet\<lparr>pk_to := tp_to p,
      pk_decoded := Some \<lparr>da_portnum = 1, da_payload = None, da_requestId = None\<rparr>,
      pk_id := Some (tp_id p), pk_hopLimit := Some (nat (min 7 (max 0 (tp_hopLimit p))))\<rparr>) \<and>
    (\<exists>before after body. packet = before @ lenField 4 body @ after \<and>
      read_fields data_field \<lparr>da_portnum = 0, da_payload = None, da_requestId = None\<rparr> body =
        Inr \<lparr>da_portnum = 1, da_payload = Some (utf8_encode (tp_text p)), da_requestId = None\<rparr>) \<and>
    tp_to p \<noteq> 0 \<and> tp_to p \<noteq> 0xffffffff \<and>
    0 < length (utf8_encode (tp_text p)) \<and> length (utf8_encode (tp_text p)) \<le> 200"
proof -
  define t where "t = utf8_encode (tp_text p)"
  define packet where "packet = text_packet_bytes p t"
  have t: "t \<noteq> []" "length t \<le> 200" and to: "tp_to p \<noteq> 0" "tp_to p \<noteq> 0xffffffff"
    and fr: "mesh_frame (lenField 1 packet) = Inr bytes"
    using assms(1)
    by (auto simp: textPacketFrame_def Let_def t_def packet_def MAX_TEXT_BYTES_def split: if_splits)
  have short: "length packet \<le> 240" using text_packet_length [OF t(2)] by (simp add: packet_def)
  define body where "body = lenField 1 packet"
  have "length body \<le> 512" using length_lenField [of packet 1] short by (simp add: body_def)
  moreover from this have "bytes = sent ([], body)"
    using fr unfolding body_def [symmetric] by (simp add: mesh_frame_def MAX_FRAME_PAYLOAD_def sent_def)
  ultimately have "frame_run [bytes] new_frame_reader = ([body], new_frame_reader)"
    using drain_sent [of "[([], body)]"] unfolding frame_run_push frame_push_def
    by (auto simp: new_frame_reader_def)
  then have "frame_push bytes new_frame_reader =
      ([key_byte 1 2 # varintBytes (length packet) @ packet], new_frame_reader)"
    by (simp add: body_def lenField_def split: prod.splits)
  moreover have "r_bytes 2 (varintBytes (length packet) @ packet) = Inr (packet, [])"
    using short by simp
  moreover have "readMeshPacket packet = Inr (no_packet\<lparr>pk_to := tp_to p,
      pk_decoded := Some \<lparr>da_portnum = 1, da_payload = None, da_requestId = None\<rparr>,
      pk_id := Some (tp_id p), pk_hopLimit := Some (sent_hops p)\<rparr>)"
    using text_packet_read [OF t(2), of p] assms(2, 3) by (simp add: packet_def)
  moreover have "packet = (fixed32Field 2 (tp_to p)
      @ (if tp_channel p \<noteq> 0 then varintField 3 (tp_channel p) else []))
      @ lenField 4 (text_data t) @ (fixed32Field 6 (tp_id p) @ varintField 9 (sent_hops p)
      @ varintField 10 1)"
    by (simp add: packet_def text_packet_bytes_def sent_hops_def)
  moreover have "read_fields data_field \<lparr>da_portnum = 0, da_payload = None, da_requestId = None\<rparr>
      (text_data t) = Inr \<lparr>da_portnum = 1, da_payload = Some t, da_requestId = None\<rparr>"
    using t(2) by (simp add: text_data_fields)
  moreover have "0 < length (utf8_encode (tp_text p))" "length (utf8_encode (tp_text p)) \<le> 200"
    using t by (simp_all add: t_def)
  ultimately show ?thesis
    using to unfolding sent_hops_def t_def by blast
qed

theorem text_packet_readback_witness:
  "\<exists>bytes rest. textPacketFrame \<lparr>tp_to = 7, tp_id = 9, tp_text = [65], tp_channel = 0, tp_hopLimit = 12\<rparr>
     = Inr bytes \<and> frame_push bytes new_frame_reader = ([key_byte 1 2 # rest], new_frame_reader)"
proof -
  let ?p = "\<lparr>tp_to = 7, tp_id = 9, tp_text = [65], tp_channel = 0, tp_hopLimit = 12\<rparr>"
  have u: "utf8_encode [65] = [65]" by (simp add: utf8_encode_def enc_scalar_def)
  have "length (lenField 1 (text_packet_bytes ?p [65])) \<le> 512"
    using text_packet_length [of "[65]" ?p] length_lenField [of "text_packet_bytes ?p [65]" 1] by simp
  then obtain bytes where b: "textPacketFrame ?p = Inr bytes"
    by (simp add: textPacketFrame_def Let_def u MAX_TEXT_BYTES_def mesh_frame_def MAX_FRAME_PAYLOAD_def)
  have "tp_to ?p < 2 ^ 32" "tp_id ?p < 2 ^ 32" by simp_all
  from text_packet_readback [OF b this] obtain rest where
    "frame_push bytes new_frame_reader = ([key_byte 1 2 # rest], new_frame_reader)"
    by (elim exE conjE) rule
  with b show ?thesis by (intro exI conjI)
qed

section \<open>Node ids\<close>

lemma hex_digit_value: "d < 16 \<Longrightarrow> hex_value (hex_digit d) = Some d"
  by (auto simp: hex_digit_def hex_value_def is_digit_def)

lemma hex_digits_length [simp]: "length (hex_digits k n) = k"
  by (induction k arbitrary: n) auto

lemma hex_digits_hex: "list_all is_hex (hex_digits k n)"
  by (induction k arbitrary: n) (auto simp: hex_digit_value)

lemma hex_nat_snoc: "hex_nat (ds @ [d]) = hex_nat ds * 16 + (case hex_value d of Some v \<Rightarrow> v | None \<Rightarrow> 0)"
  by (simp add: hex_nat_def)

lemma hex_nat_digits: "hex_nat (hex_digits k n) = n mod 16 ^ k"
proof (induction k arbitrary: n)
  case 0
  then show ?case by (simp add: hex_nat_def)
next
  case (Suc k)
  have "n mod 16 ^ Suc k = n div 16 mod 16 ^ k * 16 + n mod 16"
    by (simp add: mod_mult2_eq mult.commute)
  with Suc show ?case by (simp add: hex_nat_snoc hex_digit_value)
qed

lemma hex_nat_less: "hex_nat ds < 16 ^ length ds"
proof (induction ds rule: rev_induct)
  case (snoc d ds)
  have "(case hex_value d of Some v \<Rightarrow> v | None \<Rightarrow> 0) < 16"
    by (auto simp: hex_value_def is_digit_def)
  with snoc show ?case by (simp add: hex_nat_snoc)
qed (simp add: hex_nat_def)

lemma hex_char_bounds: "is_hex c \<Longrightarrow> \<not> is_space c"
  by (auto simp: hex_value_def is_digit_def is_space_def split: if_splits)

text \<open>
  A node number written as its id (\<open>!\<close> and eight hexadecimal digits) reads back as the
  number's low 32 bits, and every id that is accepted stands for a 32-bit number whose written
  form reads back as the same number, so an id names one node.
\<close>
theorem node_id_roundtrip:
  "nodeNum (nodeId n) = Some (n mod 2 ^ 32) \<and>
   (nodeNum s = Some k \<longrightarrow> k < 2 ^ 32 \<and> nodeNum (nodeId k) = Some k)"
proof -
  have id: "nodeNum (nodeId n) = Some (n mod 2 ^ 32)" for n
  proof -
    have "\<not> is_space (last (nodeId n))"
    proof -
      define ds where "ds = hex_digits 8 (n mod 2 ^ 32)"
      have "list_all is_hex ds" "length ds = 8"
        unfolding ds_def by (rule hex_digits_hex, rule hex_digits_length)
      moreover from this have "ds \<noteq> []" by auto
      moreover from this have "last ds \<in> set ds" by simp
      ultimately have "is_hex (last ds)" unfolding list_all_iff by blast
      with \<open>ds \<noteq> []\<close> show ?thesis
        unfolding nodeId_def ds_def [symmetric] by (simp add: hex_char_bounds)
    qed
    moreover have "\<not> is_space (jc CHR ''!'')" by (simp add: is_space_def)
    ultimately have "trim (nodeId n) = nodeId n"
      by (intro trim_id) (simp add: nodeId_def)
    then show ?thesis
      using hex_digits_hex [of 8 "n mod 2 ^ 32"]
      by (simp add: nodeNum_def nodeId_def hex_nat_digits del: hex_digits.simps)
  qed
  moreover have "k < 2 ^ 32" if "nodeNum s = Some k"
  proof -
    from that obtain ds where "k = hex_nat ds" "length ds = 8"
      by (auto simp: nodeNum_def split: list.splits if_splits)
    with hex_nat_less [of ds] show ?thesis by simp
  qed
  ultimately show ?thesis by simp
qed

theorem node_id_roundtrip_witness:
  "nodeNum (nodeId 3735928559) = Some (3735928559 mod 2 ^ 32) \<and> 3735928559 < (2 ^ 32 :: nat)"
  using node_id_roundtrip [of 3735928559 "nodeId 3735928559" 3735928559] by simp

section \<open>Fields of a newer firmware\<close>

context message_reader
begin

lemma read_whole_unknown:
  assumes "read_fields step m a = Inr m'" and "whole_field field u" and "field \<notin> known"
  shows "read_fields step m (a @ u @ b) = read_fields step m (a @ b)"
  using assms(2)
proof (rule whole_fieldE)
  fix wire r
  assume "next_field u = Inr (Some (field, wire), r)" and "skip_field wire r = Inr ((), [])"
  from read_unknown [OF this(1) assms(3) this(2)] show ?thesis
    by (simp add: read_append [OF assms(1)])
qed

end


lemma whole_varintField:
  "0 < field \<Longrightarrow> field < 16 \<Longrightarrow> whole_field field (varintField field n)"
  using next_field_key [of field 0 "varintBytes n"] skip_varintBytes [of n "[]"]
  by (simp add: whole_field_def varintField_def)


end
