(* ===== verification/Source_Health.thy ===== *)
theory Source_Health
  imports Prelude
begin

text \<open>
  The registry of every source's health and the application's connection state,
  \<open>packages/source-health/src/index.ts\<close>, over the health reports of
  \<open>packages/provider-sdk/src/health.ts\<close>.

  An operation takes the clock's time and gives the registry afterwards with the events it
  raised, in the order it raised them. Times are milliseconds; the ISO text of a time is the
  time. What the registry only carries along (the telemetry descriptor) is a type parameter.
\<close>

section \<open>Health reports\<close>

datatype provider_status =
    DISABLED | STARTING | LIVE | DEGRADED | STALE | RATE_LIMITED | AUTH_REQUIRED | NEEDS_SETUP
  | OFFLINE | ERROR

datatype credential_state = NotRequired | Missing | Present | Invalid

record rate_limit_state =
  rl_limited :: bool
  rl_resetAt :: "int option"
  rl_remaining :: "nat option"

datatype error_code =
    E_NETWORK | E_TIMEOUT | E_DNS | E_HTTP_4XX | E_HTTP_5XX | E_RATE_LIMITED | E_AUTH | E_MALFORMED
  | E_TOO_LARGE | E_CANCELLED | E_UNSUPPORTED | E_OFFLINE | E_HOST_NOT_ALLOWED | E_INTERNAL

record error_info =
  ei_code :: error_code
  ei_message :: jstring
  ei_httpStatus :: "nat option"
  ei_retryAfterMs :: "int option"
  ei_setupRequired :: bool
  ei_at :: int

datatype own_position_state = Fix | StaleFix | UnknownAge | NoFix | ManualFix | NotGnss

record own_position =
  op_state :: own_position_state
  op_fixAt :: "int option"
  op_satellites :: "nat option"
  op_fixType :: "jstring option"
  op_accuracyM :: "rat option"
  op_node :: "jstring option"

record health =
  he_providerId :: jstring
  he_status :: provider_status
  he_lastAttempt :: "int option"
  he_lastSuccess :: "int option"
  he_lastObservation :: "int option"
  he_latencyMs :: "int option"
  he_errorRate :: rat
  he_cacheAgeMs :: "int option"
  he_rateLimitState :: rate_limit_state
  he_credentialState :: credential_state
  he_message :: "jstring option"
  he_lastError :: "error_info option"
  he_objectCount :: "nat option"
  he_ownPosition :: "own_position option"

definition defaultRetryable :: "error_code \<Rightarrow> bool" where
  "defaultRetryable c \<longleftrightarrow>
     c \<in> {E_NETWORK, E_TIMEOUT, E_DNS, E_HTTP_5XX, E_RATE_LIMITED, E_OFFLINE}"

section \<open>The registry\<close>

datatype transport = Http | Websocket | Filesystem | LocalProcess | Hardware
datatype locality = Remote | Local | Bundled
datatype connection_state = CONNECTED | CONN_DEGRADED | CONN_OFFLINE

text \<open>What the registry reads of a manifest.\<close>

record 't manifest =
  mf_id :: jstring
  mf_name :: jstring
  mf_categories :: "jstring list"
  mf_transport :: transport
  mf_credentials :: "(jstring \<times> bool) list"
  mf_attribution :: jstring
  mf_termsUrl :: "jstring option"
  mf_intervalMs :: int
  mf_cacheAllowed :: bool
  mf_commercialReview :: jstring
  mf_telemetry :: "'t option"

record 't entry_meta =
  em_attribution :: jstring
  em_termsUrl :: "jstring option"
  em_refreshIntervalMs :: int
  em_cacheAllowed :: bool
  em_credentialsRequired :: "jstring list"
  em_commercialReview :: jstring
  em_connector :: "jstring option"
  em_definitionFile :: "jstring option"
  em_telemetry :: "'t option"

record transition =
  tr_from :: provider_status
  tr_to :: provider_status
  tr_at :: int

record 't entry =
  en_providerId :: jstring
  en_name :: jstring
  en_categories :: "jstring list"
  en_locality :: locality
  en_enabled :: bool
  en_health :: health
  en_transitions :: "transition list"
  en_meta :: "'t entry_meta"

record snapshot =
  sn_state :: connection_state
  sn_networkOnline :: bool
  sn_remoteLive :: nat
  sn_remoteTotal :: nat
  sn_localLive :: nat
  sn_at :: int

record 't registry =
  rg_entries :: "(jstring \<times> 't entry) list"
  rg_networkOnline :: bool
  rg_lastConnection :: "connection_state option"

datatype 't event =
    Change jstring provider_status provider_status "'t entry"
  | Connection snapshot
  | Update jstring "'t entry"

definition new_registry :: "'t registry" where
  "new_registry = \<lparr>rg_entries = [], rg_networkOnline = True, rg_lastConnection = None\<rparr>"

definition LIVE_LIKE :: "provider_status \<Rightarrow> bool" where
  "LIVE_LIKE s \<longleftrightarrow> s \<in> {LIVE, DEGRADED, STALE, RATE_LIMITED}"

text \<open>One turn of the counting loop of \<open>connection\<close>: the three counters.\<close>

definition count_entry :: "'t entry \<Rightarrow> nat \<times> nat \<times> nat \<Rightarrow> nat \<times> nat \<times> nat" where
  "count_entry e c = (case c of (remoteLive, remoteTotal, localLive) \<Rightarrow>
     if \<not> en_enabled e then c
     else if he_status (en_health e) = AUTH_REQUIRED \<and> he_credentialState (en_health e) = Missing
     then c
     else if he_status (en_health e) = NEEDS_SETUP then c
     else if en_locality e = Remote
     then ((if LIVE_LIKE (he_status (en_health e)) then Suc remoteLive else remoteLive),
           Suc remoteTotal, localLive)
     else if LIVE_LIKE (he_status (en_health e)) then (remoteLive, remoteTotal, Suc localLive)
     else c)"

definition connection :: "int \<Rightarrow> 't registry \<Rightarrow> snapshot" where
  "connection now g =
     (case foldl (\<lambda>c ke. count_entry (snd ke) c) (0, 0, 0) (rg_entries g) of
        (remoteLive, remoteTotal, localLive) \<Rightarrow>
          \<lparr>sn_state =
             (if \<not> rg_networkOnline g then CONN_OFFLINE
              else if remoteTotal = 0 then CONNECTED
              else if remoteLive = 0 then CONN_OFFLINE
              else if remoteLive < remoteTotal then CONN_DEGRADED
              else CONNECTED),
           sn_networkOnline = rg_networkOnline g, sn_remoteLive = remoteLive,
           sn_remoteTotal = remoteTotal, sn_localLive = localLive, sn_at = now\<rparr>)"

definition recomputeConnection ::
    "int \<Rightarrow> bool \<Rightarrow> 't registry \<Rightarrow> 't registry \<times> 't event list" where
  "recomputeConnection now force g =
     (let snap = connection now g
      in if force \<or> Some (sn_state snap) \<noteq> rg_lastConnection g
         then (g\<lparr>rg_lastConnection := Some (sn_state snap)\<rparr>, [Connection snap])
         else (g, []))"

record register_opts =
  ro_enabled :: bool
  ro_locality :: "locality option"
  ro_connector :: "jstring option"
  ro_definitionFile :: "jstring option"

definition manifest_locality :: "'t manifest \<Rightarrow> locality" where
  "manifest_locality m =
     (if mf_transport m = LocalProcess \<or> mf_transport m = Hardware then Local
      else if mf_transport m = Filesystem then Bundled else Remote)"

definition non_empty :: "jstring option \<Rightarrow> jstring option" where
  "non_empty v = (if v = Some [] then None else v)"

definition new_entry :: "'t manifest \<Rightarrow> register_opts \<Rightarrow> 't entry" where
  "new_entry m opts =
     \<lparr>en_providerId = mf_id m, en_name = mf_name m, en_categories = mf_categories m,
      en_locality = (case ro_locality opts of Some l \<Rightarrow> l | None \<Rightarrow> manifest_locality m),
      en_enabled = ro_enabled opts,
      en_health =
        \<lparr>he_providerId = mf_id m,
         he_status = (if ro_enabled opts then STARTING else DISABLED),
         he_lastAttempt = None, he_lastSuccess = None, he_lastObservation = None,
         he_latencyMs = None, he_errorRate = 0, he_cacheAgeMs = None,
         he_rateLimitState = \<lparr>rl_limited = False, rl_resetAt = None, rl_remaining = None\<rparr>,
         he_credentialState =
           (if \<exists>c \<in> set (mf_credentials m). snd c then Missing else NotRequired),
         he_message = None, he_lastError = None, he_objectCount = None, he_ownPosition = None\<rparr>,
      en_transitions = [],
      en_meta =
        \<lparr>em_attribution = mf_attribution m, em_termsUrl = non_empty (mf_termsUrl m),
         em_refreshIntervalMs = mf_intervalMs m, em_cacheAllowed = mf_cacheAllowed m,
         em_credentialsRequired = map fst (filter snd (mf_credentials m)),
         em_commercialReview = mf_commercialReview m,
         em_connector = non_empty (ro_connector opts),
         em_definitionFile = non_empty (ro_definitionFile opts),
         em_telemetry = mf_telemetry m\<rparr>\<rparr>"

definition register ::
    "int \<Rightarrow> 't manifest \<Rightarrow> register_opts \<Rightarrow> 't registry \<Rightarrow> 't registry \<times> 't event list" where
  "register now m opts g =
     recomputeConnection now False
       (g\<lparr>rg_entries := AList.update (mf_id m) (new_entry m opts) (rg_entries g)\<rparr>)"

definition unregister :: "int \<Rightarrow> jstring \<Rightarrow> 't registry \<Rightarrow> 't registry \<times> 't event list" where
  "unregister now i g =
     recomputeConnection now False (g\<lparr>rg_entries := AList.delete i (rg_entries g)\<rparr>)"

definition put_entry :: "jstring \<Rightarrow> 't entry \<Rightarrow> 't registry \<Rightarrow> 't registry" where
  "put_entry i e g = g\<lparr>rg_entries := AList.update i e (rg_entries g)\<rparr>"

definition add_transition ::
    "nat \<Rightarrow> int \<Rightarrow> provider_status \<Rightarrow> health \<Rightarrow> 't entry \<Rightarrow> 't entry" where
  "add_transition maxTransitions now from h e =
     e\<lparr>en_health := h,
       en_transitions :=
         take maxTransitions (\<lparr>tr_from = from, tr_to = he_status h, tr_at = now\<rparr> # en_transitions e)\<rparr>"

definition update_health ::
    "nat \<Rightarrow> int \<Rightarrow> health \<Rightarrow> 't registry \<Rightarrow> 't registry \<times> 't event list" where
  "update_health maxTransitions now h g =
     (case map_of (rg_entries g) (he_providerId h) of
        None \<Rightarrow> (g, [])
      | Some e \<Rightarrow>
          let i = he_providerId h; from = he_status (en_health e)
          in if from \<noteq> he_status h
             then
               (let e' = add_transition maxTransitions now from h e
                in case recomputeConnection now False (put_entry i e' g) of
                     (g', evs) \<Rightarrow>
                       (g', Change (en_providerId e) from (he_status h) e' # evs
                            @ [Update (en_providerId e) e']))
             else
               (let e' = e\<lparr>en_health := h\<rparr>
                in (put_entry i e' g, [Update (en_providerId e) e'])))"

definition setEnabled ::
    "nat \<Rightarrow> int \<Rightarrow> jstring \<Rightarrow> bool \<Rightarrow> 't registry \<Rightarrow> 't registry \<times> 't event list" where
  "setEnabled maxTransitions now i enabled g =
     (case map_of (rg_entries g) i of
        None \<Rightarrow> (g, [])
      | Some e \<Rightarrow>
          let g1 = put_entry i (e\<lparr>en_enabled := enabled\<rparr>) g
          in if \<not> enabled
             then update_health maxTransitions now ((en_health e)\<lparr>he_status := DISABLED\<rparr>) g1
             else if he_status (en_health e) = DISABLED
             then update_health maxTransitions now ((en_health e)\<lparr>he_status := STARTING\<rparr>) g1
             else (g1, []))"

definition setNetworkOnline :: "int \<Rightarrow> bool \<Rightarrow> 't registry \<Rightarrow> 't registry \<times> 't event list" where
  "setNetworkOnline now online g =
     (if rg_networkOnline g = online then (g, [])
      else recomputeConnection now True (g\<lparr>rg_networkOnline := online\<rparr>))"

datatype 't call =
    Register "'t manifest" register_opts
  | Unregister jstring
  | Report health
  | SetEnabled jstring bool
  | SetNetworkOnline bool

fun call_step :: "nat \<Rightarrow> 't call \<times> int \<Rightarrow> 't registry \<Rightarrow> 't registry \<times> 't event list" where
  "call_step mx (Register m opts, now) g = register now m opts g"
| "call_step mx (Unregister i, now) g = unregister now i g"
| "call_step mx (Report h, now) g = update_health mx now h g"
| "call_step mx (SetEnabled i b, now) g = setEnabled mx now i b g"
| "call_step mx (SetNetworkOnline b, now) g = setNetworkOnline now b g"

text \<open>A run of calls: the registry at the end and every event raised, in order.\<close>

fun run_calls ::
    "nat \<Rightarrow> ('t call \<times> int) list \<Rightarrow> 't registry \<Rightarrow> 't registry \<times> 't event list" where
  "run_calls mx [] g = (g, [])"
| "run_calls mx (c # cs) g =
     (case call_step mx c g of (g1, evs) \<Rightarrow>
        (case run_calls mx cs g1 of (g2, evs') \<Rightarrow> (g2, evs @ evs')))"

section \<open>The connection state\<close>

text \<open>The sources that count: enabled, and not waiting for a key or for the operator's setting.\<close>

definition counted :: "'t entry \<Rightarrow> bool" where
  "counted e \<longleftrightarrow> en_enabled e \<and> he_status (en_health e) \<noteq> NEEDS_SETUP \<and>
     \<not> (he_status (en_health e) = AUTH_REQUIRED \<and> he_credentialState (en_health e) = Missing)"

definition counted_remote :: "'t entry \<Rightarrow> bool" where
  "counted_remote e \<longleftrightarrow> counted e \<and> en_locality e = Remote"

definition live :: "'t entry \<Rightarrow> bool" where
  "live e \<longleftrightarrow> LIVE_LIKE (he_status (en_health e))"

abbreviation entries_of :: "'t registry \<Rightarrow> 't entry list" where
  "entries_of g \<equiv> map snd (rg_entries g)"

lemma count_entry_eq:
  "count_entry e (a, b, c) =
     (a + (if counted_remote e \<and> live e then 1 else 0), b + (if counted_remote e then 1 else 0),
      c + (if counted e \<and> en_locality e \<noteq> Remote \<and> live e then 1 else 0))"
  by (auto simp: count_entry_def counted_remote_def counted_def live_def)

lemma counts:
  "foldl (\<lambda>c ke. count_entry (snd ke) c) (a, b, c) es =
     (a + length (filter (\<lambda>e. counted_remote e \<and> live e) (map snd es)),
      b + length (filter counted_remote (map snd es)),
      c + length (filter (\<lambda>e. counted e \<and> en_locality e \<noteq> Remote \<and> live e) (map snd es)))"
  by (induction es arbitrary: a b c) (simp_all add: count_entry_eq)

lemma filter_both_le: "length (filter (\<lambda>e. P e \<and> Q e) xs) \<le> length (filter P xs)"
  by (induction xs) auto

lemma filter_both_less:
  "length (filter (\<lambda>e. P e \<and> Q e) xs) < length (filter P xs) \<longleftrightarrow> (\<exists>e \<in> set xs. P e \<and> \<not> Q e)"
  by (induction xs) (auto simp: less_Suc_eq_le filter_both_le)

text \<open>
  C26: What the connection badge says. The state is OFFLINE exactly when the network layer is
  down, or some remote source counts and none of those that count is live; CONNECTED exactly
  when the network is up and every remote source that counts is live; DEGRADED exactly when the
  network is up, some of them are live and some are not. A source that waits for a key or for a
  setting never counts, nor does a local one.
\<close>
theorem connection_meaning:
  "(sn_state (connection now g) = CONN_OFFLINE \<longleftrightarrow> \<not> rg_networkOnline g \<or>
      ((\<exists>e \<in> set (entries_of g). counted_remote e) \<and>
       (\<forall>e \<in> set (entries_of g). counted_remote e \<longrightarrow> \<not> live e))) \<and>
   (sn_state (connection now g) = CONNECTED \<longleftrightarrow> rg_networkOnline g \<and>
      (\<forall>e \<in> set (entries_of g). counted_remote e \<longrightarrow> live e)) \<and>
   (sn_state (connection now g) = CONN_DEGRADED \<longleftrightarrow> rg_networkOnline g \<and>
      (\<exists>e \<in> set (entries_of g). counted_remote e \<and> live e) \<and>
      (\<exists>e \<in> set (entries_of g). counted_remote e \<and> \<not> live e))"
proof -
  define es where "es = entries_of g"
  define a where "a = length (filter (\<lambda>e. counted_remote e \<and> live e) es)"
  define b where "b = length (filter counted_remote es)"
  have st: "sn_state (connection now g) =
      (if \<not> rg_networkOnline g then CONN_OFFLINE else if b = 0 then CONNECTED
       else if a = 0 then CONN_OFFLINE else if a < b then CONN_DEGRADED else CONNECTED)"
    by (simp add: connection_def counts a_def b_def es_def)
  have "b = 0 \<longleftrightarrow> (\<forall>e \<in> set es. \<not> counted_remote e)"
    "a = 0 \<longleftrightarrow> (\<forall>e \<in> set es. \<not> (counted_remote e \<and> live e))"
    "a < b \<longleftrightarrow> (\<exists>e \<in> set es. counted_remote e \<and> \<not> live e)"
    by (auto simp: a_def b_def filter_empty_conv filter_both_less)
  then show ?thesis
    unfolding st es_def [symmetric] by auto
qed

text \<open>A registry for the witnesses: one remote source, enabled, with this status and key state.\<close>

definition one_source :: "provider_status \<Rightarrow> credential_state \<Rightarrow> unit entry" where
  "one_source st cr =
     (let m = \<lparr>mf_id = js ''fires'', mf_name = [], mf_categories = [], mf_transport = Http,
         mf_credentials = [], mf_attribution = [], mf_termsUrl = None, mf_intervalMs = 1000,
         mf_cacheAllowed = True, mf_commercialReview = [], mf_telemetry = None\<rparr>;
       e = new_entry m \<lparr>ro_enabled = True, ro_locality = None, ro_connector = None,
         ro_definitionFile = None\<rparr>
      in e\<lparr>en_health := (en_health e)\<lparr>he_status := st, he_credentialState := cr\<rparr>\<rparr>)"

definition one_registry :: "provider_status \<Rightarrow> credential_state \<Rightarrow> unit registry" where
  "one_registry st cr = \<lparr>rg_entries = [(js ''fires'', one_source st cr)],
     rg_networkOnline = True, rg_lastConnection = Some CONNECTED\<rparr>"

lemmas one_defs = one_registry_def one_source_def new_entry_def manifest_locality_def Let_def

theorem connection_meaning_witness:
  "sn_state (connection 0 (one_registry LIVE Present)) = CONNECTED \<and>
   sn_state (connection 0 (one_registry ERROR Present)) = CONN_OFFLINE \<and>
   sn_state (connection 0 (one_registry AUTH_REQUIRED Missing)) = CONNECTED"
proof -
  have "counted_remote (one_source st cr) \<longleftrightarrow>
      st \<noteq> NEEDS_SETUP \<and> \<not> (st = AUTH_REQUIRED \<and> cr = Missing)" for st cr
    by (auto simp: one_defs counted_remote_def counted_def)
  moreover have "live (one_source st cr) \<longleftrightarrow> LIVE_LIKE st" for st cr
    by (simp add: one_defs live_def)
  ultimately show ?thesis
    using connection_meaning [of 0 "one_registry LIVE Present"]
      connection_meaning [of 0 "one_registry ERROR Present"]
      connection_meaning [of 0 "one_registry AUTH_REQUIRED Missing"]
    by (auto simp: one_registry_def LIVE_LIKE_def)
qed

section \<open>What is announced\<close>

definition announced :: "'t registry \<Rightarrow> bool" where
  "announced g \<longleftrightarrow> rg_lastConnection g = Some (sn_state (connection 0 g))"

lemma sn_state_now: "sn_state (connection now g) = sn_state (connection 0 g)"
  by (simp add: connection_def split: prod.splits)

lemma connection_last [simp]:
  "connection now (g\<lparr>rg_lastConnection := l\<rparr>) = connection now g"
  by (simp add: connection_def)

lemma recompute_announced:
  assumes "recomputeConnection now force g = (g', evs)"
  shows "announced g' \<and> sn_state (connection 0 g') = sn_state (connection 0 g) \<and>
    (if force \<or> Some (sn_state (connection 0 g)) \<noteq> rg_lastConnection g
     then evs = [Connection (connection now g)] else evs = [])"
  using assms sn_state_now [of now g]
  by (auto simp: recomputeConnection_def announced_def Let_def split: if_splits)

text \<open>
  The calls that tell the listeners: a report that keeps the status must not change whether a
  missing key keeps the source out of the count, and a switch must move the status.
\<close>

fun loud :: "'t call \<Rightarrow> 't registry \<Rightarrow> bool" where
  "loud (Report h) g =
     (case map_of (rg_entries g) (he_providerId h) of
        None \<Rightarrow> True
      | Some e \<Rightarrow> he_status h \<noteq> he_status (en_health e) \<or> he_status h \<noteq> AUTH_REQUIRED \<or>
          (he_credentialState h = Missing) = (he_credentialState (en_health e) = Missing))"
| "loud (SetEnabled i b) g =
     (case map_of (rg_entries g) i of
        None \<Rightarrow> True
      | Some e \<Rightarrow> en_enabled e = b \<or> (he_status (en_health e) = DISABLED) = b)"
| "loud _ g = True"

text \<open>Entries stand under the id they were registered with, and their reports carry it.\<close>

definition ids_ok :: "'t registry \<Rightarrow> bool" where
  "ids_ok g \<longleftrightarrow> distinct (map fst (rg_entries g)) \<and>
     (\<forall>(i, e) \<in> set (rg_entries g). en_providerId e = i \<and> he_providerId (en_health e) = i)"

lemma ids_lookup:
  "ids_ok g \<Longrightarrow> map_of (rg_entries g) i = Some e \<Longrightarrow>
   en_providerId e = i \<and> he_providerId (en_health e) = i"
  by (auto simp: ids_ok_def dest: map_of_SomeD)

lemma count_update_same:
  assumes "map_of es i = Some e" and "\<And>c. count_entry e' c = count_entry e c"
  shows "foldl (\<lambda>c ke. count_entry (snd ke) c) c0 (AList.update i e' es) =
    foldl (\<lambda>c ke. count_entry (snd ke) c) c0 es"
  using assms by (induction es arbitrary: c0) (auto split: if_splits)

lemma connection_put_same:
  assumes "map_of (rg_entries g) i = Some e" and "\<And>c. count_entry e' c = count_entry e c"
  shows "connection now (put_entry i e' g) = connection now g"
  using count_update_same [OF assms, of "(0, 0, 0)"]
  by (simp add: connection_def put_entry_def)

lemma put_entry_simps [simp]:
  "rg_lastConnection (put_entry i e g) = rg_lastConnection g"
  "rg_networkOnline (put_entry i e g) = rg_networkOnline g"
  "map_of (rg_entries (put_entry i e g)) = (map_of (rg_entries g))(i \<mapsto> e)"
  by (simp_all add: put_entry_def map_simps)

definition tells :: "'t registry \<Rightarrow> 't registry \<Rightarrow> 't event list \<Rightarrow> bool" where
  "tells g g' evs \<longleftrightarrow> announced g' \<and>
     (sn_state (connection 0 g') \<noteq> sn_state (connection 0 g) \<longrightarrow>
       (\<exists>s. Connection s \<in> set evs \<and> sn_state s = sn_state (connection 0 g')))"

lemma recompute_tells:
  assumes "recomputeConnection now force g1 = (g', evs)" and "announced g"
    and "rg_lastConnection g1 = rg_lastConnection g" and "set evs \<subseteq> set evs'"
  shows "tells g g' evs'"
proof -
  note r = recompute_announced [OF assms(1)]
  show ?thesis
  proof (cases "Some (sn_state (connection 0 g1)) = rg_lastConnection g1")
    case True
    with r assms(2, 3) show ?thesis by (simp add: tells_def announced_def)
  next
    case False
    with r have "evs = [Connection (connection now g1)]" by (simp split: if_splits)
    with assms(4) have "Connection (connection now g1) \<in> set evs'" by simp
    with r show ?thesis
      unfolding tells_def by (metis sn_state_now)
  qed
qed

lemma update_tells:
  assumes "update_health mx now h g1 = (g', evs)" and "announced g"
    and "rg_lastConnection g1 = rg_lastConnection g"
    and "map_of (rg_entries g1) (he_providerId h) = Some e" and "he_status (en_health e) \<noteq> he_status h"
  shows "tells g g' evs"
proof -
  obtain g2 evs2 where r: "recomputeConnection now False
      (put_entry (he_providerId h) (add_transition mx now (he_status (en_health e)) h e) g1) = (g2, evs2)"
    by (cases "recomputeConnection now False
      (put_entry (he_providerId h) (add_transition mx now (he_status (en_health e)) h e) g1)")
  with assms(1,4,5) have "g2 = g'" "set evs2 \<subseteq> set evs"
    by (auto simp: update_health_def Let_def)
  with recompute_tells [OF r assms(2)] assms(3) show ?thesis by simp
qed

lemma update_same_tells:
  assumes "update_health mx now h g = (g', evs)" and "announced g" and "loud (Report h) g"
    and "map_of (rg_entries g) (he_providerId h) = Some e" and "he_status (en_health e) = he_status h"
  shows "tells g g' evs"
proof -
  have g': "g' = put_entry (he_providerId h) (e\<lparr>en_health := h\<rparr>) g"
    using assms(1,4,5) by (auto simp: update_health_def Let_def)
  have "connection 0 g' = connection 0 g"
    unfolding g'
  proof (rule connection_put_same [OF assms(4)])
    show "count_entry (e\<lparr>en_health := h\<rparr>) c = count_entry e c" for c
      using assms(3-5) by (auto simp: count_entry_def split: prod.splits)
  qed
  with assms(2) g' show ?thesis by (simp add: tells_def announced_def)
qed

lemma setEnabled_tells:
  assumes "setEnabled mx now i b g = (g', evs)" and "announced g" and "ids_ok g"
    and "loud (SetEnabled i b) g"
  shows "tells g g' evs"
proof (cases "map_of (rg_entries g) i")
  case None
  with assms show ?thesis by (simp add: setEnabled_def tells_def)
next
  case (Some e)
  define e1 where "e1 = e\<lparr>en_enabled := b\<rparr>"
  define g1 where "g1 = put_entry i e1 g"
  have look: "map_of (rg_entries g1) i = Some e1" and last: "rg_lastConnection g1 = rg_lastConnection g"
    by (simp_all add: g1_def)
  have pid: "he_providerId (en_health e) = i" using ids_lookup [OF assms(3) Some] by simp
  have conn: "connection 0 g1 = connection 0 g" if "en_enabled e = b"
    unfolding g1_def
    by (rule connection_put_same [OF Some])
      (use that in \<open>auto simp: e1_def count_entry_def split: prod.splits\<close>)
  have same: "announced g1" if "en_enabled e = b"
    using conn [OF that] assms(2) by (simp add: announced_def last)
  have eq: "tells g g' evs = tells g1 g' evs" if "en_enabled e = b"
    using conn [OF that] by (simp add: tells_def)
  define to where "to = (if b then STARTING else DISABLED)"
  show ?thesis
  proof (cases "(he_status (en_health e) = DISABLED) = b")
    case True
    then have "update_health mx now ((en_health e)\<lparr>he_status := to\<rparr>) g1 = (g', evs)"
      using assms(1) Some by (auto simp: setEnabled_def g1_def e1_def to_def Let_def split: if_splits)
    then show ?thesis
      by (rule update_tells [OF _ assms(2) last, where e = e1])
        (use True look pid in \<open>auto simp: to_def e1_def\<close>)
  next
    case False
    with assms(4) Some have en: "en_enabled e = b" by simp
    show ?thesis
    proof (cases b)
      case True
      with False Some assms(1) have "g' = g1" "evs = []"
        by (auto simp: setEnabled_def g1_def e1_def Let_def split: if_splits)
      then show ?thesis unfolding eq [OF en] using same [OF en] by (simp add: tells_def)
    next
      case b: False
      with False have st: "he_status (en_health e) = DISABLED" by simp
      then have "(en_health e)\<lparr>he_status := DISABLED\<rparr> = en_health e" by (cases "en_health e") simp
      with b Some assms(1) have "update_health mx now (en_health e) g1 = (g', evs)"
        by (auto simp: setEnabled_def g1_def e1_def Let_def)
      from update_same_tells [OF this same [OF en]] look pid st
      show ?thesis unfolding eq [OF en] by (auto simp: e1_def)
    qed
  qed
qed

text \<open>
  C36: The badge's listeners are told. While the last announced connection state is the current
  one, a call that is \<open>loud\<close> leaves it so, and when it changes the state an event with the new
  state is among those it raises.
\<close>
theorem connection_announced:
  assumes "call_step mx (c, now) g = (g', evs)" and "announced g" and "ids_ok g" and "loud c g"
  shows "announced g' \<and>
    (sn_state (connection 0 g') \<noteq> sn_state (connection 0 g) \<longrightarrow>
      (\<exists>s. Connection s \<in> set evs \<and> sn_state s = sn_state (connection 0 g')))"
proof -
  have "tells g g' evs"
  proof (cases c)
    case (Report h)
    show ?thesis
    proof (cases "map_of (rg_entries g) (he_providerId h)")
      case None
      with Report assms show ?thesis by (simp add: update_health_def tells_def)
    next
      case (Some e)
      with Report assms update_tells [of mx now h g g' evs g e] update_same_tells [of mx now h g g' evs e]
      show ?thesis by auto
    qed
  next
    case (SetEnabled i b)
    with assms setEnabled_tells show ?thesis by auto
  next
    case (SetNetworkOnline b)
    show ?thesis
    proof (cases "rg_networkOnline g = b")
      case True
      with assms SetNetworkOnline show ?thesis by (simp add: setNetworkOnline_def tells_def)
    next
      case False
      with assms SetNetworkOnline have
        "recomputeConnection now True (g\<lparr>rg_networkOnline := b\<rparr>) = (g', evs)"
        by (simp add: setNetworkOnline_def)
      from recompute_tells [OF this assms(2)] show ?thesis by simp
    qed
  qed (use assms recompute_tells [OF _ assms(2) _ subset_refl]
       in \<open>fastforce simp: register_def unregister_def\<close>)+
  then show ?thesis by (simp add: tells_def)
qed

theorem connection_announced_witness:
  "(let h = (en_health (one_source ERROR Present)) in
    call_step 20 (Report h, 5) (one_registry LIVE Present) =
      (let e = add_transition 20 5 LIVE h (one_source LIVE Present);
           g = (put_entry (js ''fires'') e (one_registry LIVE Present))\<lparr>rg_lastConnection := Some CONN_OFFLINE\<rparr>
       in (g, [Change (js ''fires'') LIVE ERROR e, Connection (connection 5 g), Update (js ''fires'') e])))
   \<and> announced (fst (call_step 20 (Report (en_health (one_source ERROR Present)), 5) (one_registry LIVE Present)))"
proof -
  let ?g = "one_registry LIVE Present" and ?h = "en_health (one_source ERROR Present)"
  have a: "announced ?g" "ids_ok ?g" "loud (Report ?h) ?g"
    using connection_meaning_witness by (auto simp: announced_def one_defs ids_ok_def)
  obtain g' evs where c: "call_step 20 (Report ?h, 5) ?g = (g', evs)"
    by (cases "call_step 20 (Report ?h, 5) ?g")
  from connection_announced [OF c a] have "announced g'" by blast
  moreover have "call_step 20 (Report ?h, 5) ?g =
      (let e = add_transition 20 5 LIVE ?h (one_source LIVE Present);
           g = (put_entry (js ''fires'') e ?g)\<lparr>rg_lastConnection := Some CONN_OFFLINE\<rparr>
       in (g, [Change (js ''fires'') LIVE ERROR e, Connection (connection 5 g), Update (js ''fires'') e]))"
    by (simp add: one_defs update_health_def put_entry_def recomputeConnection_def connection_def
        count_entry_def add_transition_def LIVE_LIKE_def)
  ultimately show ?thesis using c by (simp add: Let_def)
qed

text \<open>
  A report that is not loud: the source waited for a key (the badge says CONNECTED), a key was
  entered and refused. The connection state is now OFFLINE and no connection event is raised.
\<close>

lemma refused_key_untold:
  defines "h \<equiv> en_health (one_source AUTH_REQUIRED Invalid)"
  shows "announced (one_registry AUTH_REQUIRED Missing) \<and>
    (case call_step 20 (Report h, 5) (one_registry AUTH_REQUIRED Missing) of (g', evs) \<Rightarrow>
       sn_state (connection 5 g') = CONN_OFFLINE \<and> \<not> announced g' \<and>
       (\<forall>s. Connection s \<notin> set evs))"
  by (simp add: h_def one_defs update_health_def put_entry_def connection_def count_entry_def
      announced_def LIVE_LIKE_def)

section \<open>Transitions\<close>

text \<open>Transitions, newest first, that lead to a status: each starts where the one before ended.\<close>

fun linked :: "provider_status \<Rightarrow> transition list \<Rightarrow> bool" where
  "linked s [] \<longleftrightarrow> True"
| "linked s (t # ts) \<longleftrightarrow> tr_to t = s \<and> tr_from t \<noteq> tr_to t \<and> linked (tr_from t) ts"

lemma linked_take: "linked s ts \<Longrightarrow> linked s (take n ts)"
  by (induction s ts arbitrary: n rule: linked.induct) (auto simp: take_Cons split: nat.splits)

definition history_ok :: "nat \<Rightarrow> 't entry \<Rightarrow> bool" where
  "history_ok mx e \<longleftrightarrow> linked (he_status (en_health e)) (en_transitions e) \<and>
     length (en_transitions e) \<le> mx"

definition histories_ok :: "nat \<Rightarrow> 't registry \<Rightarrow> bool" where
  "histories_ok mx g \<longleftrightarrow> distinct (map fst (rg_entries g)) \<and>
     (\<forall>i e. map_of (rg_entries g) i = Some e \<longrightarrow>
        history_ok mx e \<and> en_providerId e = i \<and> he_providerId (en_health e) = i)"

lemma recompute_entries: "rg_entries (fst (recomputeConnection now force g)) = rg_entries g"
  by (simp add: recomputeConnection_def Let_def)

lemma histories_put:
  "histories_ok mx g \<Longrightarrow> history_ok mx e \<Longrightarrow> en_providerId e = i \<Longrightarrow> he_providerId (en_health e) = i \<Longrightarrow>
   histories_ok mx (put_entry i e g)"
  by (auto simp: histories_ok_def put_entry_def map_simps distinct_update split: if_splits)

lemma histories_cong: "rg_entries g' = rg_entries g \<Longrightarrow> histories_ok mx g' = histories_ok mx g"
  by (simp add: histories_ok_def)

lemma histories_recompute [simp]:
  "histories_ok mx (fst (recomputeConnection now force g)) = histories_ok mx g"
  by (rule histories_cong) (rule recompute_entries)

lemma history_add:
  "history_ok mx e \<Longrightarrow> he_status (en_health e) \<noteq> he_status h \<Longrightarrow>
   history_ok mx (add_transition mx now (he_status (en_health e)) h e)"
  by (auto simp: history_ok_def add_transition_def intro!: linked_take)

lemma histories_update:
  assumes "histories_ok mx g"
  shows "histories_ok mx (fst (update_health mx now h g))"
proof (cases "map_of (rg_entries g) (he_providerId h)")
  case None
  with assms show ?thesis by (simp add: update_health_def)
next
  case (Some e)
  with assms have e: "history_ok mx e" "en_providerId e = he_providerId h"
    by (auto simp: histories_ok_def)
  let ?add = "add_transition mx now (he_status (en_health e)) h e"
  show ?thesis
  proof (cases "he_status (en_health e) = he_status h")
    case True
    with Some e assms show ?thesis
      by (simp add: update_health_def Let_def histories_put history_ok_def)
  next
    case False
    with e have "histories_ok mx (put_entry (he_providerId h) ?add g)"
      using history_add [OF e(1) False] assms by (intro histories_put) (simp_all add: add_transition_def)
    with Some False show ?thesis
      by (simp add: update_health_def Let_def case_prod_unfold)
  qed
qed

lemma histories_step:
  assumes "histories_ok mx g"
  shows "histories_ok mx (fst (call_step mx (c, now) g))"
proof (cases c)
  case (Register m opts)
  have "histories_ok mx (put_entry (mf_id m) (new_entry m opts) g)"
    using assms by (intro histories_put) (simp_all add: new_entry_def history_ok_def)
  then show ?thesis
    by (simp add: Register register_def put_entry_def)
next
  case (Unregister i)
  have "histories_ok mx (g\<lparr>rg_entries := AList.delete i (rg_entries g)\<rparr>)"
    using assms by (auto simp: histories_ok_def map_simps distinct_delete)
  then show ?thesis
    by (simp add: Unregister unregister_def)
next
  case (Report h)
  with assms show ?thesis by (simp add: histories_update)
next
  case (SetEnabled i b)
  show ?thesis
  proof (cases "map_of (rg_entries g) i")
    case None
    with assms SetEnabled show ?thesis by (simp add: setEnabled_def)
  next
    case (Some e)
    with assms have "history_ok mx e" "en_providerId e = i" "he_providerId (en_health e) = i"
      by (auto simp: histories_ok_def)
    with assms have "histories_ok mx (put_entry i (e\<lparr>en_enabled := b\<rparr>) g)"
      by (intro histories_put) (simp_all add: history_ok_def)
    with Some SetEnabled show ?thesis
      by (cases b) (simp_all add: setEnabled_def Let_def histories_update)
  qed
next
  case (SetNetworkOnline b)
  with assms show ?thesis
    using histories_cong [of "g\<lparr>rg_networkOnline := b\<rparr>" g mx]
    by (simp add: setNetworkOnline_def)
qed

lemma histories_run: "histories_ok mx g \<Longrightarrow> histories_ok mx (fst (run_calls mx cs g))"
proof (induction cs arbitrary: g)
  case (Cons c cs)
  obtain a t where c: "c = (a, t)" by (cases c)
  with Cons histories_step [OF Cons.prems, of a t] show ?case
    by (auto split: prod.splits) (metis fst_conv)
qed simp

text \<open>
  The transition lists are a history. After any run of registrations, reports, switches and
  network changes, every source's list is at most \<open>maxTransitions\<close> long, ends (newest first) in
  the status the source has now, holds no transition from a status to itself, and each
  transition starts in the status the one before it ended in.
\<close>
theorem transitions_linked:
  assumes "map_of (rg_entries (fst (run_calls mx calls new_registry))) i = Some e"
  shows "linked (he_status (en_health e)) (en_transitions e) \<and> length (en_transitions e) \<le> mx"
proof -
  have "histories_ok mx (fst (run_calls mx calls new_registry))"
    by (rule histories_run) (simp add: histories_ok_def new_registry_def)
  with assms show ?thesis by (auto simp: histories_ok_def history_ok_def)
qed

theorem transitions_linked_witness:
  defines "m \<equiv> \<lparr>mf_id = [1], mf_name = [], mf_categories = [], mf_transport = Http,
       mf_credentials = [], mf_attribution = [], mf_termsUrl = None, mf_intervalMs = 1000,
       mf_cacheAllowed = True, mf_commercialReview = [], mf_telemetry = None :: unit option\<rparr>"
  defines "opts \<equiv> \<lparr>ro_enabled = True, ro_locality = None, ro_connector = None, ro_definitionFile = None\<rparr>"
  defines "calls \<equiv> [(Register m opts, 3), (SetEnabled [1] False, 4)]"
  shows "\<exists>e. map_of (rg_entries (fst (run_calls 1 calls new_registry))) [1] = Some e \<and>
    linked (he_status (en_health e)) (en_transitions e) \<and> length (en_transitions e) \<le> 1"
proof -
  have "map_of (rg_entries (fst (run_calls 1 calls new_registry))) [1] \<noteq> None"
    by (simp add: calls_def opts_def m_def new_registry_def register_def new_entry_def
        setEnabled_def update_health_def put_entry_def recompute_entries case_prod_unfold Let_def)
  then obtain e where "map_of (rg_entries (fst (run_calls 1 calls new_registry))) [1] = Some e" by blast
  with transitions_linked [OF this] show ?thesis by blast
qed

end
