(* ===== verification/Http_Client.thy ===== *)
theory Http_Client
  imports Resilience Source_Health
begin

text \<open>
  The network layer every request goes through, \<open>packages/core/src/http.ts\<close>: the checks before
  a request is sent (address, connectivity, a host's Retry-After, pacing, circuit, the client's
  and the shared rate limit), the attempts, the response cache and what an outcome leaves behind.

  One request is one \<open>exchange\<close>: the clock's time when it begins, \<open>wake t ms\<close> for the time after
  a sleep of \<open>ms\<close> begun at \<open>t\<close>, and for each attempt the times it is sent and answered with the
  reply. \<open>URL\<close> parsing and the parsing of dates are the platform's: their results are inputs. The
  identity of a cache entry, which \<open>invalidate\<close> compares, is a number given when it is made.
\<close>

section \<open>State\<close>

datatype cache_entry = CacheEntry
  (ce_id: nat) (ce_etag: "jstring option") (ce_lastModified: "jstring option") (ce_status: nat)
  (ce_headers: "(jstring \<times> jstring) list") (ce_body: "byte list") (ce_storedAt: int)
  (ce_previousGood: "cache_entry option")

record http_opts =
  ho_allowedHosts :: "jstring list"
  ho_trustedHosts :: "jstring list"
  ho_maxRetries :: nat
  ho_requestsPerMinute :: int
  ho_sharedPerMinute :: "int option"
  ho_staleMs :: int
  ho_cacheEnabled :: bool
  ho_cacheMax :: nat
  ho_defaultMaxBytes :: nat
  ho_hardMaxBytes :: nat
  ho_sharedWindowMs :: int

record http_stats =
  st_requests :: nat
  st_notModified :: nat
  st_staleServed :: nat
  st_failures :: nat
  st_rateLimitedWaits :: nat
  st_paced :: nat

record http_state =
  hs_cache :: "(jstring \<times> cache_entry) list"
  hs_breakers :: "(jstring \<times> breaker) list"
  hs_retryAt :: "(jstring \<times> rat) list"
  hs_pace :: "(jstring \<times> rat) list"
  hs_sentAt :: "(jstring \<times> int) list"
  hs_limiter :: rate_limiter
  hs_shared :: host_budget
  hs_stats :: http_stats
  hs_nextId :: nat

definition MAX_RETRY_AFTER_MS :: rat where "MAX_RETRY_AFTER_MS = 900000"
definition PACE_MIN_MS :: rat where "PACE_MIN_MS = 1000"
definition PACE_MAX_MS :: rat where "PACE_MAX_MS = 120000"
definition PACE_RELAX :: rat where "PACE_RELAX = 95 / 100"
definition PACE_SLACK_MS :: rat where "PACE_SLACK_MS = 2000"

definition new_client :: http_state where
  "new_client = \<lparr>hs_cache = [], hs_breakers = [], hs_retryAt = [], hs_pace = [], hs_sentAt = [],
     hs_limiter = new_limiter, hs_shared = new_budget,
     hs_stats = \<lparr>st_requests = 0, st_notModified = 0, st_staleServed = 0, st_failures = 0,
       st_rateLimitedWaits = 0, st_paced = 0\<rparr>,
     hs_nextId = 0\<rparr>"

record perror =
  pe_code :: error_code
  pe_httpStatus :: "nat option"
  pe_retryAfterMs :: "rat option"
  pe_retryable :: bool

definition provider_error :: "error_code \<Rightarrow> nat option \<Rightarrow> rat option \<Rightarrow> perror" where
  "provider_error c st ra = \<lparr>pe_code = c, pe_httpStatus = st, pe_retryAfterMs = ra,
     pe_retryable = defaultRetryable c\<rparr>"

definition final_error :: "error_code \<Rightarrow> nat option \<Rightarrow> perror" where
  "final_error c st = \<lparr>pe_code = c, pe_httpStatus = st, pe_retryAfterMs = None, pe_retryable = False\<rparr>"

record response =
  rs_status :: nat
  rs_headers :: "(jstring \<times> jstring) list"
  rs_body :: "byte list"
  rs_fromCache :: bool
  rs_stale :: bool
  rs_ageMs :: int
  rs_latencyMs :: int
  rs_entry :: "nat option"

definition toResponse :: "cache_entry \<Rightarrow> bool \<Rightarrow> bool \<Rightarrow> int \<Rightarrow> int \<Rightarrow> nat option \<Rightarrow> response" where
  "toResponse e fromCache stale age latency ident =
     \<lparr>rs_status = ce_status e, rs_headers = ce_headers e, rs_body = ce_body e,
      rs_fromCache = fromCache, rs_stale = stale, rs_ageMs = age, rs_latencyMs = latency,
      rs_entry = ident\<rparr>"

section \<open>Which addresses may be asked\<close>

text \<open>What \<open>new URL\<close> gives for an address: its protocol and its host name, or nothing.\<close>

record parsed_url =
  pu_protocol :: jstring
  pu_hostname :: jstring

definition lower_char :: "jchar \<Rightarrow> jchar" where
  "lower_char c = (if is_upper c then c + 32 else c)"

text \<open>\<open>toLowerCase\<close> on a host name, which \<open>URL\<close> gives in ASCII.\<close>

definition toLower :: "jstring \<Rightarrow> jstring" where
  "toLower s = map lower_char s"

definition ends_with :: "jstring \<Rightarrow> jstring \<Rightarrow> bool" where
  "ends_with s suff \<longleftrightarrow> length suff \<le> length s \<and> drop (length s - length suff) s = suff"

definition isTrusted :: "http_opts \<Rightarrow> jstring \<Rightarrow> bool" where
  "isTrusted opts host \<longleftrightarrow> (\<exists>t \<in> set (ho_trustedHosts opts). toLower t = toLower host)"

definition isHostAllowed :: "http_opts \<Rightarrow> parsed_url option \<Rightarrow> bool" where
  "isHostAllowed opts u =
     (case u of
        None \<Rightarrow> False
      | Some p \<Rightarrow>
          (let host = toLower (pu_hostname p)
           in isTrusted opts host \<or>
              (\<exists>h \<in> set (ho_allowedHosts opts).
                 host = toLower h \<or> ends_with host (jc CHR ''.'' # toLower h))))"

definition isLoopback :: "jstring \<Rightarrow> bool" where
  "isLoopback host \<longleftrightarrow> host = js ''localhost'' \<or> host = js ''127.0.0.1'' \<or> host = js ''::1'' \<or>
     host = js ''[::1]'' \<or> starts_with (js ''127.'') host"

definition allowsPlain :: "http_opts \<Rightarrow> parsed_url option \<Rightarrow> bool" where
  "allowsPlain opts u =
     (case u of None \<Rightarrow> False
      | Some p \<Rightarrow> isLoopback (pu_hostname p) \<or> isTrusted opts (pu_hostname p))"

record http_request =
  rq_url :: "parsed_url option"
  rq_key :: jstring
  rq_isGet :: bool
  rq_allowStale :: bool
  rq_emptyStatus :: "nat list"
  rq_maxBytes :: "nat option"
  rq_aborted :: bool

text \<open>The refusals of \<open>request\<close>; \<open>Inr\<close> is the host the request goes to.\<close>

definition check_request :: "http_opts \<Rightarrow> http_request \<Rightarrow> perror + jstring" where
  "check_request opts req =
     (case rq_url req of
        None \<Rightarrow> Inl (final_error E_INTERNAL None)
      | Some p \<Rightarrow>
          if pu_protocol p \<noteq> js ''https:'' \<and>
             \<not> (pu_protocol p = js ''http:'' \<and>
                (isLoopback (pu_hostname p) \<or> isTrusted opts (pu_hostname p)))
          then Inl (final_error E_HOST_NOT_ALLOWED None)
          else if \<not> isHostAllowed opts (rq_url req) then Inl (final_error E_HOST_NOT_ALLOWED None)
          else if rq_aborted req then Inl (provider_error E_CANCELLED None None)
          else Inr (toLower (pu_hostname p)))"

section \<open>Before a request is sent\<close>

definition breaker_options :: breaker_opts where
  "breaker_options = \<lparr>cb_failureThreshold = 3, cb_openMs = 30000, cb_maxOpenMs = 600000\<rparr>"

definition breaker_of :: "jstring \<Rightarrow> http_state \<Rightarrow> breaker" where
  "breaker_of host s = (case map_of (hs_breakers s) host of Some b \<Rightarrow> b | None \<Rightarrow> new_breaker)"

definition set_breaker :: "jstring \<Rightarrow> breaker \<Rightarrow> http_state \<Rightarrow> http_state" where
  "set_breaker host b s = s\<lparr>hs_breakers := AList.update host b (hs_breakers s)\<rparr>"

definition client_limits :: "http_opts \<Rightarrow> limiter_opts" where
  "client_limits opts = \<lparr>rl_windowMs = 60000, rl_max = ho_requestsPerMinute opts,
     rl_globalMax = None, rl_maxKeys = None\<rparr>"

text \<open>Connectivity, the time the host asked for, and the gap kept since it answered 429.\<close>

definition pace_check :: "bool \<Rightarrow> jstring \<Rightarrow> int \<Rightarrow> http_state \<Rightarrow> (perror + rat) \<times> http_state" where
  "pace_check online host now s =
     (if \<not> online then (Inl (provider_error E_OFFLINE None None), s)
      else
        (case map_of (hs_retryAt s) host of
           Some t \<Rightarrow>
             if t - of_int now > 0
             then (Inl (provider_error E_RATE_LIMITED (Some 429) (Some (t - of_int now))), s)
             else (Inr 0, s\<lparr>hs_retryAt := AList.delete host (hs_retryAt s)\<rparr>)
         | None \<Rightarrow> (Inr 0, s)))"

definition gap_left :: "jstring \<Rightarrow> int \<Rightarrow> http_state \<Rightarrow> rat" where
  "gap_left host now s =
     (case (map_of (hs_pace s) host, map_of (hs_sentAt s) host) of
        (Some gap, Some lastSent) \<Rightarrow> of_int lastSent + gap - of_int now
      | _ \<Rightarrow> 0)"

definition count_paced :: "http_state \<Rightarrow> http_state" where
  "count_paced s = s\<lparr>hs_stats := (hs_stats s)\<lparr>st_paced := Suc (st_paced (hs_stats s))\<rparr>\<rparr>"

definition count_wait :: "http_state \<Rightarrow> http_state" where
  "count_wait s =
     s\<lparr>hs_stats := (hs_stats s)\<lparr>st_rateLimitedWaits := Suc (st_rateLimitedWaits (hs_stats s))\<rparr>\<rparr>"

definition circuit_check ::
    "jstring \<Rightarrow> int \<Rightarrow> http_state \<Rightarrow> (perror + unit) \<times> http_state" where
  "circuit_check host now s =
     (case allow breaker_options now (breaker_of host s) of
        (ok, b) \<Rightarrow>
          let s1 = set_breaker host b s
          in if ok then (Inr (), s1)
             else (Inl (provider_error E_NETWORK None
                     (Some (of_int (retryInMs breaker_options now b)))), s1))"

text \<open>The client's limit: refused past ten seconds, waited for below, \<open>NaN\<close> passed.\<close>

definition limit_check ::
    "http_opts \<Rightarrow> (int \<Rightarrow> rat option \<Rightarrow> int) \<Rightarrow> jstring \<Rightarrow> int \<Rightarrow> http_state
       \<Rightarrow> (perror + int) \<times> http_state" where
  "limit_check opts wake host now s =
     (case limiter_tryAcquire (client_limits opts) host now (hs_limiter s) of
        (wait, l) \<Rightarrow>
          let s1 = s\<lparr>hs_limiter := l\<rparr>
          in case wait of
               None \<Rightarrow> (Inr now, s1)
             | Some w \<Rightarrow>
                 if w > 0 then
                   (if w > 10000
                    then (Inl (provider_error E_RATE_LIMITED None (Some (of_int w))), count_wait s1)
                    else (Inr (wake now (Some (of_int w))), count_wait s1))
                 else (Inr now, s1))"

text \<open>The shared budget, asked again after each wait; \<open>n\<close> more waits are allowed.\<close>

fun shared_check ::
    "http_opts \<Rightarrow> int \<Rightarrow> (int \<Rightarrow> rat option \<Rightarrow> int) \<Rightarrow> jstring \<Rightarrow> nat \<Rightarrow> int \<Rightarrow> http_state
       \<Rightarrow> (perror + int) \<times> http_state" where
  "shared_check opts perMinute wake host n now s =
     (case budget_tryAcquire (ho_sharedWindowMs opts) host perMinute now (hs_shared s) of
        (wait, b) \<Rightarrow>
          let s1 = s\<lparr>hs_shared := b\<rparr>
          in if wait = Some 0 then (Inr now, s1)
             else
               (let s2 = count_wait s1;
                    err = provider_error E_RATE_LIMITED None (map_option of_int wait)
                in if (case wait of Some w \<Rightarrow> w > 10000 | None \<Rightarrow> False) then (Inl err, s2)
                   else (case n of
                           0 \<Rightarrow> (Inl err, s2)
                         | Suc m \<Rightarrow> shared_check opts perMinute wake host m (wake now (map_option of_int wait)) s2)))"

declare shared_check.simps [simp del]

text \<open>All the checks: the time at which the first attempt may be sent, or the refusal.\<close>

definition gate ::
    "http_opts \<Rightarrow> (int \<Rightarrow> rat option \<Rightarrow> int) \<Rightarrow> bool \<Rightarrow> jstring \<Rightarrow> int \<Rightarrow> http_state
       \<Rightarrow> (perror + int) \<times> http_state" where
  "gate opts wake online host now s =
     (case pace_check online host now s of
        (Inl e, s1) \<Rightarrow> (Inl e, s1)
      | (Inr _, s1) \<Rightarrow>
          let left = gap_left host now s1
          in if left > PACE_SLACK_MS
             then (Inl (provider_error E_RATE_LIMITED None (Some left)), count_paced s1)
             else
               (let now2 = (if left > 0 then wake now (Some left) else now)
                in case circuit_check host now2 s1 of
                     (Inl e, s2) \<Rightarrow> (Inl e, s2)
                   | (Inr _, s2) \<Rightarrow>
                       (case limit_check opts wake host now2 s2 of
                          (Inl e, s3) \<Rightarrow> (Inl e, s3)
                        | (Inr now3, s3) \<Rightarrow>
                            (case ho_sharedPerMinute opts of
                               None \<Rightarrow> (Inr now3, s3)
                             | Some rpm \<Rightarrow> shared_check opts rpm wake host 3 now3 s3))))"

section \<open>Attempts\<close>

datatype retry_after = RetrySeconds rat | RetryDate int | Unreadable

text \<open>What the platform gives back for one attempt: a response, or a rejected \<open>fetch\<close>.\<close>

record http_reply =
  ry_status :: nat
  ry_headers :: "(jstring \<times> jstring) list"
  ry_retryAfter :: retry_after
  ry_contentLength :: "nat option"
  ry_chunks :: "byte list list"

datatype outcome = Replied http_reply | Rejected error_code | NoCredential

definition parseRetryAfter :: "retry_after \<Rightarrow> int \<Rightarrow> rat option" where
  "parseRetryAfter v now =
     (case v of
        RetrySeconds s \<Rightarrow> Some (max 0 (s * 1000))
      | RetryDate t \<Rightarrow> Some (of_int (max 0 (t - now)))
      | Unreadable \<Rightarrow> None)"

fun read_chunks :: "nat \<Rightarrow> nat \<Rightarrow> byte list list \<Rightarrow> byte list option" where
  "read_chunks mx sofar [] = Some []"
| "read_chunks mx sofar (c # cs) =
     (if sofar + length c > mx then None
      else map_option ((@) c) (read_chunks mx (sofar + length c) cs))"

definition readCapped :: "http_reply \<Rightarrow> nat \<Rightarrow> perror + byte list" where
  "readCapped r mx =
     (if (case ry_contentLength r of Some n \<Rightarrow> n > mx | None \<Rightarrow> False)
      then Inl (final_error E_TOO_LARGE None)
      else (case read_chunks mx 0 (ry_chunks r) of
              None \<Rightarrow> Inl (final_error E_TOO_LARGE None)
            | Some b \<Rightarrow> Inr b))"

definition countsForBreaker :: "error_code \<Rightarrow> bool" where
  "countsForBreaker c \<longleftrightarrow> c \<in> {E_NETWORK, E_TIMEOUT, E_DNS, E_HTTP_5XX}"

definition max_bytes :: "http_opts \<Rightarrow> http_request \<Rightarrow> nat" where
  "max_bytes opts req =
     min (case rq_maxBytes req of Some n \<Rightarrow> n | None \<Rightarrow> ho_defaultMaxBytes opts) (ho_hardMaxBytes opts)"

text \<open>The error a status stands for, or nothing when the body is to be read.\<close>

definition status_error :: "http_reply \<Rightarrow> int \<Rightarrow> perror option" where
  "status_error r now =
     (let st = ry_status r
      in if 300 \<le> st \<and> st < 400 then Some (final_error E_HTTP_4XX (Some st))
         else if st = 429
         then Some (provider_error E_RATE_LIMITED (Some 429)
                (Some (case parseRetryAfter (ry_retryAfter r) now of Some d \<Rightarrow> d | None \<Rightarrow> 45000)))
         else if st = 401 \<or> st = 403 then Some (final_error E_AUTH (Some st))
         else if st \<ge> 500 then Some (provider_error E_HTTP_5XX (Some st) None)
         else if st \<ge> 400 then Some (final_error E_HTTP_4XX (Some st))
         else None)"

definition drop_previous :: "cache_entry \<Rightarrow> cache_entry" where
  "drop_previous e = CacheEntry (ce_id e) (ce_etag e) (ce_lastModified e) (ce_status e)
     (ce_headers e) (ce_body e) (ce_storedAt e) None"

definition touch_entry :: "int \<Rightarrow> cache_entry \<Rightarrow> cache_entry" where
  "touch_entry now e = CacheEntry (ce_id e) (ce_etag e) (ce_lastModified e) (ce_status e)
     (ce_headers e) (ce_body e) now (ce_previousGood e)"

definition header_value :: "jstring \<Rightarrow> (jstring \<times> jstring) list \<Rightarrow> jstring option" where
  "header_value k hs = (case map_of hs k of Some v \<Rightarrow> if v = [] then None else Some v | None \<Rightarrow> None)"

text \<open>\<open>while (cache.size > max)\<close>: the oldest entries go.\<close>

definition evict :: "nat \<Rightarrow> (jstring \<times> 'a) list \<Rightarrow> (jstring \<times> 'a) list" where
  "evict mx es = drop (length es - mx) es"

definition store_entry :: "http_opts \<Rightarrow> jstring \<Rightarrow> cache_entry \<Rightarrow> http_state \<Rightarrow> http_state" where
  "store_entry opts key e s =
     (let e1 = CacheEntry (ce_id e) (ce_etag e) (ce_lastModified e) (ce_status e) (ce_headers e)
                 (ce_body e) (ce_storedAt e) (map_option drop_previous (map_of (hs_cache s) key))
      in s\<lparr>hs_cache := evict (ho_cacheMax opts) (AList.delete key (hs_cache s) @ [(key, e1)])\<rparr>)"

definition fail_breaker :: "jstring \<Rightarrow> int \<Rightarrow> perror \<Rightarrow> http_state \<Rightarrow> http_state" where
  "fail_breaker host now e s =
     (if countsForBreaker (pe_code e)
      then set_breaker host (recordFailure breaker_options now (breaker_of host s)) s else s)"

definition replace_id :: "nat \<Rightarrow> (cache_entry \<Rightarrow> cache_entry) \<Rightarrow> cache_entry \<Rightarrow> cache_entry" where
  "replace_id i f e = (if ce_id e = i then f e else e)"

text \<open>One attempt: sent at \<open>t\<close>, answered at \<open>u\<close>. \<open>cached\<close> is the entry read at the start.\<close>

definition send_attempt :: "jstring \<Rightarrow> int \<Rightarrow> http_state \<Rightarrow> int option \<times> http_state" where
  "send_attempt host t s =
     (map_option (\<lambda>p. t - p) (map_of (hs_sentAt s) host),
      s\<lparr>hs_sentAt := AList.update host t (hs_sentAt s),
        hs_stats := (hs_stats s)\<lparr>st_requests := Suc (st_requests (hs_stats s))\<rparr>\<rparr>)"

definition take_reply ::
    "http_opts \<Rightarrow> http_request \<Rightarrow> jstring \<Rightarrow> cache_entry option \<Rightarrow> int \<Rightarrow> int \<Rightarrow> http_reply \<Rightarrow> http_state
       \<Rightarrow> (perror + response) \<times> http_state" where
  "take_reply opts req host cached t u r s =
     (if ry_status r = 304 \<and> cached \<noteq> None then
        (let e = touch_entry u (the cached);
             s1 = s\<lparr>hs_cache := map (\<lambda>(k, x). (k, replace_id (ce_id e) (touch_entry u) x)) (hs_cache s),
                    hs_stats := (hs_stats s)\<lparr>st_notModified := Suc (st_notModified (hs_stats s))\<rparr>\<rparr>
         in (Inr (toResponse e True False 0 (u - t) None), s1))
      else
        (case (case status_error r u of
                 Some e \<Rightarrow> Inl e | None \<Rightarrow> readCapped r (max_bytes opts req)) of
           Inl e \<Rightarrow> (Inl e, fail_breaker host u e s)
         | Inr body \<Rightarrow>
             (let e = CacheEntry (hs_nextId s) (header_value (js ''etag'') (ry_headers r))
                        (header_value (js ''last-modified'') (ry_headers r)) (ry_status r)
                        (ry_headers r) body u None;
                  s1 = s\<lparr>hs_nextId := Suc (hs_nextId s)\<rparr>;
                  cacheable = ho_cacheEnabled opts \<and> rq_isGet req;
                  s2 = (if cacheable then store_entry opts (rq_key req) e s1 else s1)
              in (Inr (toResponse e False False 0 (u - t)
                    (if cacheable then Some (ce_id e) else None)), s2))))"

definition attempt_once ::
    "http_opts \<Rightarrow> http_request \<Rightarrow> jstring \<Rightarrow> cache_entry option \<Rightarrow> int \<times> int \<times> outcome \<Rightarrow> http_state
       \<Rightarrow> (perror + response) \<times> int option \<times> http_state" where
  "attempt_once opts req host cached script s =
     (case script of (t, u, out) \<Rightarrow>
        (case send_attempt host t s of
           (sentAfter, s1) \<Rightarrow>
             (case out of
                Replied r \<Rightarrow>
                  (case take_reply opts req host cached t u r s1 of (res, s2) \<Rightarrow> (res, sentAfter, s2))
              | Rejected c \<Rightarrow>
                  (let e = provider_error c None None
                   in (Inl e, sentAfter, fail_breaker host u e s1))
              | NoCredential \<Rightarrow> (Inl (final_error E_AUTH None), sentAfter, s1))))"

definition retryable_attempt :: "perror \<Rightarrow> bool" where
  "retryable_attempt e \<longleftrightarrow> pe_retryable e \<and> pe_code e \<noteq> E_RATE_LIMITED \<and> pe_code e \<noteq> E_CANCELLED"

text \<open>\<open>withRetry\<close>; a script that ends while another attempt is due is a request cancelled while it waits.\<close>

fun attempts ::
    "http_opts \<Rightarrow> http_request \<Rightarrow> jstring \<Rightarrow> cache_entry option \<Rightarrow> nat \<Rightarrow> int option
       \<Rightarrow> (int \<times> int \<times> outcome) list \<Rightarrow> http_state \<Rightarrow> (perror + response) \<times> int option \<times> http_state" where
  "attempts opts req host cached n sa [] s = (Inl (provider_error E_CANCELLED None None), sa, s)"
| "attempts opts req host cached n sa (a # as) s =
     (case attempt_once opts req host cached a s of
        (Inr r, sa1, s1) \<Rightarrow> (Inr r, sa1, s1)
      | (Inl e, sa1, s1) \<Rightarrow>
          if n \<ge> ho_maxRetries opts \<or> \<not> retryable_attempt e then (Inl e, sa1, s1)
          else attempts opts req host cached (Suc n) sa1 as s1)"

section \<open>What an outcome leaves behind\<close>

definition widenPace :: "jstring \<Rightarrow> int option \<Rightarrow> http_state \<Rightarrow> http_state" where
  "widenPace host refusedGap s =
     (let from = max (max (case map_of (hs_pace s) host of Some g \<Rightarrow> g | None \<Rightarrow> 0)
                          (case refusedGap of Some g \<Rightarrow> of_int g | None \<Rightarrow> 0)) PACE_MIN_MS
      in s\<lparr>hs_pace := AList.update host (min PACE_MAX_MS (from * 2)) (hs_pace s)\<rparr>)"

definition relaxPace :: "jstring \<Rightarrow> http_state \<Rightarrow> http_state" where
  "relaxPace host s =
     (case map_of (hs_pace s) host of
        None \<Rightarrow> s
      | Some gap \<Rightarrow>
          (let next = gap * PACE_RELAX
           in if next < PACE_MIN_MS then s\<lparr>hs_pace := AList.delete host (hs_pace s)\<rparr>
              else s\<lparr>hs_pace := AList.update host next (hs_pace s)\<rparr>))"

definition serveStale ::
    "http_opts \<Rightarrow> http_request \<Rightarrow> cache_entry option \<Rightarrow> int \<Rightarrow> perror \<Rightarrow> http_state
       \<Rightarrow> (perror + response) \<times> http_state" where
  "serveStale opts req cached now e s =
     (case cached of
        None \<Rightarrow> (Inl e, s)
      | Some c \<Rightarrow>
          if rq_allowStale req \<and> ho_staleMs opts > 0 \<and> now - ce_storedAt c \<le> ho_staleMs opts
          then (Inr (toResponse c True True (now - ce_storedAt c) 0 None),
                s\<lparr>hs_stats := (hs_stats s)\<lparr>st_staleServed := Suc (st_staleServed (hs_stats s))\<rparr>\<rparr>)
          else (Inl e, s))"

definition conclude ::
    "http_opts \<Rightarrow> http_request \<Rightarrow> jstring \<Rightarrow> cache_entry option \<Rightarrow> int \<Rightarrow> (perror + response) \<Rightarrow> int option
       \<Rightarrow> http_state \<Rightarrow> (perror + response) \<times> http_state" where
  "conclude opts req host cached now res sentAfter s =
     (case res of
        Inr r \<Rightarrow> (Inr r, relaxPace host (set_breaker host (recordSuccess (breaker_of host s)) s))
      | Inl e \<Rightarrow>
          (let s1 = s\<lparr>hs_stats := (hs_stats s)\<lparr>st_failures := Suc (st_failures (hs_stats s))\<rparr>\<rparr>
           in if pe_code e = E_CANCELLED then (Inl e, s1)
              else if (case pe_httpStatus e of Some st \<Rightarrow> st \<in> set (rq_emptyStatus req) | None \<Rightarrow> False)
              then (Inl e, s1)
              else
                (let s2 = (if pe_code e = E_RATE_LIMITED \<and> pe_httpStatus e = Some 429
                           then widenPace host sentAfter
                             (s1\<lparr>hs_retryAt := AList.update host
                                (of_int now + min (case pe_retryAfterMs e of Some d \<Rightarrow> d | None \<Rightarrow> 45000)
                                   MAX_RETRY_AFTER_MS) (hs_retryAt s1)\<rparr>)
                           else s1)
                 in serveStale opts req cached now e s2)))"

text \<open>One request from the checks to its outcome: the script's times, and when it ends.\<close>

record exchange =
  ex_request :: http_request
  ex_begin :: int
  ex_online :: bool
  ex_script :: "(int \<times> int \<times> outcome) list"
  ex_end :: int

definition cached_for :: "http_opts \<Rightarrow> http_request \<Rightarrow> http_state \<Rightarrow> cache_entry option" where
  "cached_for opts req s = (if ho_cacheEnabled opts then map_of (hs_cache s) (rq_key req) else None)"

definition execute ::
    "http_opts \<Rightarrow> (int \<Rightarrow> rat option \<Rightarrow> int) \<Rightarrow> jstring \<Rightarrow> exchange \<Rightarrow> http_state
       \<Rightarrow> (perror + response) \<times> http_state" where
  "execute opts wake host x s =
     (let req = ex_request x; cached = cached_for opts req s
      in case gate opts wake (ex_online x) host (ex_begin x) s of
           (Inl e, s1) \<Rightarrow> serveStale opts req cached (ex_end x) e s1
         | (Inr _, s1) \<Rightarrow>
             (case attempts opts req host cached 0 None (ex_script x) s1 of
                (res, sentAfter, s2) \<Rightarrow> conclude opts req host cached (ex_end x) res sentAfter s2))"

definition http_request_step ::
    "http_opts \<Rightarrow> (int \<Rightarrow> rat option \<Rightarrow> int) \<Rightarrow> exchange \<Rightarrow> http_state \<Rightarrow> (perror + response) \<times> http_state" where
  "http_request_step opts wake x s =
     (case check_request opts (ex_request x) of
        Inl e \<Rightarrow> (Inl e, s)
      | Inr host \<Rightarrow> execute opts wake host x s)"

text \<open>The consumer refuses a body it was given: the entry it came from is taken back.\<close>

definition invalidate :: "http_opts \<Rightarrow> jstring \<Rightarrow> nat option \<Rightarrow> http_state \<Rightarrow> http_state" where
  "invalidate opts key ident s =
     (case (ident, map_of (hs_cache s) key) of
        (Some i, Some e) \<Rightarrow>
          if ce_id e \<noteq> i then s
          else (case ce_previousGood e of
                  Some p \<Rightarrow> s\<lparr>hs_cache := AList.update key p (hs_cache s)\<rparr>
                | None \<Rightarrow> s\<lparr>hs_cache := AList.delete key (hs_cache s)\<rparr>)
      | _ \<Rightarrow> s)"

section \<open>Hosts are kept apart\<close>

type_synonym host_memory = "rat option \<times> rat option \<times> int option \<times> breaker"

definition host_view :: "jstring \<Rightarrow> http_state \<Rightarrow> host_memory" where
  "host_view h s = (map_of (hs_retryAt s) h, map_of (hs_pace s) h, map_of (hs_sentAt s) h,
     breaker_of h s)"

named_theorems host_frame \<open>what an operation on one host leaves of another\<close>

lemma host_view_stats [host_frame]:
  "host_view h (s\<lparr>hs_stats := x\<rparr>) = host_view h s"
  "host_view h (s\<lparr>hs_cache := y\<rparr>) = host_view h s"
  "host_view h (s\<lparr>hs_nextId := n\<rparr>) = host_view h s"
  "host_view h (s\<lparr>hs_limiter := l\<rparr>) = host_view h s"
  "host_view h (s\<lparr>hs_shared := b\<rparr>) = host_view h s"
  "host_view h (count_paced s) = host_view h s"
  "host_view h (count_wait s) = host_view h s"
  "host_view h (store_entry opts key e s) = host_view h s"
  by (simp_all add: host_view_def breaker_of_def count_paced_def count_wait_def store_entry_def Let_def)

lemma host_view_set_breaker [host_frame]:
  "host \<noteq> h \<Longrightarrow> host_view h (set_breaker host b s) = host_view h s"
  by (simp add: host_view_def breaker_of_def set_breaker_def map_simps)

lemma host_view_fail [host_frame]:
  "host \<noteq> h \<Longrightarrow> host_view h (fail_breaker host now e s) = host_view h s"
  by (simp add: fail_breaker_def host_view_set_breaker)

text \<open>
  A view of the state that counting and taking from the rate limits leave alone; and one that
  all the checks before a request to \<open>host\<close> leave alone.
\<close>

locale unlimited =
  fixes view :: "http_state \<Rightarrow> 'v"
  assumes view_stats [simp]: "view (s\<lparr>hs_stats := x\<rparr>) = view s"
    and view_limiter [simp]: "view (s\<lparr>hs_limiter := l\<rparr>) = view s"
    and view_shared [simp]: "view (s\<lparr>hs_shared := b\<rparr>) = view s"
begin

lemma view_count [simp]: "view (count_paced s) = view s" "view (count_wait s) = view s"
  by (simp_all add: count_paced_def count_wait_def)

lemma view_limit: "limit_check opts wake host now s = (r, s') \<Longrightarrow> view s' = view s"
  by (auto simp: limit_check_def Let_def split: prod.splits if_splits option.splits)

lemma view_shared_check:
  "shared_check opts rpm wake host n now s = (r, s') \<Longrightarrow> view s' = view s"
proof (induction n arbitrary: now s)
  case 0
  then show ?case
    by (subst (asm) shared_check.simps) (auto simp: Let_def split: prod.splits if_splits)
next
  case (Suc m)
  obtain w b where a: "budget_tryAcquire (ho_sharedWindowMs opts) host rpm now (hs_shared s) = (w, b)"
    by (cases "budget_tryAcquire (ho_sharedWindowMs opts) host rpm now (hs_shared s)")
  show ?case
  proof (cases "w = Some 0 \<or> (case w of Some w \<Rightarrow> w > 10000 | None \<Rightarrow> False)")
    case True
    with Suc.prems a show ?thesis
      by (subst (asm) shared_check.simps) (auto simp: Let_def split: if_splits)
  next
    case False
    with Suc.prems a have "shared_check opts rpm wake host m (wake now (map_option of_int w))
        (count_wait (s\<lparr>hs_shared := b\<rparr>)) = (r, s')"
      by (subst (asm) shared_check.simps) (auto simp: Let_def split: if_splits)
    from Suc.IH [OF this] show ?thesis by simp
  qed
qed

end

locale untouched = unlimited view for view :: "http_state \<Rightarrow> 'v" +
  fixes host :: jstring
  assumes view_breaker [simp]: "view (set_breaker host br s) = view s"
    and view_retry [simp]: "view (s\<lparr>hs_retryAt := AList.delete host (hs_retryAt s)\<rparr>) = view s"
begin

lemma view_pace_check: "pace_check online host now s = (r, s') \<Longrightarrow> view s' = view s"
  by (auto simp: pace_check_def split: if_splits option.splits)

lemma view_circuit: "circuit_check host now s = (r, s') \<Longrightarrow> view s' = view s"
  by (auto simp: circuit_check_def Let_def split: prod.splits if_splits)

lemma view_gate:
  assumes "gate opts wake online host now s = (r, s')"
  shows "view s' = view s"
proof -
  obtain r1 s1 where p: "pace_check online host now s = (r1, s1)"
    by (cases "pace_check online host now s")
  note v1 = view_pace_check [OF p]
  show ?thesis
  proof (cases "r1 = Inl (projl r1) \<or> gap_left host now s1 > PACE_SLACK_MS")
    case True
    with assms p v1 show ?thesis by (cases r1) (auto simp: gate_def Let_def)
  next
    case False
    then obtain x where r1: "r1 = Inr x" by (cases r1) auto
    define now2 where "now2 = (if gap_left host now s1 > 0 then wake now (Some (gap_left host now s1)) else now)"
    obtain r2 s2 where c: "circuit_check host now2 s1 = (r2, s2)"
      by (cases "circuit_check host now2 s1")
    note v2 = view_circuit [OF c]
    obtain r3 s3 where l: "limit_check opts wake host now2 s2 = (r3, s3)"
      by (cases "limit_check opts wake host now2 s2")
    note v3 = view_limit [OF l]
    have g: "gate opts wake online host now s = (case r2 of Inl e \<Rightarrow> (Inl e, s2) | Inr _ \<Rightarrow>
        (case r3 of Inl e \<Rightarrow> (Inl e, s3) | Inr now3 \<Rightarrow>
          (case ho_sharedPerMinute opts of None \<Rightarrow> (Inr now3, s3)
           | Some rpm \<Rightarrow> shared_check opts rpm wake host 3 now3 s3)))"
      using p r1 c l False by (cases r2; cases r3) (simp_all add: gate_def Let_def now2_def)
    show ?thesis
      using assms v1 v2 v3 unfolding g
      by (auto dest: view_shared_check split: sum.splits option.splits)
  qed
qed

end

locale untouched_by_attempts = untouched +
  assumes view_sent [simp]: "view (s\<lparr>hs_sentAt := AList.update host t (hs_sentAt s)\<rparr>) = view s"
    and view_cache [simp]: "view (s\<lparr>hs_cache := c\<rparr>) = view s"
    and view_id [simp]: "view (s\<lparr>hs_nextId := n\<rparr>) = view s"
begin

lemma view_send: "view (snd (send_attempt host t s)) = view s"
proof -
  have "snd (send_attempt host t s) = (s\<lparr>hs_sentAt := AList.update host t (hs_sentAt s)\<rparr>)
      \<lparr>hs_stats := (hs_stats s)\<lparr>st_requests := Suc (st_requests (hs_stats s))\<rparr>\<rparr>"
    by (simp add: send_attempt_def)
  then show ?thesis by (simp only: view_stats view_sent)
qed

lemma view_fail [simp]: "view (fail_breaker host now e s) = view s"
  by (simp add: fail_breaker_def)

lemma view_store [simp]: "view (store_entry opts key e s) = view s"
  by (simp add: store_entry_def Let_def)

lemma view_not_modified: "view (s\<lparr>hs_cache := c, hs_stats := x\<rparr>) = view s"
  using view_stats [of x "s\<lparr>hs_cache := c\<rparr>"] by simp

lemma view_reply:
  "take_reply opts req host cached t u r s = (x, s') \<Longrightarrow> view s' = view s"
  by (auto simp: take_reply_def Let_def view_not_modified split: if_splits sum.splits)

lemma view_attempt:
  assumes "attempt_once opts req host cached a s = (r, sa, s')"
  shows "view s' = view s"
proof -
  obtain t u x where a: "a = (t, u, x)" by (cases a)
  obtain sa1 s1 where st: "send_attempt host t s = (sa1, s1)" by (cases "send_attempt host t s")
  have "view s1 = view s" using view_send [of t s] st by simp
  with assms a st show ?thesis
    by (cases x) (auto simp: attempt_once_def Let_def dest: view_reply split: prod.splits)
qed

lemma view_attempts:
  "attempts opts req host cached n sa as s = (r, sa', s') \<Longrightarrow> view s' = view s"
proof (induction as arbitrary: n sa s)
  case (Cons a as)
  obtain r1 sa1 s1 where a: "attempt_once opts req host cached a s = (r1, sa1, s1)"
    by (cases "attempt_once opts req host cached a s")
  note v = view_attempt [OF a]
  show ?case
  proof (cases r1)
    case (Inr x)
    with Cons.prems a v show ?thesis by simp
  next
    case (Inl e)
    with Cons a v show ?thesis by (auto split: if_splits)
  qed
qed simp

end

text \<open>What is remembered of another host, and the gaps kept between requests.\<close>

definition other_view :: "jstring \<Rightarrow> jstring \<Rightarrow> http_state \<Rightarrow> host_memory option" where
  "other_view h host s = (if host = h then None else Some (host_view h s))"

interpretation other: untouched_by_attempts "other_view h host" host for h host
  by unfold_locales (auto simp: other_view_def host_view_def breaker_of_def set_breaker_def map_simps)

interpretation gaps: untouched_by_attempts hs_pace host for host
  by unfold_locales (auto simp: set_breaker_def)

lemma host_view_gate:
  "gate opts wake online host now s = (r, s') \<Longrightarrow> host \<noteq> h \<Longrightarrow> host_view h s' = host_view h s"
  using other.view_gate [of opts wake online host now s r s' h] by (simp add: other_view_def)

lemma host_view_attempts:
  "attempts opts req host cached n sa as s = (r, sa', s') \<Longrightarrow> host \<noteq> h \<Longrightarrow>
   host_view h s' = host_view h s"
  using other.view_attempts [of opts req host cached n sa as s r sa' s' h] by (simp add: other_view_def)

lemma host_view_stale [host_frame]:
  "host_view h (snd (serveStale opts req cached now e s)) = host_view h s"
  by (auto simp: serveStale_def host_frame split: option.splits)

lemma host_view_conclude [host_frame]:
  "host \<noteq> h \<Longrightarrow> host_view h (snd (conclude opts req host cached now res sa s)) = host_view h s"
  by (auto simp: conclude_def Let_def host_frame relaxPace_def widenPace_def split: sum.splits option.splits)
    (auto simp: host_view_def breaker_of_def set_breaker_def map_simps)

lemma host_view_execute:
  "host \<noteq> h \<Longrightarrow> host_view h (snd (execute opts wake host x s)) = host_view h s"
  by (auto simp: execute_def Let_def host_frame split: prod.splits sum.splits)
    (metis host_view_gate host_view_attempts)+

section \<open>Runs\<close>

datatype http_call =
    Request exchange
  | Invalidated jstring "nat option"
  | ClearCache

definition client_step ::
    "http_opts \<Rightarrow> (int \<Rightarrow> rat option \<Rightarrow> int) \<Rightarrow> http_call \<Rightarrow> http_state \<Rightarrow> (perror + response) option \<times> http_state" where
  "client_step opts wake c s =
     (case c of
        Request x \<Rightarrow> (case http_request_step opts wake x s of (r, s') \<Rightarrow> (Some r, s'))
      | Invalidated key i \<Rightarrow> (None, invalidate opts key i s)
      | ClearCache \<Rightarrow> (None, s\<lparr>hs_cache := []\<rparr>))"

definition client_run ::
    "http_opts \<Rightarrow> (int \<Rightarrow> rat option \<Rightarrow> int) \<Rightarrow> http_call list \<Rightarrow> http_state \<Rightarrow> http_state" where
  "client_run opts wake cs s = foldl (\<lambda>s c. snd (client_step opts wake c s)) s cs"

lemma client_run_simps [simp]:
  "client_run opts wake [] s = s"
  "client_run opts wake (c # cs) s = client_run opts wake cs (snd (client_step opts wake c s))"
  by (simp_all add: client_run_def)

lemma run_invariant:
  assumes "\<And>c s. P s \<Longrightarrow> c \<in> set cs \<Longrightarrow> P (snd (client_step opts wake c s))" and "P s"
  shows "P (client_run opts wake cs s)"
  using assms by (induction cs arbitrary: s) auto

definition goes_to :: "http_opts \<Rightarrow> jstring \<Rightarrow> http_call \<Rightarrow> bool" where
  "goes_to opts host c \<longleftrightarrow>
     (case c of Request x \<Rightarrow> check_request opts (ex_request x) = Inr host | _ \<Rightarrow> False)"

lemma host_view_invalidate [host_frame]: "host_view h (invalidate opts key i s) = host_view h s"
  by (auto simp: invalidate_def host_frame split: option.splits)

lemma host_view_call:
  "\<not> goes_to opts h c \<Longrightarrow> host_view h (snd (client_step opts wake c s)) = host_view h s"
  by (auto simp: client_step_def goes_to_def http_request_step_def host_frame host_view_execute
      split: http_call.splits sum.splits prod.splits)
    (metis host_view_execute snd_conv)

section \<open>Retry-After\<close>

text \<open>The host is left alone until a time: what a request that begins before it does.\<close>

lemma execute_blocked:
  assumes "map_of (hs_retryAt s) host = Some until" and "of_int (ex_begin x) < until"
  shows "host_view host (snd (execute opts wake host x s)) = host_view host s \<and>
    (\<forall>r. fst (execute opts wake host x s) = Inr r \<longrightarrow> rs_fromCache r \<and> rs_stale r) \<and>
    st_requests (hs_stats (snd (execute opts wake host x s))) = st_requests (hs_stats s)"
proof -
  let ?e = "if ex_online x then provider_error E_RATE_LIMITED (Some 429) (Some (until - of_int (ex_begin x)))
    else provider_error E_OFFLINE None None"
  have "gate opts wake (ex_online x) host (ex_begin x) s = (Inl ?e, s)"
    using assms by (simp add: gate_def pace_check_def)
  then have "execute opts wake host x s =
      serveStale opts (ex_request x) (cached_for opts (ex_request x) s) (ex_end x) ?e s"
    by (simp add: execute_def Let_def)
  then show ?thesis
    by (auto simp: serveStale_def toResponse_def host_frame split: option.splits if_splits)
qed

lemma blocked_call:
  assumes "map_of (hs_retryAt s) host = Some until"
    and "goes_to opts host c \<longrightarrow> (\<exists>x. c = Request x \<and> of_int (ex_begin x) < until)"
  shows "host_view host (snd (client_step opts wake c s)) = host_view host s"
proof (cases "goes_to opts host c")
  case True
  with assms(2) obtain x where "c = Request x" "of_int (ex_begin x) < until" by blast
  with True execute_blocked [OF assms(1), of x opts wake] show ?thesis
    by (auto simp: client_step_def http_request_step_def goes_to_def split: prod.splits)
qed (rule host_view_call)

definition answered_429 ::
    "http_opts \<Rightarrow> (int \<Rightarrow> rat option \<Rightarrow> int) \<Rightarrow> jstring \<Rightarrow> exchange \<Rightarrow> rat \<Rightarrow> http_state \<Rightarrow> bool" where
  "answered_429 opts wake host x ra s \<longleftrightarrow>
     (\<exists>t s1 e sa s2. gate opts wake (ex_online x) host (ex_begin x) s = (Inr t, s1) \<and>
        attempts opts (ex_request x) host (cached_for opts (ex_request x) s) 0 None (ex_script x) s1
          = (Inl e, sa, s2) \<and>
        pe_code e = E_RATE_LIMITED \<and> pe_httpStatus e = Some 429 \<and> pe_retryAfterMs e = Some ra \<and>
        429 \<notin> set (rq_emptyStatus (ex_request x)))"

lemma execute_429:
  assumes "answered_429 opts wake host x ra s"
  shows "map_of (hs_retryAt (snd (execute opts wake host x s))) host =
    Some (of_int (ex_end x) + min ra MAX_RETRY_AFTER_MS)"
proof -
  have stale: "hs_retryAt (snd (serveStale opts req cached now e s)) = hs_retryAt s" for req cached now e s
    by (auto simp: serveStale_def split: option.splits)
  from assms show ?thesis
    by (auto simp: answered_429_def execute_def Let_def conclude_def stale widenPace_def map_simps)
qed


section \<open>Pacing\<close>

definition pace_ok :: "http_state \<Rightarrow> bool" where
  "pace_ok s \<longleftrightarrow> (\<forall>h g. map_of (hs_pace s) h = Some g \<longrightarrow> PACE_MIN_MS \<le> g \<and> g \<le> PACE_MAX_MS)"

lemmas pace_consts = PACE_MIN_MS_def PACE_MAX_MS_def PACE_RELAX_def

lemma pace_widen: "pace_ok s \<Longrightarrow> pace_ok (widenPace h g s)"
  by (auto simp: pace_ok_def widenPace_def Let_def map_simps pace_consts split: if_splits)

lemma pace_relax: "pace_ok s \<Longrightarrow> pace_ok (relaxPace h s)"
proof -
  assume p: "pace_ok s"
  have "g * PACE_RELAX \<le> PACE_MAX_MS" if "map_of (hs_pace s) h = Some g" for g
  proof -
    from p that have "g \<le> 120000" by (auto simp: pace_ok_def pace_consts)
    then show ?thesis by (simp add: pace_consts)
  qed
  with p show ?thesis
    by (auto simp: pace_ok_def relaxPace_def Let_def map_simps pace_consts not_less split: option.splits if_splits)
qed

interpretation cache_kept: untouched hs_cache host for host
  by unfold_locales (auto simp: set_breaker_def)

interpretation sent_kept: untouched hs_sentAt host for host
  by unfold_locales (auto simp: set_breaker_def)

interpretation breaker_limits: unlimited "breaker_of host" for host
  by unfold_locales (auto simp: breaker_of_def)

lemma stale_kept [simp]:
  "hs_pace (snd (serveStale opts req cached now e s)) = hs_pace s"
  "hs_sentAt (snd (serveStale opts req cached now e s)) = hs_sentAt s"
  "hs_cache (snd (serveStale opts req cached now e s)) = hs_cache s"
  "breaker_of h (snd (serveStale opts req cached now e s)) = breaker_of h s"
  by (auto simp: serveStale_def breaker_of_def split: option.splits)

lemma pace_cong: "hs_pace s' = hs_pace s \<Longrightarrow> pace_ok s' = pace_ok s"
  by (simp add: pace_ok_def)

lemma pace_conclude:
  assumes "pace_ok s"
  shows "pace_ok (snd (conclude opts req host cached now res sa s))"
proof (cases res)
  case (Inr r)
  have "pace_ok (set_breaker host (recordSuccess (breaker_of host s)) s)"
    using assms by (simp add: pace_ok_def set_breaker_def)
  with Inr show ?thesis by (simp add: conclude_def pace_relax)
next
  case (Inl e)
  define s1 where "s1 = s\<lparr>hs_stats := (hs_stats s)\<lparr>st_failures := Suc (st_failures (hs_stats s))\<rparr>\<rparr>"
  have s1: "pace_ok s1" "pace_ok (s1\<lparr>hs_retryAt := x\<rparr>)" for x
    using assms by (simp_all add: pace_ok_def s1_def)
  have stale: "pace_ok (snd (serveStale opts req cached now e s')) = pace_ok s'" for s'
    by (rule pace_cong) simp
  show ?thesis
    using Inl s1 by (auto simp: conclude_def Let_def stale pace_widen s1_def [symmetric])
qed

lemma pace_execute: "pace_ok s \<Longrightarrow> pace_ok (snd (execute opts wake host x s))"
proof -
  assume ok: "pace_ok s"
  obtain r s1 where g: "gate opts wake (ex_online x) host (ex_begin x) s = (r, s1)"
    by (cases "gate opts wake (ex_online x) host (ex_begin x) s")
  then have s1: "pace_ok s1" using ok pace_cong gaps.view_gate by blast
  show ?thesis
  proof (cases r)
    case (Inl e)
    have "pace_ok (snd (serveStale opts req cached now e s1))" for req cached now
      using s1 pace_cong stale_kept(1) by blast
    with Inl g show ?thesis by (simp add: execute_def Let_def)
  next
    case (Inr t)
    obtain res sa s2 where a: "attempts opts (ex_request x) host (cached_for opts (ex_request x) s) 0 None
        (ex_script x) s1 = (res, sa, s2)"
      by (cases "attempts opts (ex_request x) host (cached_for opts (ex_request x) s) 0 None (ex_script x) s1")
    then have "pace_ok s2" using s1 pace_cong gaps.view_attempts by blast
    with Inr g a show ?thesis by (simp add: execute_def Let_def pace_conclude)
  qed
qed

lemma pace_run: "pace_ok (client_run opts wake cs new_client)"
proof (rule run_invariant [where P = pace_ok])
  show "pace_ok (snd (client_step opts wake c s))" if "pace_ok s" for c s
    using that pace_execute [OF that]
    by (auto simp: client_step_def http_request_step_def split: http_call.splits sum.splits prod.splits)
      (metis snd_conv, auto simp: pace_ok_def invalidate_def split: option.splits)
qed (simp add: pace_ok_def new_client_def)

lemma conclude_429_pace:
  assumes "answered_429 opts wake host x ra s"
  shows "\<exists>g. map_of (hs_pace (snd (execute opts wake host x s))) host = Some g \<and> 2000 \<le> g \<and>
    (\<forall>g0. map_of (hs_pace s) host = Some g0 \<longrightarrow> min PACE_MAX_MS (2 * g0) \<le> g)"
proof -
  from assms obtain t s1 e sa s2 where g: "gate opts wake (ex_online x) host (ex_begin x) s = (Inr t, s1)"
    and a: "attempts opts (ex_request x) host (cached_for opts (ex_request x) s) 0 None (ex_script x) s1
          = (Inl e, sa, s2)"
    and e: "pe_code e = E_RATE_LIMITED" "pe_httpStatus e = Some 429" "429 \<notin> set (rq_emptyStatus (ex_request x))"
    by (auto simp: answered_429_def)
  have p: "hs_pace s2 = hs_pace s"
    using gaps.view_gate [OF g] gaps.view_attempts [OF a] by simp
  show ?thesis
    using g a e by (auto simp: execute_def Let_def conclude_def widenPace_def map_simps pace_consts p max_def min_def)
qed

lemma execute_paced:
  assumes "map_of (hs_pace s) host = Some g" and "map_of (hs_sentAt s) host = Some l"
    and "of_int (ex_begin y) + PACE_SLACK_MS < of_int l + g"
  shows "hs_sentAt (snd (execute opts wake host y s)) = hs_sentAt s"
proof -
  obtain r s1 where p: "pace_check (ex_online y) host (ex_begin y) s = (r, s1)"
    by (cases "pace_check (ex_online y) host (ex_begin y) s")
  have "hs_pace s1 = hs_pace s" "hs_sentAt s1 = hs_sentAt s"
    using gaps.view_pace_check [OF p] sent_kept.view_pace_check [OF p] by auto
  then have "gap_left host (ex_begin y) s1 > PACE_SLACK_MS" using assms by (simp add: gap_left_def)
  with p obtain e s2 where g: "gate opts wake (ex_online y) host (ex_begin y) s = (Inl e, s2)"
    by (cases r) (auto simp: gate_def Let_def)
  with sent_kept.view_gate [OF g] show ?thesis by (simp add: execute_def Let_def)
qed

text \<open>
  C29: Pacing after a 429. In every state a client can reach the gap kept for a host is between
  one second and two minutes. An exchange answered 429 sets a gap of at least two seconds that is
  at least twice the gap kept before (up to two minutes), and a request to that host that begins
  more than two seconds before the gap since the last request is over is not sent.
\<close>
theorem pacing:
  assumes "s = client_run opts wake cs new_client" and "answered_429 opts wake host x ra s"
  shows "\<exists>g. map_of (hs_pace (snd (execute opts wake host x s))) host = Some g \<and>
    2000 \<le> g \<and> g \<le> PACE_MAX_MS \<and>
    (\<forall>g0. map_of (hs_pace s) host = Some g0 \<longrightarrow> PACE_MIN_MS \<le> g0 \<and> min PACE_MAX_MS (2 * g0) \<le> g) \<and>
    (\<forall>l y. map_of (hs_sentAt (snd (execute opts wake host x s))) host = Some l \<and>
       of_int (ex_begin y) + PACE_SLACK_MS < of_int l + g \<longrightarrow>
       hs_sentAt (snd (execute opts wake host y (snd (execute opts wake host x s)))) =
         hs_sentAt (snd (execute opts wake host x s)))"
proof -
  have ok: "pace_ok s" unfolding assms(1) by (rule pace_run)
  obtain g where g: "map_of (hs_pace (snd (execute opts wake host x s))) host = Some g" "2000 \<le> g"
    "\<forall>g0. map_of (hs_pace s) host = Some g0 \<longrightarrow> min PACE_MAX_MS (2 * g0) \<le> g"
    using conclude_429_pace [OF assms(2)] by blast
  have "g \<le> PACE_MAX_MS" using pace_execute [OF ok] g(1) by (auto simp: pace_ok_def)
  moreover have "PACE_MIN_MS \<le> g0" if "map_of (hs_pace s) host = Some g0" for g0
    using ok that by (auto simp: pace_ok_def)
  ultimately show ?thesis using g execute_paced [OF g(1)] by blast
qed

section \<open>A client for the witnesses\<close>

definition plain_opts :: http_opts where
  "plain_opts = \<lparr>ho_allowedHosts = [js ''a.org''], ho_trustedHosts = [], ho_maxRetries = 2,
     ho_requestsPerMinute = 120, ho_sharedPerMinute = None, ho_staleMs = 0, ho_cacheEnabled = True,
     ho_cacheMax = 256, ho_defaultMaxBytes = 8388608, ho_hardMaxBytes = 67108864,
     ho_sharedWindowMs = 60000\<rparr>"

definition plain_reply :: "nat \<Rightarrow> http_reply" where
  "plain_reply st = \<lparr>ry_status = st, ry_headers = [], ry_retryAfter = RetrySeconds 5,
     ry_contentLength = None, ry_chunks = [[1, 2]]\<rparr>"

definition plain_exchange :: "int \<Rightarrow> nat \<Rightarrow> exchange" where
  "plain_exchange t st = \<lparr>ex_request = \<lparr>rq_url = Some \<lparr>pu_protocol = js ''https:'', pu_hostname = js ''a.org''\<rparr>,
       rq_key = [], rq_isGet = True, rq_allowStale = True, rq_emptyStatus = [], rq_maxBytes = None,
       rq_aborted = False\<rparr>,
     ex_begin = t, ex_online = True, ex_script = [(t, t + 1, Replied (plain_reply st))], ex_end = t + 1\<rparr>"

lemmas plain_defs = plain_opts_def plain_reply_def plain_exchange_def

lemma plain_gate:
  assumes "map_of (hs_retryAt s) h = None" "map_of (hs_pace s) h = None"
    and "fst (allow breaker_options t (breaker_of h s))" "hs_limiter s = new_limiter"
  shows "\<exists>s1. gate plain_opts wake True h t s = (Inr t, s1)"
  using assms
  by (cases "allow breaker_options t (breaker_of h s)")
    (simp add: gate_def pace_check_def gap_left_def PACE_SLACK_MS_def circuit_check_def
      limit_check_def limiter_tryAcquire_def new_limiter_def client_limits_def plain_opts_def Let_def
      set_breaker_def open_bucket_def)

lemma plain_429: "answered_429 plain_opts wake h (plain_exchange t 429) 5000 new_client"
proof -
  obtain s1 where "gate plain_opts wake True h t new_client = (Inr t, s1)"
    using plain_gate [of new_client h t]
    by (auto simp: new_client_def breaker_of_def allow_def breaker_state_def new_breaker_def)
  then show ?thesis
    by (simp add: answered_429_def plain_exchange_def plain_reply_def attempt_once_def send_attempt_def
        take_reply_def status_error_def provider_error_def parseRetryAfter_def retryable_attempt_def Let_def)
qed


theorem pacing_witness:
  "\<exists>g. map_of (hs_pace (snd (execute plain_opts (\<lambda>t ms. t) (js ''a.org'') (plain_exchange 10 429) new_client)))
      (js ''a.org'') = Some g \<and> 2000 \<le> g \<and> g \<le> PACE_MAX_MS"
proof -
  have "new_client = client_run plain_opts (\<lambda>t ms. t) [] new_client" by simp
  from pacing [OF this plain_429] show ?thesis by blast
qed

section \<open>A probe that is refused\<close>

definition stuck :: "jstring \<Rightarrow> http_state \<Rightarrow> bool" where
  "stuck host s \<longleftrightarrow> cb_openedAt (breaker_of host s) \<noteq> None \<and> cb_probing (breaker_of host s)"

lemma breaker_of_set [simp]: "breaker_of host (set_breaker host b s) = b"
  by (simp add: breaker_of_def set_breaker_def map_simps)

lemma breaker_pace_check:
  "pace_check online host now s = (r, s') \<Longrightarrow> breaker_of h s' = breaker_of h s"
  by (auto simp: pace_check_def breaker_of_def split: if_splits option.splits)

text \<open>The checks after the circuit's leave the breaker; the circuit's own sets the probe.\<close>

lemma gate_breaker:
  assumes "gate opts wake online host now s = (r, s')" and "cb_openedAt (breaker_of host s) \<noteq> None"
  shows "(stuck host s \<longrightarrow> (\<exists>e. r = Inl e)) \<and>
    ((\<exists>t. r = Inr t) \<or> stuck host s \<longrightarrow> stuck host s')"
proof -
  obtain r1 s1 where p: "pace_check online host now s = (r1, s1)"
    by (cases "pace_check online host now s")
  note b1 = breaker_pace_check [OF p, of host]
  show ?thesis
  proof (cases "r1 = Inl (projl r1) \<or> gap_left host now s1 > PACE_SLACK_MS")
    case True
    with assms p b1 show ?thesis
      by (cases r1) (auto simp: gate_def Let_def stuck_def count_paced_def breaker_of_def)
  next
    case False
    then obtain x where r1: "r1 = Inr x" by (cases r1) auto
    define now2 where "now2 = (if gap_left host now s1 > 0 then wake now (Some (gap_left host now s1)) else now)"
    obtain r2 s2 where c: "circuit_check host now2 s1 = (r2, s2)"
      by (cases "circuit_check host now2 s1")
    have b2: "(stuck host s \<longrightarrow> (\<exists>e. r2 = Inl e)) \<and> ((\<exists>u. r2 = Inr u) \<or> stuck host s \<longrightarrow> stuck host s2)"
      using c assms(2) b1
      by (auto simp: circuit_check_def allow_def breaker_state_def stuck_def Let_def split: if_splits option.splits)
    obtain r3 s3 where l: "limit_check opts wake host now2 s2 = (r3, s3)"
      by (cases "limit_check opts wake host now2 s2")
    have b3: "breaker_of host s3 = breaker_of host s2" by (rule breaker_limits.view_limit [OF l])
    have "gate opts wake online host now s = (case r2 of Inl e \<Rightarrow> (Inl e, s2) | Inr _ \<Rightarrow>
        (case r3 of Inl e \<Rightarrow> (Inl e, s3) | Inr now3 \<Rightarrow>
          (case ho_sharedPerMinute opts of None \<Rightarrow> (Inr now3, s3)
           | Some rpm \<Rightarrow> shared_check opts rpm wake host 3 now3 s3)))"
      using p r1 c l False by (cases r2; cases r3) (simp_all add: gate_def Let_def now2_def)
    then have g: "(r, s') = (case r2 of Inl e \<Rightarrow> (Inl e, s2) | Inr _ \<Rightarrow>
        (case r3 of Inl e \<Rightarrow> (Inl e, s3) | Inr now3 \<Rightarrow>
          (case ho_sharedPerMinute opts of None \<Rightarrow> (Inr now3, s3)
           | Some rpm \<Rightarrow> shared_check opts rpm wake host 3 now3 s3)))"
      by (simp only: assms(1))
    show ?thesis
    proof (cases r2)
      case (Inl e)
      with g b2 show ?thesis by auto
    next
      case (Inr u)
      with b2 have st2: "stuck host s2" "\<not> stuck host s" by auto
      have "breaker_of host s' = breaker_of host s3"
        using g Inr breaker_limits.view_shared_check [of opts _ wake host 3 _ s3 r s' host]
        by (auto split: sum.splits option.splits)
      with st2 b3 show ?thesis by (auto simp: stuck_def)
    qed
  qed
qed

lemma execute_stuck:
  assumes "stuck host s"
  shows "stuck host (snd (execute opts wake host x s)) \<and>
    hs_sentAt (snd (execute opts wake host x s)) = hs_sentAt s"
proof -
  obtain r s1 where g: "gate opts wake (ex_online x) host (ex_begin x) s = (r, s1)"
    by (cases "gate opts wake (ex_online x) host (ex_begin x) s")
  with gate_breaker [OF g] assms obtain e where "r = Inl e" "stuck host s1"
    by (auto simp: stuck_def)
  with g sent_kept.view_gate [OF g] show ?thesis
    by (auto simp: execute_def Let_def stuck_def)
qed

lemma host_view_stuck: "host_view host s' = host_view host s \<Longrightarrow> stuck host s' = stuck host s"
  by (simp add: host_view_def stuck_def)

lemma call_stuck:
  assumes "stuck host s"
  shows "stuck host (snd (client_step opts wake c s)) \<and>
    map_of (hs_sentAt (snd (client_step opts wake c s))) host = map_of (hs_sentAt s) host"
proof (cases "goes_to opts host c")
  case True
  then obtain x where "c = Request x" "check_request opts (ex_request x) = Inr host"
    by (auto simp: goes_to_def split: http_call.splits)
  with execute_stuck [OF assms, of opts wake x] show ?thesis
    by (auto simp: client_step_def http_request_step_def split: prod.splits)
next
  case False
  from host_view_call [OF this, of wake s] assms show ?thesis
    by (auto simp: host_view_def stuck_def)
qed


definition tripped_client :: http_state where
  "tripped_client = new_client\<lparr>hs_breakers := [(js ''a.org'',
     \<lparr>cb_failures = 0, cb_trips = 1, cb_openedAt = Some 0, cb_probing = False\<rparr>)]\<rparr>"


section \<open>The response cache\<close>

definition entry_ok :: "nat \<Rightarrow> cache_entry \<Rightarrow> bool" where
  "entry_ok mx e \<longleftrightarrow> length (ce_body e) \<le> mx \<and>
     (case ce_previousGood e of None \<Rightarrow> True
      | Some p \<Rightarrow> length (ce_body p) \<le> mx \<and> ce_previousGood p = None)"

definition cache_ok :: "http_opts \<Rightarrow> http_state \<Rightarrow> bool" where
  "cache_ok opts s \<longleftrightarrow> length (hs_cache s) \<le> ho_cacheMax opts \<and> distinct (map fst (hs_cache s)) \<and>
     (\<forall>ke \<in> set (hs_cache s). entry_ok (ho_hardMaxBytes opts) (snd ke))"

lemma cache_ok_lookup:
  "cache_ok opts s \<Longrightarrow> map_of (hs_cache s) k = Some e \<Longrightarrow> entry_ok (ho_hardMaxBytes opts) e"
  by (auto simp: cache_ok_def dest!: map_of_SomeD)

lemma cache_cong: "hs_cache s' = hs_cache s \<Longrightarrow> cache_ok opts s' = cache_ok opts s"
  by (simp add: cache_ok_def)

lemma read_chunks_length: "read_chunks mx n cs = Some b \<Longrightarrow> n \<le> mx \<Longrightarrow> n + length b \<le> mx"
  by (induction mx n cs arbitrary: b rule: read_chunks.induct) (auto split: if_splits)

lemma readCapped_length: "readCapped r mx = Inr b \<Longrightarrow> length b \<le> mx"
  using read_chunks_length [of mx 0 "ry_chunks r" b]
  by (auto simp: readCapped_def split: if_splits option.splits)

lemma evict_ok: "length (evict mx es) \<le> mx" "set (evict mx es) \<subseteq> set es"
  "distinct (map fst es) \<Longrightarrow> distinct (map fst (evict mx es))"
  by (auto simp: evict_def drop_map [symmetric] dest: in_set_dropD)

lemma cache_store:
  assumes "cache_ok opts s" and "length (ce_body e) \<le> ho_hardMaxBytes opts"
  shows "cache_ok opts (store_entry opts key e s)"
proof -
  define e1 where "e1 = CacheEntry (ce_id e) (ce_etag e) (ce_lastModified e) (ce_status e) (ce_headers e)
      (ce_body e) (ce_storedAt e) (map_option drop_previous (map_of (hs_cache s) key))"
  define es where "es = AList.delete key (hs_cache s) @ [(key, e1)]"
  have e1: "entry_ok (ho_hardMaxBytes opts) e1"
    using assms(2) cache_ok_lookup [OF assms(1), of key]
    by (auto simp: e1_def drop_previous_def entry_ok_def split: option.splits)
  have "distinct (map fst es)"
    using assms(1) by (auto simp: es_def cache_ok_def distinct_delete delete_keys dest: distinct_delete)
  moreover have "\<forall>ke \<in> set es. entry_ok (ho_hardMaxBytes opts) (snd ke)"
    using assms(1) e1 by (auto simp: es_def cache_ok_def AList.delete_eq)
  ultimately show ?thesis
    using evict_ok(1) [of "ho_cacheMax opts" es] evict_ok(2) [of "ho_cacheMax opts" es] evict_ok(3) [of es]
    unfolding cache_ok_def store_entry_def Let_def e1_def [symmetric] es_def [symmetric] by auto
qed

lemma cache_touch:
  assumes "cache_ok opts s"
  shows "cache_ok opts (s\<lparr>hs_cache := map (\<lambda>(k, x). (k, replace_id i (touch_entry u) x)) (hs_cache s)\<rparr>)"
proof -
  define f where "f = (\<lambda>(k :: jstring, x). (k, replace_id i (touch_entry u) x))"
  have f: "fst (f ke) = fst ke" "entry_ok mx (snd (f ke)) = entry_ok mx (snd ke)" for mx ke
    by (cases ke; simp add: f_def replace_id_def touch_entry_def entry_ok_def)+
  then have "fst \<circ> f = fst" by auto
  with f(2) assms show ?thesis
    unfolding f_def [symmetric] cache_ok_def by simp
qed

lemma cache_fail: "hs_cache (fail_breaker host now e s) = hs_cache s"
  by (simp add: fail_breaker_def set_breaker_def)

lemma cache_reply:
  assumes "take_reply opts req host cached t u r s = (res, s')" and "cache_ok opts s"
    and "\<forall>e. cached = Some e \<longrightarrow> length (ce_body e) \<le> ho_hardMaxBytes opts"
  shows "cache_ok opts s' \<and> (\<forall>x. res = Inr x \<longrightarrow> length (rs_body x) \<le> ho_hardMaxBytes opts \<and> \<not> rs_stale x)"
proof (cases "ry_status r = 304 \<and> cached \<noteq> None")
  case True
  then obtain e where e: "cached = Some e" by auto
  have "cache_ok opts (s\<lparr>hs_cache := map (\<lambda>(k, x). (k, replace_id (ce_id e) (touch_entry u) x)) (hs_cache s),
      hs_stats := st\<rparr>)" for st
    using cache_cong [of "s\<lparr>hs_cache := map (\<lambda>(k, x). (k, replace_id (ce_id e) (touch_entry u) x)) (hs_cache s),
      hs_stats := st\<rparr>" "s\<lparr>hs_cache := map (\<lambda>(k, x). (k, replace_id (ce_id e) (touch_entry u) x)) (hs_cache s)\<rparr>"]
      cache_touch [OF assms(2)] by simp
  with True e assms(1,3) show ?thesis
    by (auto simp: take_reply_def Let_def toResponse_def touch_entry_def)
next
  case False
  show ?thesis
  proof (cases "case status_error r u of Some e \<Rightarrow> Inl e | None \<Rightarrow> readCapped r (max_bytes opts req)")
    case (Inl e)
    with False assms(1,2) show ?thesis
      by (auto simp: take_reply_def cache_cong [OF cache_fail])
  next
    case (Inr body)
    then have "length body \<le> ho_hardMaxBytes opts"
      by (auto simp: max_bytes_def dest!: readCapped_length split: option.splits)
    moreover have "cache_ok opts (s\<lparr>hs_nextId := Suc (hs_nextId s)\<rparr>)"
      using assms(2) by (simp add: cache_ok_def)
    ultimately show ?thesis
      using False Inr assms(1)
      by (auto simp: take_reply_def Let_def toResponse_def intro!: cache_store split: if_splits)
  qed
qed

lemma cache_attempt:
  assumes "attempt_once opts req host cached a s = (res, sa, s')" and "cache_ok opts s"
    and "\<forall>e. cached = Some e \<longrightarrow> length (ce_body e) \<le> ho_hardMaxBytes opts"
  shows "cache_ok opts s' \<and> (\<forall>x. res = Inr x \<longrightarrow> length (rs_body x) \<le> ho_hardMaxBytes opts \<and> \<not> rs_stale x)"
proof -
  obtain t u out where a: "a = (t, u, out)" by (cases a)
  obtain sa1 s1 where st: "send_attempt host t s = (sa1, s1)" by (cases "send_attempt host t s")
  then have s1: "cache_ok opts s1" using assms(2) by (auto simp: send_attempt_def cache_ok_def)
  show ?thesis
  proof (cases out)
    case (Replied r)
    with assms(1) a st obtain x where "take_reply opts req host cached t u r s1 = (res, s')"
      by (auto simp: attempt_once_def split: prod.splits)
    from cache_reply [OF this s1 assms(3)] show ?thesis .
  qed (use assms(1) a st s1 in \<open>auto simp: attempt_once_def Let_def cache_cong [OF cache_fail]\<close>)
qed

lemma cache_attempts:
  "attempts opts req host cached n sa as s = (res, sa', s') \<Longrightarrow> cache_ok opts s \<Longrightarrow>
   \<forall>e. cached = Some e \<longrightarrow> length (ce_body e) \<le> ho_hardMaxBytes opts \<Longrightarrow>
   cache_ok opts s' \<and> (\<forall>x. res = Inr x \<longrightarrow> length (rs_body x) \<le> ho_hardMaxBytes opts \<and> \<not> rs_stale x)"
proof (induction as arbitrary: n sa s)
  case (Cons a as)
  obtain r1 sa1 s1 where a: "attempt_once opts req host cached a s = (r1, sa1, s1)"
    by (cases "attempt_once opts req host cached a s")
  note c = cache_attempt [OF a Cons.prems(2,3)]
  show ?case
  proof (cases r1)
    case (Inr x)
    with Cons.prems a c show ?thesis by simp
  next
    case (Inl e)
    with Cons a c show ?thesis by (auto split: if_splits)
  qed
qed auto

lemma cache_execute:
  assumes "cache_ok opts s"
  shows "cache_ok opts (snd (execute opts wake host x s)) \<and>
    (\<forall>r. fst (execute opts wake host x s) = Inr r \<longrightarrow> length (rs_body r) \<le> ho_hardMaxBytes opts \<and>
      (rs_stale r \<longrightarrow> rq_allowStale (ex_request x) \<and> 0 < ho_staleMs opts \<and> rs_ageMs r \<le> ho_staleMs opts \<and>
         (\<exists>e. map_of (hs_cache s) (rq_key (ex_request x)) = Some e \<and> rs_body r = ce_body e)))"
proof -
  let ?c = "cached_for opts (ex_request x) s"
  have c: "\<forall>e. ?c = Some e \<longrightarrow> length (ce_body e) \<le> ho_hardMaxBytes opts"
    "\<And>e. ?c = Some e \<Longrightarrow> map_of (hs_cache s) (rq_key (ex_request x)) = Some e"
    using cache_ok_lookup [OF assms, of "rq_key (ex_request x)"] by (auto simp: cached_for_def entry_ok_def split: if_splits)
  have stale: "(\<forall>r. fst (serveStale opts (ex_request x) ?c now e s') = Inr r \<longrightarrow>
      length (rs_body r) \<le> ho_hardMaxBytes opts \<and> rq_allowStale (ex_request x) \<and> 0 < ho_staleMs opts \<and>
      rs_ageMs r \<le> ho_staleMs opts \<and>
      (\<exists>e. map_of (hs_cache s) (rq_key (ex_request x)) = Some e \<and> rs_body r = ce_body e))" for now e s'
    using c by (auto simp: serveStale_def toResponse_def split: option.splits if_splits)
  obtain r s1 where g: "gate opts wake (ex_online x) host (ex_begin x) s = (r, s1)"
    by (cases "gate opts wake (ex_online x) host (ex_begin x) s")
  then have s1: "cache_ok opts s1" using assms cache_cong cache_kept.view_gate by blast
  show ?thesis
  proof (cases r)
    case (Inl e)
    with g s1 stale [of "ex_end x" e s1] show ?thesis
      by (auto simp: execute_def Let_def cache_cong [OF stale_kept(3)])
  next
    case (Inr t)
    obtain res sa s2 where a: "attempts opts (ex_request x) host ?c 0 None (ex_script x) s1 = (res, sa, s2)"
      by (cases "attempts opts (ex_request x) host ?c 0 None (ex_script x) s1")
    note c2 = cache_attempts [OF a s1 c(1)]
    have keep: "hs_cache (snd (conclude opts req host c' now res' sa s')) = hs_cache s'" for req c' now res' s'
      by (auto simp: conclude_def Let_def relaxPace_def widenPace_def set_breaker_def split: sum.splits option.splits)
    have "fst (conclude opts (ex_request x) host ?c (ex_end x) res sa s2) = Inr r \<Longrightarrow>
        res = Inr r \<or> (\<exists>e s'. fst (serveStale opts (ex_request x) ?c (ex_end x) e s') = Inr r)" for r
      by (cases res) (auto simp: conclude_def Let_def split: if_splits)
    with c2 stale g a Inr show ?thesis
      by (fastforce simp: execute_def Let_def cache_cong [OF keep])
  qed
qed

lemma cache_invalidate:
  assumes "cache_ok opts s"
  shows "cache_ok opts (invalidate opts key i s)"
proof (cases "map_of (hs_cache s) key")
  case None
  with assms show ?thesis by (simp add: invalidate_def split: option.splits)
next
  case (Some e)
  note e = cache_ok_lookup [OF assms Some]
  have "cache_ok opts (s\<lparr>hs_cache := AList.delete key (hs_cache s)\<rparr>)"
  proof -
    have "set (AList.delete key (hs_cache s)) \<subseteq> set (hs_cache s)" by (auto simp: AList.delete_eq)
    then show ?thesis
      using assms length_alist_delete [of key "hs_cache s"] distinct_delete [of "hs_cache s" key]
      unfolding cache_ok_def by auto
  qed
  moreover have "cache_ok opts (s\<lparr>hs_cache := AList.update key p (hs_cache s)\<rparr>)"
    if "ce_previousGood e = Some p" for p
  proof -
    have p: "entry_ok (ho_hardMaxBytes opts) p" using e that by (simp add: entry_ok_def)
    have "set (AList.update key p es) \<subseteq> insert (key, p) (set es)" for es :: "(jstring \<times> cache_entry) list"
      by (induction es) auto
    with p assms Some show ?thesis
      by (fastforce simp: cache_ok_def length_update_old distinct_update)
  qed
  ultimately show ?thesis using Some assms by (auto simp: invalidate_def split: option.splits)
qed

lemma cache_call:
  assumes "cache_ok opts s"
  shows "cache_ok opts (snd (client_step opts wake c s))"
proof (cases c)
  case (Request x)
  with assms cache_execute [OF assms, of wake _ x] show ?thesis
    by (auto simp: client_step_def http_request_step_def split: sum.splits prod.splits) (metis snd_conv)
qed (use assms cache_invalidate in \<open>auto simp: client_step_def cache_ok_def\<close>)

text \<open>
  C32: The response cache. After any run of requests, refused bodies and clearings the cache holds
  at most \<open>cacheMaxEntries\<close> entries, no body in it is longer than the hard limit, and an entry
  remembers at most one earlier entry. A response that an execution then gives is never longer
  than the hard limit; it is stale only when the caller allows that, its age is within
  \<open>staleWhileErrorMs\<close>, and its body is the one the cache held for the same key.
\<close>
theorem cache_bounds:
  assumes s_def: "s = client_run opts wake cs new_client"
  shows "length (hs_cache s) \<le> ho_cacheMax opts \<and>
    (\<forall>e \<in> set (map snd (hs_cache s)). length (ce_body e) \<le> ho_hardMaxBytes opts \<and>
      (\<forall>p. ce_previousGood e = Some p \<longrightarrow> ce_previousGood p = None)) \<and>
    (\<forall>r. fst (execute opts wake host x s) = Inr r \<longrightarrow> length (rs_body r) \<le> ho_hardMaxBytes opts \<and>
      (rs_stale r \<longrightarrow> rq_allowStale (ex_request x) \<and> rs_ageMs r \<le> ho_staleMs opts \<and>
        (\<exists>e. map_of (hs_cache s) (rq_key (ex_request x)) = Some e \<and> rs_body r = ce_body e)))"
proof -
  have ok: "cache_ok opts s"
    unfolding s_def
    by (rule run_invariant [where P = "cache_ok opts"]) (rule cache_call, simp_all add: cache_ok_def new_client_def)
  with cache_execute [OF ok, of wake host x] show ?thesis
    by (auto simp: cache_ok_def entry_ok_def split: option.splits) 
qed

theorem cache_bounds_witness:
  "length (hs_cache (client_run plain_opts (\<lambda>t ms. t) [Request (plain_exchange 0 200)] new_client)) \<le> 256"
  using cache_bounds [OF refl, of plain_opts "\<lambda>t ms. t" "[Request (plain_exchange 0 200)]"]
  by (simp add: plain_opts_def)

section \<open>Addresses\<close>

lemma ends_with_iff: "ends_with s t \<longleftrightarrow> (\<exists>p. s = p @ t)"
  by (auto simp: ends_with_def) (metis append_take_drop_id)



section \<open>A limit that is waited for\<close>

text \<open>
  The slot that a request waits for is not taken when the wait is over: with one request a minute
  allowed, the second request waits until 60 s, and a third one is sent at 60 s without a wait.
\<close>

lemma waited_slot_not_taken:
  defines "o1 \<equiv> plain_opts\<lparr>ho_requestsPerMinute := 1\<rparr>"
  defines "wake \<equiv> (\<lambda>t ms. t + (case ms of Some m \<Rightarrow> \<lceil>m :: rat\<rceil> | None \<Rightarrow> 0))"
  shows "fst (limit_check o1 wake h 0 new_client) = Inr 0 \<and>
    (let s1 = snd (limit_check o1 wake h 0 new_client);
         s2 = snd (limit_check o1 wake h 55000 s1)
     in fst (limit_check o1 wake h 55000 s1) = Inr 60000 \<and> fst (limit_check o1 wake h 60000 s2) = Inr 60000)"
  by (simp add: o1_def wake_def limit_check_def limiter_tryAcquire_def new_client_def new_limiter_def
      client_limits_def plain_opts_def open_bucket_def head_wait_def count_wait_def Let_def)

end
