(* ===== verification/Aivdm.thy ===== *)
theory Aivdm
  imports Prelude
begin

unbundle bit_operations_syntax

text \<open>
  AIS messages as NMEA 0183 sentences, \<open>providers/ais-local/src/aivdm.ts\<close>: the checksum, the
  six-bit payload, the decoded fields of messages 1, 2, 3, 5, 18, 19 and 24, and the assembler of
  messages that come in several sentences.

  A \<open>Uint8Array\<close> of bits is a list of the numbers 0 and 1. Speeds, courses, draughts and
  positions are exact rationals; the positions' rounding to six decimals never meets a half,
  since a coordinate is a whole number of 1/600000 degrees. The regular expressions are written
  out on the comma-separated fields: no field they accept contains a comma or a star.
\<close>

section \<open>Messages\<close>

record dimensions =
  di_toBow :: nat
  di_toStern :: nat
  di_toPort :: nat
  di_toStarboard :: nat

record motion =
  mo_speedKnots :: "rat option"
  mo_courseDeg :: "rat option"
  mo_headingDeg :: "nat option"
  mo_second :: "nat option"

record report =
  re_type :: nat
  re_mmsi :: nat
  re_navStatus :: "nat option"
  re_rateOfTurn :: "int option"
  re_accuracy :: bool
  re_position :: "(rat \<times> rat) option"
  re_motion :: motion
  re_shipName :: "jstring option"
  re_shipType :: "nat option"
  re_dimensions :: "dimensions option"

record voyage =
  vo_mmsi :: nat
  vo_imo :: "nat option"
  vo_callSign :: "jstring option"
  vo_shipName :: "jstring option"
  vo_shipType :: "nat option"
  vo_dimensions :: "dimensions option"
  vo_eta :: "(nat \<times> nat \<times> nat \<times> nat) option"
  vo_draughtM :: "rat option"
  vo_destination :: "jstring option"

datatype ais_message =
    Report report
  | Voyage voyage
  | StaticA nat "jstring option"
  | StaticB nat "nat option" "jstring option" "dimensions option"

datatype decode_fault = PayloadTooShort | TypeTooShort nat | PartBTooShort | UnknownPart | NotDecoded nat

datatype invalid_reason =
    MalformedSentence | ChecksumMismatch | BadNumbering | OutOfOrder | BadArmouring | Undecodable decode_fault

datatype ignored_reason = EmptyLine | NotNmea | NotAis | TypeNotDecoded decode_fault

datatype sentence_result =
    Message ais_message "jchar option" bool
  | Fragment
  | Ignored ignored_reason
  | Invalid invalid_reason

section \<open>Checksum and payload\<close>

definition nmeaChecksum :: "jstring \<Rightarrow> nat" where
  "nmeaChecksum body = foldl (\<lambda>x c. x XOR c) 0 body"

definition armour_value :: "jchar \<Rightarrow> nat option" where
  "armour_value c =
     (let v = int c - 48; w = (if v > 40 then v - 8 else v)
      in if w < 0 \<or> w > 63 then None else Some (nat w))"

definition six_bits :: "nat \<Rightarrow> nat list" where
  "six_bits v = map (\<lambda>b. drop_bit (5 - b) v AND 1) [0..<6]"

fun payload_bits_all :: "jstring \<Rightarrow> nat list option" where
  "payload_bits_all [] = Some []"
| "payload_bits_all (c # cs) =
     (case armour_value c of
        None \<Rightarrow> None
      | Some v \<Rightarrow> map_option ((@) (six_bits v)) (payload_bits_all cs))"

definition payloadBits :: "jstring \<Rightarrow> nat \<Rightarrow> nat list option" where
  "payloadBits payload fillBits =
     (case payload_bits_all payload of
        None \<Rightarrow> None
      | Some bits \<Rightarrow>
          if fillBits > 5 \<or> fillBits > length bits then None
          else Some (take (length bits - fillBits) bits))"

section \<open>Fields\<close>

definition bit_at :: "nat list \<Rightarrow> nat \<Rightarrow> nat" where
  "bit_at bits i = (if i < length bits then bits ! i else 0)"

definition uint_at :: "nat list \<Rightarrow> nat \<Rightarrow> nat \<Rightarrow> nat" where
  "uint_at bits start len = foldl (\<lambda>v i. v * 2 + bit_at bits (start + i)) 0 [0..<len]"

definition int_at :: "nat list \<Rightarrow> nat \<Rightarrow> nat \<Rightarrow> int" where
  "int_at bits start len =
     (let v = int (uint_at bits start len)
      in if bit_at bits start \<noteq> 0 then v - 2 ^ len else v)"

fun text_chars :: "nat list \<Rightarrow> nat \<Rightarrow> nat \<Rightarrow> jstring" where
  "text_chars bits start 0 = []"
| "text_chars bits start (Suc n) =
     (if start + 6 > length bits then []
      else (let v = uint_at bits start 6 in (if v < 32 then v + 64 else v) # text_chars bits (start + 6) n))"

definition text_at :: "nat list \<Rightarrow> nat \<Rightarrow> nat \<Rightarrow> jstring option" where
  "text_at bits start chars =
     (let t = trim (takeWhile (\<lambda>c. c \<noteq> 64) (text_chars bits start chars))
      in if t = [] then None else Some t)"

definition dims :: "nat list \<Rightarrow> nat \<Rightarrow> dimensions option" where
  "dims bits start =
     (let d = \<lparr>di_toBow = uint_at bits start 9, di_toStern = uint_at bits (start + 9) 9,
               di_toPort = uint_at bits (start + 18) 6, di_toStarboard = uint_at bits (start + 24) 6\<rparr>
      in if di_toBow d + di_toStern d + di_toPort d + di_toStarboard d > 0 then Some d else None)"

definition six_decimals :: "rat \<Rightarrow> rat" where
  "six_decimals x = of_int (math_round (x * 1000000)) / 1000000"

definition position :: "nat list \<Rightarrow> nat \<Rightarrow> nat \<Rightarrow> (rat \<times> rat) option" where
  "position bits lonAt latAt =
     (let lon = of_int (int_at bits lonAt 28) / 600000;
          lat = of_int (int_at bits latAt 27) / 600000
      in if \<bar>lon\<bar> > 180 \<or> \<bar>lat\<bar> > 90 then None else Some (six_decimals lon, six_decimals lat))"

definition motion_at :: "nat list \<Rightarrow> nat \<Rightarrow> nat \<Rightarrow> nat \<Rightarrow> nat \<Rightarrow> motion" where
  "motion_at bits speedAt courseAt headingAt secondAt =
     (let speed = uint_at bits speedAt 10; course = uint_at bits courseAt 12;
          heading = uint_at bits headingAt 9; second = uint_at bits secondAt 6
      in \<lparr>mo_speedKnots = (if speed \<noteq> 1023 then Some (of_nat speed / 10) else None),
          mo_courseDeg = (if course < 3600 then Some (of_nat course / 10) else None),
          mo_headingDeg = (if heading < 360 then Some heading else None),
          mo_second = (if second < 60 then Some second else None)\<rparr>)"

definition nonzero :: "nat \<Rightarrow> nat option" where
  "nonzero n = (if n = 0 then None else Some n)"

definition class_a :: "nat list \<Rightarrow> nat \<Rightarrow> nat \<Rightarrow> decode_fault + ais_message" where
  "class_a bits type mmsi =
     (if length bits < 149 then Inl (TypeTooShort type)
      else
        (let turn = int_at bits 42 8
         in Inr (Report
           \<lparr>re_type = type, re_mmsi = mmsi, re_navStatus = Some (uint_at bits 38 4),
            re_rateOfTurn = (if turn \<noteq> -128 then Some turn else None),
            re_accuracy = (bit_at bits 60 = 1), re_position = position bits 61 89,
            re_motion = motion_at bits 50 116 128 137, re_shipName = None, re_shipType = None,
            re_dimensions = None\<rparr>)))"

definition class_b :: "nat list \<Rightarrow> nat \<Rightarrow> nat \<Rightarrow> decode_fault + ais_message" where
  "class_b bits type mmsi =
     (if length bits < (if type = 18 then 148 else 301) then Inl (TypeTooShort type)
      else
        (let base =
           \<lparr>re_type = type, re_mmsi = mmsi, re_navStatus = None, re_rateOfTurn = None,
            re_accuracy = (bit_at bits 56 = 1), re_position = position bits 57 85,
            re_motion = motion_at bits 46 112 124 133, re_shipName = None, re_shipType = None,
            re_dimensions = None\<rparr>
         in if type = 18 then Inr (Report base)
            else Inr (Report (base
              \<lparr>re_shipName := text_at bits 143 20, re_shipType := nonzero (uint_at bits 263 8),
               re_dimensions := dims bits 271\<rparr>))))"

definition static_voyage :: "nat list \<Rightarrow> nat \<Rightarrow> decode_fault + ais_message" where
  "static_voyage bits mmsi =
     (if length bits < 420 then Inl (TypeTooShort 5)
      else
        (let month = uint_at bits 274 4; day = uint_at bits 278 5; hour = uint_at bits 283 5;
             minute = uint_at bits 288 6; draught = uint_at bits 294 8
         in Inr (Voyage
           \<lparr>vo_mmsi = mmsi, vo_imo = nonzero (uint_at bits 40 30), vo_callSign = text_at bits 70 7,
            vo_shipName = text_at bits 112 20, vo_shipType = nonzero (uint_at bits 232 8),
            vo_dimensions = dims bits 240,
            vo_eta = (if month \<ge> 1 \<and> month \<le> 12 \<and> day \<ge> 1 \<and> day \<le> 31 \<and> hour < 24 \<and> minute < 60
                      then Some (month, day, hour, minute) else None),
            vo_draughtM = (if draught \<noteq> 0 then Some (of_nat draught / 10) else None),
            vo_destination = text_at bits 302 20\<rparr>)))"

definition class_b_static :: "nat list \<Rightarrow> nat \<Rightarrow> decode_fault + ais_message" where
  "class_b_static bits mmsi =
     (if length bits < 40 then Inl (TypeTooShort 24)
      else
        (let part = uint_at bits 38 2
         in if part = 0 then Inr (StaticA mmsi (text_at bits 40 20))
            else if part = 1 then
              (if length bits < 162 then Inl PartBTooShort
               else
                 (let auxiliary = (mmsi div 10000000 = 98)
                  in Inr (StaticB mmsi (nonzero (uint_at bits 40 8)) (text_at bits 90 7)
                       (if auxiliary then None else dims bits 132))))
            else Inl UnknownPart))"

definition decodeMessage :: "nat list \<Rightarrow> decode_fault + ais_message" where
  "decodeMessage bits =
     (if length bits < 38 then Inl PayloadTooShort
      else
        (let type = uint_at bits 0 6; mmsi = uint_at bits 8 30
         in if type \<in> {1, 2, 3} then class_a bits type mmsi
            else if type = 18 \<or> type = 19 then class_b bits type mmsi
            else if type = 5 then static_voyage bits mmsi
            else if type = 24 then class_b_static bits mmsi
            else Inl (NotDecoded type)))"

section \<open>Sentences\<close>

record sentence =
  se_talker :: jstring
  se_formatter :: jstring
  se_count :: nat
  se_index :: nat
  se_seq :: jstring
  se_channel :: "jchar option"
  se_payload :: jstring
  se_fill :: nat
  se_checksum :: nat

definition upper_char :: "jchar \<Rightarrow> jchar" where
  "upper_char c = (if is_lower c then c - 32 else c)"

definition is_armour_char :: "jchar \<Rightarrow> bool" where
  "is_armour_char c \<longleftrightarrow> (48 \<le> c \<and> c \<le> 87) \<or> (96 \<le> c \<and> c \<le> 119)"

definition digit :: "jstring \<Rightarrow> nat option" where
  "digit s = (case s of [c] \<Rightarrow> if is_digit c then Some (c - 48) else None | _ \<Rightarrow> None)"

definition head_field :: "jstring \<Rightarrow> (jstring \<times> jstring) option" where
  "head_field f =
     (let talker = take 2 (drop 1 f); form = drop 3 f
      in if length f = 6 \<and> (hd f = jc CHR ''!'' \<or> hd f = jc CHR ''$'') \<and>
            talker \<in> {js ''AI'', js ''BS'', js ''AB'', js ''SA''} \<and> form \<in> {js ''VDM'', js ''VDO''}
         then Some (talker, form) else None)"

definition channel_field :: "jstring \<Rightarrow> jchar option option" where
  "channel_field f =
     (case f of
        [] \<Rightarrow> Some None
      | [c] \<Rightarrow> if c \<in> {65, 66, 97, 98, 49, 50} then Some (Some (upper_char c)) else None
      | _ \<Rightarrow> None)"

text \<open>The last field: the fill bits, a star and two hexadecimal digits.\<close>

definition tail_field :: "jstring \<Rightarrow> (nat \<times> nat) option" where
  "tail_field f =
     (case f of
        [d, s, h1, h2] \<Rightarrow>
          if 48 \<le> d \<and> d \<le> 53 \<and> s = jc CHR ''*'' \<and> is_hex h1 \<and> is_hex h2
          then Some (d - 48, hex_nat [h1, h2]) else None
      | _ \<Rightarrow> None)"

definition parse_sentence :: "jstring \<Rightarrow> sentence option" where
  "parse_sentence raw =
     (case split_on (jc CHR '','') raw of
        [h, n, i, q, c, p, t] \<Rightarrow>
          (case (head_field h, digit n, digit i, channel_field c, tail_field t) of
             (Some (talker, form), Some count, Some index, Some channel, Some (fill, check)) \<Rightarrow>
               if (q = [] \<or> digit q \<noteq> None) \<and> list_all is_armour_char p
               then Some \<lparr>se_talker = talker, se_formatter = form, se_count = count, se_index = index,
                          se_seq = q, se_channel = channel, se_payload = p, se_fill = fill,
                          se_checksum = check\<rparr>
               else None
           | _ \<Rightarrow> None)
      | _ \<Rightarrow> None)"

text \<open>\<open>/^[!$][A-Z]{2}VD[MO],/\<close>\<close>

definition looks_like_ais :: "jstring \<Rightarrow> bool" where
  "looks_like_ais raw \<longleftrightarrow>
     (case raw of
        c0 # c1 # c2 # v # d # o1 # comma # _ \<Rightarrow>
          (c0 = jc CHR ''!'' \<or> c0 = jc CHR ''$'') \<and> is_upper c1 \<and> is_upper c2 \<and>
          v = jc CHR ''V'' \<and> d = jc CHR ''D'' \<and> (o1 = jc CHR ''M'' \<or> o1 = jc CHR ''O'') \<and>
          comma = jc CHR '',''
      | _ \<Rightarrow> False)"

text \<open>An NMEA 4.0 tag block, \<open>/^\\[^\\]*\\/\<close>, is cut off.\<close>

definition drop_tag :: "jstring \<Rightarrow> jstring" where
  "drop_tag s =
     (case s of
        c # r \<Rightarrow> if c = 92 \<and> 92 \<in> set r then drop 1 (dropWhile (\<lambda>c. c \<noteq> 92) r) else s
      | [] \<Rightarrow> s)"

text \<open>What the checksum covers: between the first character and the last star.\<close>

definition checked_part :: "jstring \<Rightarrow> jstring" where
  "checked_part raw = drop 1 (rev (drop 1 (dropWhile (\<lambda>c. c \<noteq> jc CHR ''*'') (rev raw))))"

section \<open>Assembling\<close>

record pending =
  pn_parts :: "jstring list"
  pn_fill :: nat
  pn_at :: int
  pn_count :: nat

type_synonym pend_key = "jstring \<times> jchar option \<times> jstring \<times> jstring"
type_synonym assembler = "(pend_key \<times> pending) list"

definition FRAGMENT_TTL_MS :: int where "FRAGMENT_TTL_MS = 10000"
definition MAX_PENDING :: nat where "MAX_PENDING = 64"

definition expire :: "int \<Rightarrow> assembler \<Rightarrow> assembler" where
  "expire now p = filter (\<lambda>(k, e). \<not> now - pn_at e > FRAGMENT_TTL_MS) p"

definition sentence_key :: "sentence \<Rightarrow> pend_key" where
  "sentence_key s = (se_seq s, se_channel s, se_talker s, se_formatter s)"

definition finish :: "jstring \<Rightarrow> nat \<Rightarrow> sentence \<Rightarrow> sentence_result" where
  "finish full fill s =
     (case payloadBits full fill of
        None \<Rightarrow> Invalid BadArmouring
      | Some bits \<Rightarrow>
          (case decodeMessage bits of
             Inl (NotDecoded t) \<Rightarrow> Ignored (TypeNotDecoded (NotDecoded t))
           | Inl e \<Rightarrow> Invalid (Undecodable e)
           | Inr m \<Rightarrow> Message m (se_channel s) (se_formatter s = js ''VDO'')))"

text \<open>A sentence whose checksum holds.\<close>

definition take_sentence :: "sentence \<Rightarrow> int \<Rightarrow> assembler \<Rightarrow> sentence_result \<times> assembler" where
  "take_sentence s now p0 =
     (if se_count s < 1 \<or> se_index s < 1 \<or> se_index s > se_count s then (Invalid BadNumbering, p0)
      else
        (let p = expire now p0; key = sentence_key s
         in if se_count s = 1 then (finish (se_payload s) (se_fill s) s, p)
            else if se_index s = 1 then
              (let p1 = AList.update key \<lparr>pn_parts = [se_payload s], pn_fill = se_fill s,
                          pn_at = now, pn_count = se_count s\<rparr> p
               in (Fragment, if length p1 > MAX_PENDING then drop 1 p1 else p1))
            else
              (case map_of p key of
                 None \<Rightarrow> (Invalid OutOfOrder, AList.delete key p)
               | Some e \<Rightarrow>
                   if pn_count e \<noteq> se_count s \<or> length (pn_parts e) \<noteq> se_index s - 1
                   then (Invalid OutOfOrder, AList.delete key p)
                   else
                     (let parts = pn_parts e @ [se_payload s]
                      in if se_index s < se_count s
                         then (Fragment, AList.update key (e\<lparr>pn_parts := parts, pn_fill := se_fill s\<rparr>) p)
                         else (finish (concat parts) (se_fill s) s, AList.delete key p)))))"

definition push :: "jstring \<Rightarrow> int \<Rightarrow> assembler \<Rightarrow> sentence_result \<times> assembler" where
  "push line now p =
     (let raw = drop_tag (trim line)
      in if raw = [] then (Ignored EmptyLine, p)
         else if hd raw \<noteq> jc CHR ''!'' \<and> hd raw \<noteq> jc CHR ''$'' then (Ignored NotNmea, p)
         else
           (case parse_sentence raw of
              None \<Rightarrow> ((if looks_like_ais raw then Invalid MalformedSentence else Ignored NotAis), p)
            | Some s \<Rightarrow>
                if nmeaChecksum (checked_part raw) \<noteq> se_checksum s then (Invalid ChecksumMismatch, p)
                else take_sentence s now p))"

section \<open>Decoded values are in range\<close>

definition are_bits :: "nat list \<Rightarrow> bool" where
  "are_bits bits \<longleftrightarrow> (\<forall>b \<in> set bits. b \<le> 1)"

lemma bit_at_le: "are_bits bits \<Longrightarrow> bit_at bits i \<le> 1"
  by (auto simp: are_bits_def bit_at_def)

lemma uint_at_Suc: "uint_at bits start (Suc n) = uint_at bits start n * 2 + bit_at bits (start + n)"
  by (simp add: uint_at_def)

lemma uint_at_0 [simp]: "uint_at bits start 0 = 0"
  by (simp add: uint_at_def)

lemma uint_at_less: "are_bits bits \<Longrightarrow> uint_at bits start n < 2 ^ n"
proof (induction n)
  case (Suc n)
  with bit_at_le [of bits "start + n"] show ?case by (simp add: uint_at_Suc)
qed simp

text \<open>The first bit is the one of highest weight.\<close>

lemma uint_at_head:
  assumes "are_bits bits"
  shows "\<exists>r. uint_at bits start (Suc n) = bit_at bits start * 2 ^ n + r \<and> r < 2 ^ n"
proof (induction n)
  case 0
  then show ?case by (simp add: uint_at_Suc)
next
  case (Suc n)
  then obtain r where "uint_at bits start (Suc n) = bit_at bits start * 2 ^ n + r" "r < 2 ^ n" by blast
  with bit_at_le [OF assms, of "start + Suc n"] show ?case
    by (intro exI [of _ "2 * r + bit_at bits (start + Suc n)"])
      (simp add: uint_at_Suc [of bits start "Suc n"])
qed

lemma int_at_bounds:
  assumes "are_bits bits" and "0 < len"
  shows "- (2 ^ (len - 1)) \<le> int_at bits start len \<and> int_at bits start len < 2 ^ (len - 1)"
proof -
  obtain n where len: "len = Suc n" using assms(2) by (cases len) auto
  obtain r where r: "uint_at bits start (Suc n) = bit_at bits start * 2 ^ n + r" "r < 2 ^ n"
    using uint_at_head [OF assms(1)] by blast
  define k where "k = (2 :: nat) ^ n"
  have k: "(2 :: int) ^ n = int k" by (simp add: k_def)
  have "bit_at bits start = 0 \<or> bit_at bits start = 1"
    using bit_at_le [OF assms(1), of start] by linarith
  then show ?thesis
  proof
    assume "bit_at bits start = 0"
    with r show ?thesis by (simp add: int_at_def len k k_def [symmetric])
  next
    assume b: "bit_at bits start = 1"
    with r(1) have "uint_at bits start (Suc n) = k + r" by (simp add: k_def)
    with b r(2) show ?thesis by (simp add: int_at_def len k k_def [symmetric])
  qed
qed

lemma six_decimals_bound: "\<bar>x\<bar> \<le> of_int n \<Longrightarrow> \<bar>six_decimals x\<bar> \<le> of_int n"
proof -
  assume "\<bar>x\<bar> \<le> of_int n"
  then have "x * 1000000 \<le> of_int (n * 1000000)" "of_int (- (n * 1000000)) \<le> x * 1000000"
    by (simp_all add: abs_le_iff)
  then have "math_round (x * 1000000) \<le> n * 1000000" "- (n * 1000000) \<le> math_round (x * 1000000)"
    using math_round_mono math_round_int by metis+
  then have "of_int (math_round (x * 1000000)) \<le> (of_int (n * 1000000) :: rat)"
    "of_int (- (n * 1000000)) \<le> (of_int (math_round (x * 1000000)) :: rat)"
    by (simp_all only: of_int_le_iff)
  then show ?thesis by (simp add: six_decimals_def abs_le_iff)
qed

lemma position_bounds:
  "position bits lonAt latAt = Some (lon, lat) \<Longrightarrow> \<bar>lon\<bar> \<le> 180 \<and> \<bar>lat\<bar> \<le> 90"
  using six_decimals_bound [of "of_int (int_at bits lonAt 28) / 600000" 180]
    six_decimals_bound [of "of_int (int_at bits latAt 27) / 600000" 90]
  by (auto simp: position_def Let_def split: if_splits)

definition motion_ok :: "motion \<Rightarrow> bool" where
  "motion_ok m \<longleftrightarrow>
     (\<forall>v. mo_speedKnots m = Some v \<longrightarrow> 0 \<le> v \<and> v \<le> 1022 / 10) \<and>
     (\<forall>v. mo_courseDeg m = Some v \<longrightarrow> 0 \<le> v \<and> v < 360) \<and>
     (\<forall>v. mo_headingDeg m = Some v \<longrightarrow> v < 360) \<and> (\<forall>v. mo_second m = Some v \<longrightarrow> v < 60)"

lemma motion_at_ok: "are_bits bits \<Longrightarrow> motion_ok (motion_at bits a b c d)"
proof -
  assume "are_bits bits"
  then have "uint_at bits a 10 < 1024" using uint_at_less [of bits a 10] by simp
  then have "uint_at bits a 10 \<noteq> 1023 \<Longrightarrow> (of_nat (uint_at bits a 10) :: rat) \<le> of_nat 1022"
    by (simp only: of_nat_le_iff)
  moreover have "uint_at bits b 12 < 3600 \<Longrightarrow> (of_nat (uint_at bits b 12) :: rat) < of_nat 3600"
    by (simp only: of_nat_less_iff)
  ultimately show ?thesis by (auto simp: motion_ok_def motion_at_def Let_def split: if_splits)
qed

definition report_ok :: "report \<Rightarrow> bool" where
  "report_ok r \<longleftrightarrow> re_type r \<in> {1, 2, 3, 18, 19} \<and> re_mmsi r < 2 ^ 30 \<and>
     (\<forall>v. re_navStatus r = Some v \<longrightarrow> v < 16) \<and>
     (\<forall>v. re_rateOfTurn r = Some v \<longrightarrow> -127 \<le> v \<and> v \<le> 127) \<and>
     (\<forall>lon lat. re_position r = Some (lon, lat) \<longrightarrow> \<bar>lon\<bar> \<le> 180 \<and> \<bar>lat\<bar> \<le> 90) \<and>
     motion_ok (re_motion r)"

text \<open>
  C31: Decoded AIS values are real values. Whatever the bits of a payload, a position report that
  is decoded has a position on the globe or none, a course and a heading below 360 degrees, a
  speed of at most 102.2 knots, a second below 60, a rate of turn within 127 and a status below
  16 or none; the not-available codes never come through. A voyage's ETA is a calendar-like
  date and time or none.
\<close>
theorem decoded_in_range:
  assumes "are_bits bits" and "decodeMessage bits = Inr m"
  shows "(\<forall>r. m = Report r \<longrightarrow> report_ok r) \<and>
    (\<forall>v mo d h mi. m = Voyage v \<and> vo_eta v = Some (mo, d, h, mi) \<longrightarrow>
       1 \<le> mo \<and> mo \<le> 12 \<and> 1 \<le> d \<and> d \<le> 31 \<and> h < 24 \<and> mi < 60)"
proof -
  have mmsi: "uint_at bits 8 30 < 2 ^ 30" and nav: "uint_at bits 38 4 < 16"
    using uint_at_less [OF assms(1), of 8 30] uint_at_less [OF assms(1), of 38 4] by simp_all
  have turn: "-128 \<le> int_at bits 42 8 \<and> int_at bits 42 8 < 128"
    using int_at_bounds [OF assms(1), of 8 42] by simp
  have "report_ok r" if "m = Report r" for r
    using assms(2) that mmsi nav turn motion_at_ok [OF assms(1)] position_bounds
    by (auto simp: decodeMessage_def class_a_def class_b_def static_voyage_def class_b_static_def
        report_ok_def Let_def split: if_splits)
  moreover have "1 \<le> mo \<and> mo \<le> 12 \<and> 1 \<le> d \<and> d \<le> 31 \<and> h < 24 \<and> mi < 60"
    if "m = Voyage v" "vo_eta v = Some (mo, d, h, mi)" for v mo d h mi
    using assms(2) that
    by (auto simp: decodeMessage_def class_a_def class_b_def static_voyage_def class_b_static_def
        Let_def split: if_splits)
  ultimately show ?thesis by blast
qed

definition sample_bits :: "nat list" where
  "sample_bits = six_bits 1 @ replicate 143 0"

theorem decoded_in_range_witness:
  "\<exists>r. decodeMessage sample_bits = Inr (Report r) \<and> report_ok r"
proof -
  have b: "are_bits sample_bits" by code_simp
  have "\<exists>r. decodeMessage sample_bits = Inr (Report r)"
  proof -
    have "uint_at sample_bits 0 6 = 1" by code_simp
    moreover have "length sample_bits = 149" by code_simp
    ultimately show ?thesis by (simp add: decodeMessage_def class_a_def Let_def)
  qed
  then obtain r where r: "decodeMessage sample_bits = Inr (Report r)" by blast
  with decoded_in_range [OF b r] show ?thesis by blast
qed

section \<open>Putting fragments together\<close>

definition pending_ok :: "assembler \<Rightarrow> bool" where
  "pending_ok p \<longleftrightarrow> distinct (map fst p) \<and> length p \<le> MAX_PENDING \<and>
     (\<forall>e \<in> set (map snd p). 1 \<le> length (pn_parts e) \<and> length (pn_parts e) < pn_count e)"

lemma expire_ok: "pending_ok p \<Longrightarrow> pending_ok (expire now p)"
proof -
  assume ok: "pending_ok p"
  have "length (expire now p) \<le> length p" unfolding expire_def by (rule length_filter_le)
  moreover have "distinct (map fst p) \<Longrightarrow> distinct (map fst (expire now p))"
    unfolding expire_def by (rule distinct_map_filter)
  moreover have "set (expire now p) \<subseteq> set p" by (auto simp: expire_def)
  ultimately show ?thesis using ok unfolding pending_ok_def by auto
qed

lemma delete_ok: "pending_ok p \<Longrightarrow> pending_ok (AList.delete key p)"
  using length_alist_delete [of key p]
  by (auto simp: pending_ok_def distinct_delete) (auto simp: AList.delete_eq)

lemma set_update_subset: "set (AList.update k v m) \<subseteq> insert (k, v) (set m)"
  by (induction m) auto

lemma update_ok:
  assumes "pending_ok p" and "1 \<le> length (pn_parts e)" and "length (pn_parts e) < pn_count e"
    and "length (AList.update key e p) \<le> MAX_PENDING"
  shows "pending_ok (AList.update key e p)"
  using assms set_update_subset [of key e p]
  by (auto simp: pending_ok_def distinct_update dest!: subsetD)

lemma take_sentence_ok: "pending_ok p \<Longrightarrow> pending_ok (snd (take_sentence s now p))"
proof -
  assume "pending_ok p"
  then have q: "pending_ok (expire now p)" by (rule expire_ok)
  define q where "q = expire now p"
  let ?new = "\<lparr>pn_parts = [se_payload s], pn_fill = se_fill s, pn_at = now, pn_count = se_count s\<rparr>"
  show ?thesis
  proof (cases "se_count s < 1 \<or> se_index s < 1 \<or> se_index s > se_count s \<or> se_count s = 1")
    case True
    with \<open>pending_ok p\<close> q show ?thesis by (auto simp: take_sentence_def Let_def)
  next
    case many: False
    show ?thesis
    proof (cases "se_index s = 1")
      case True
      let ?p1 = "AList.update (sentence_key s) ?new q"
      have len: "length ?p1 \<le> Suc (length q)"
        by (cases "map_of q (sentence_key s)") (simp_all add: length_update_new length_update_old)
      have d: "distinct (map fst ?p1)" using q by (simp add: pending_ok_def q_def distinct_update)
      have "set ?p1 \<subseteq> insert (sentence_key s, ?new) (set q)" by (rule set_update_subset)
      then have e: "\<forall>x \<in> set ?p1. 1 \<le> length (pn_parts (snd x)) \<and> length (pn_parts (snd x)) < pn_count (snd x)"
        using q many by (fastforce simp: pending_ok_def q_def)
      have "pending_ok (if length ?p1 > MAX_PENDING then drop 1 ?p1 else ?p1)"
        using d e len q by (auto simp: pending_ok_def q_def drop_map [symmetric] dest!: in_set_dropD)
      moreover have "take_sentence s now p =
          (Fragment, if length ?p1 > MAX_PENDING then drop 1 ?p1 else ?p1)"
        using many True by (simp add: take_sentence_def Let_def q_def)
      ultimately show ?thesis by (simp only: snd_conv)
    next
      case False
      show ?thesis
      proof (cases "map_of q (sentence_key s)")
        case None
        with many False delete_ok [OF q] show ?thesis by (simp add: take_sentence_def Let_def q_def)
      next
        case (Some e)
        have "pending_ok (AList.update (sentence_key s)
            (e\<lparr>pn_parts := pn_parts e @ [se_payload s], pn_fill := se_fill s\<rparr>) q)"
          if "length (pn_parts e) = se_index s - 1" "pn_count e = se_count s" "se_index s < se_count s"
          using that q many Some
          by (intro update_ok) (auto simp: q_def length_update_old pending_ok_def)
        with many False Some delete_ok [OF q] show ?thesis
          by (auto simp: take_sentence_def Let_def q_def)
      qed
    qed
  qed
qed

text \<open>A sequence of sentences whose checksums hold, with the times they arrive.\<close>

fun take_all :: "(sentence \<times> int) list \<Rightarrow> assembler \<Rightarrow> sentence_result list \<times> assembler" where
  "take_all [] p = ([], p)"
| "take_all ((s, t) # ss) p =
     (case take_sentence s t p of (r, p1) \<Rightarrow> (case take_all ss p1 of (rs, p2) \<Rightarrow> (r # rs, p2)))"

lemma take_all_append:
  "take_all (a @ b) p =
     (case take_all a p of (rs, p1) \<Rightarrow> (case take_all b p1 of (rs', p2) \<Rightarrow> (rs @ rs', p2)))"
  by (induction a p rule: take_all.induct) (auto split: prod.splits)

lemma take_all_ok: "pending_ok p \<Longrightarrow> pending_ok (snd (take_all ss p))"
proof (induction ss p rule: take_all.induct)
  case (2 s t ss p)
  with take_sentence_ok [of p s t] show ?case by (auto split: prod.splits)
qed simp

text \<open>The assembly in progress for a key: what it holds, seen from the sentences.\<close>

definition collecting :: "pend_key \<Rightarrow> jstring list \<Rightarrow> int \<Rightarrow> nat \<Rightarrow> assembler \<Rightarrow> bool" where
  "collecting key parts since n p \<longleftrightarrow>
     (\<exists>e. map_of p key = Some e \<and> pn_parts e = parts \<and> pn_at e = since \<and> pn_count e = n)"

lemma map_of_expire:
  "distinct (map fst p) \<Longrightarrow> map_of p key = Some e \<Longrightarrow> \<not> now - pn_at e > FRAGMENT_TTL_MS \<Longrightarrow>
   map_of (expire now p) key = Some e"
  unfolding expire_def by (induction p) (auto split: if_splits)

lemma collecting_expire:
  "pending_ok p \<Longrightarrow> collecting key parts since n p \<Longrightarrow> now \<le> since + 10000 \<Longrightarrow>
   collecting key parts since n (expire now p)"
  using map_of_expire [of p key _ now]
  by (auto simp: collecting_def pending_ok_def FRAGMENT_TTL_MS_def)

text \<open>A sentence of another key that starts no assembly leaves it alone.\<close>

lemma collecting_other:
  assumes "pending_ok p" and "collecting key parts since n p" and "now \<le> since + 10000"
    and "sentence_key s \<noteq> key" and "se_count s = 1 \<or> se_index s \<noteq> 1"
  shows "collecting key parts since n (snd (take_sentence s now p))"
  using collecting_expire [OF assms(1-3)] assms(2,4,5)
  by (auto simp: take_sentence_def Let_def collecting_def map_simps split: option.splits)

lemma collecting_next:
  assumes "pending_ok p" and "collecting (sentence_key s) parts since (se_count s) p" and "now \<le> since + 10000"
    and "se_index s = Suc (length parts)" and "parts \<noteq> []" and "se_index s < se_count s"
  shows "fst (take_sentence s now p) = Fragment \<and>
    collecting (sentence_key s) (parts @ [se_payload s]) since (se_count s) (snd (take_sentence s now p))"
  using collecting_expire [OF assms(1-3)] assms(4-6)
  by (auto simp: take_sentence_def Let_def collecting_def map_simps split: option.splits)

lemma collecting_last:
  assumes "pending_ok p" and "collecting (sentence_key s) parts since (se_count s) p" and "now \<le> since + 10000"
    and "se_index s = Suc (length parts)" and "parts \<noteq> []" and "se_index s = se_count s"
  shows "fst (take_sentence s now p) = finish (concat parts @ se_payload s) (se_fill s) s"
  using collecting_expire [OF assms(1-3)] assms(4-6)
  by (auto simp: take_sentence_def Let_def collecting_def)

lemma collecting_first:
  assumes "pending_ok p" and "se_index s = 1" and "1 < se_count s"
  shows "fst (take_sentence s now p) = Fragment \<and>
    collecting (sentence_key s) [se_payload s] now (se_count s) (snd (take_sentence s now p))"
proof -
  define q where "q = expire now p"
  define e where "e = \<lparr>pn_parts = [se_payload s], pn_fill = se_fill s, pn_at = now, pn_count = se_count s\<rparr>"
  let ?p1 = "AList.update (sentence_key s) e q"
  have ok: "pending_ok q" unfolding q_def by (rule expire_ok) (rule assms(1))
  have "map_of (if length ?p1 > MAX_PENDING then drop 1 ?p1 else ?p1) (sentence_key s) = Some e"
  proof (cases "map_of q (sentence_key s)")
    case None
    then have p1: "?p1 = q @ [(sentence_key s, e)]" by (rule alist_update_new)
    show ?thesis
    proof (cases q)
      case Nil
      then show ?thesis by (simp add: MAX_PENDING_def)
    next
      case (Cons a q')
      with None show ?thesis
        unfolding p1 by (auto simp: map_add_def split: option.splits if_splits)
    qed
  next
    case (Some x)
    then have "length ?p1 \<le> MAX_PENDING" using ok by (simp add: length_update_old pending_ok_def)
    then show ?thesis by (simp add: map_simps)
  qed
  with assms(2,3) show ?thesis
    by (simp add: take_sentence_def Let_def collecting_def q_def [symmetric] e_def [symmetric])
      (auto simp: e_def)
qed

lemma Cons_upt: "x # xs = [a..<k] \<Longrightarrow> x = a \<and> a < k \<and> xs = [Suc a..<k]"
  by (cases "a < k") (auto simp: upt_conv_Cons)

lemma finish_cong:
  "se_channel s' = se_channel s \<Longrightarrow> se_formatter s' = se_formatter s \<Longrightarrow>
   finish full fill s' = finish full fill s"
  by (simp only: finish_def)

text \<open>All of a message's fragments but the last, in order, among other sentences.\<close>

lemma collecting_run:
  assumes "pending_ok p" and "collecting key parts since n p" and "parts \<noteq> []"
    and "\<And>s t. (s, t) \<in> set ss \<Longrightarrow> t \<le> since + 10000"
    and "\<And>s t. (s, t) \<in> set ss \<Longrightarrow> sentence_key s \<noteq> key \<Longrightarrow> se_count s = 1 \<or> se_index s \<noteq> 1"
    and "map se_index (filter (\<lambda>s. sentence_key s = key) (map fst ss)) = [Suc (length parts)..<k]"
    and "\<And>s. s \<in> set (map fst ss) \<Longrightarrow> sentence_key s = key \<Longrightarrow> se_count s = n" and "k \<le> n"
  shows "collecting key (parts @ map se_payload (filter (\<lambda>s. sentence_key s = key) (map fst ss))) since n
    (snd (take_all ss p))"
  using assms
proof (induction ss arbitrary: p parts)
  case Nil
  then show ?case by simp
next
  case (Cons st ss)
  obtain s t where st: "st = (s, t)" by (cases st)
  have ok: "pending_ok (snd (take_sentence s t p))" using Cons.prems(1) by (rule take_sentence_ok)
  have t: "t \<le> since + 10000" using Cons.prems(4) st by auto
  show ?case
  proof (cases "sentence_key s = key")
    case True
    then have "se_index s # map se_index (filter (\<lambda>s. sentence_key s = key) (map fst ss)) =
        [Suc (length parts)..<k]"
      using Cons.prems(6) st by simp
    from Cons_upt [OF this] have idx: "se_index s = Suc (length parts)" "se_index s < k"
      and rest: "map se_index (filter (\<lambda>s. sentence_key s = key) (map fst ss)) = [Suc (Suc (length parts))..<k]"
      by simp_all
    have n: "se_count s = n" using Cons.prems(7) [of s] st True by simp
    have col: "collecting key (parts @ [se_payload s]) since n (snd (take_sentence s t p))"
      using collecting_next [OF Cons.prems(1), of s parts since t] Cons.prems(2,3,8) True idx n t by auto
    have "collecting key ((parts @ [se_payload s]) @ map se_payload (filter (\<lambda>s. sentence_key s = key) (map fst ss)))
        since n (snd (take_all ss (snd (take_sentence s t p))))"
      by (rule Cons.IH [OF ok col]) (use Cons.prems(4,5,7,8) rest in auto)
    with True st show ?thesis by (simp add: case_prod_unfold)
  next
    case False
    have col: "collecting key parts since n (snd (take_sentence s t p))"
      by (rule collecting_other [OF Cons.prems(1,2) t False]) (use Cons.prems(5) st False in auto)
    have "collecting key (parts @ map se_payload (filter (\<lambda>s. sentence_key s = key) (map fst ss)))
        since n (snd (take_all ss (snd (take_sentence s t p))))"
      by (rule Cons.IH [OF ok col Cons.prems(3)]) (use Cons.prems(4-8) st False in auto)
    with False st show ?thesis by (simp add: case_prod_unfold)
  qed
qed


definition sample_sentence :: "nat \<Rightarrow> nat \<Rightarrow> jstring \<Rightarrow> sentence" where
  "sample_sentence n i pl = \<lparr>se_talker = js ''AI'', se_formatter = js ''VDM'', se_count = n, se_index = i,
     se_seq = js ''1'', se_channel = None, se_payload = pl, se_fill = 0, se_checksum = 0\<rparr>"


section \<open>The checksum\<close>

lemma foldl_xor: "foldl (\<lambda>x c. x XOR c) a cs = a XOR foldl (\<lambda>x c. x XOR c) 0 (cs :: nat list)"
proof (induction cs arbitrary: a)
  case (Cons c cs)
  from Cons [of "a XOR c"] Cons [of c] show ?case by (simp add: xor.assoc)
qed simp

lemma nmeaChecksum_append: "nmeaChecksum (a @ b) = nmeaChecksum a XOR nmeaChecksum b"
  unfolding nmeaChecksum_def by (simp add: foldl_xor [of "foldl _ 0 a"])

lemma xor_change:
  assumes "c \<noteq> (d :: nat)"
  shows "x XOR (c XOR y) \<noteq> x XOR (d XOR y)"
proof
  assume "x XOR (c XOR y) = x XOR (d XOR y)"
  then have "x XOR (x XOR (c XOR y)) XOR y = x XOR (x XOR (d XOR y)) XOR y" by simp
  then have "c = d" by (simp add: xor.assoc [symmetric]) (simp add: xor.assoc)
  with assms show False by simp
qed

lemma checksum_change:
  "c \<noteq> d \<Longrightarrow> nmeaChecksum (a @ c # b) \<noteq> nmeaChecksum (a @ d # b)"
proof -
  have "nmeaChecksum (a @ z # b) = nmeaChecksum a XOR (z XOR nmeaChecksum b)" for z
    using nmeaChecksum_append [of a "z # b"] nmeaChecksum_append [of "[z]" b]
    by (simp add: nmeaChecksum_def)
  then show "c \<noteq> d \<Longrightarrow> nmeaChecksum (a @ c # b) \<noteq> nmeaChecksum (a @ d # b)"
    using xor_change by simp
qed

lemma split_single: "split_on d s = [x] \<Longrightarrow> x = s"
  using join_split [of d s] by simp

text \<open>The end of a sentence: the star and the two digits, whatever stands before them.\<close>

lemma parse_tail:
  assumes "parse_sentence (body @ [jc CHR ''*'', h1, h2]) = Some s"
  shows "se_checksum s = hex_nat [h1, h2] \<and> is_hex h1 \<and> is_hex h2"
proof -
  let ?tail = "[jc CHR ''*'', h1, h2]"
  obtain h n i q c p t where f: "split_on (jc CHR '','') (body @ ?tail) = [h, n, i, q, c, p, t]"
    and tf: "tail_field t = Some (se_fill s, se_checksum s)"
    using assms by (auto simp: parse_sentence_def split: list.splits option.splits prod.splits if_splits)
  from tf obtain d g1 g2 where t: "t = [d, jc CHR ''*'', g1, g2]" "is_hex g1" "is_hex g2"
    "se_checksum s = hex_nat [g1, g2]"
    by (auto simp: tail_field_def split: list.splits if_splits)
  have "body @ ?tail = h @ 44 # n @ 44 # i @ 44 # q @ 44 # c @ 44 # p @ 44 # t"
    using join_split [of "jc CHR '',''" "body @ ?tail"] unfolding f by simp
  then have "body @ ?tail = (h @ 44 # n @ 44 # i @ 44 # q @ 44 # c @ 44 # p @ 44 # [d]) @ [jc CHR ''*'', g1, g2]"
    by (simp add: t(1))
  then have "[g1, g2] = [h1, h2]"
    by (subst (asm) append_eq_append_conv) auto
  with t show ?thesis by simp
qed

lemma checked_body:
  "h1 \<noteq> jc CHR ''*'' \<Longrightarrow> h2 \<noteq> jc CHR ''*'' \<Longrightarrow>
   checked_part (x # body @ [jc CHR ''*'', h1, h2]) = body"
  by (simp add: checked_part_def)



end
