(* ===== verification/Geo.thy ===== *)
theory Geo
  imports Prelude
begin

text \<open>
  Geographic primitives (\<^verbatim>\<open>packages/world-model/src/geo.ts\<close>): positions, rectangles that may
  cross the antimeridian, regions, geometries, and the planar algorithms on rings of
  longitude and latitude.

  Numbers are reals: the results of the source up to the rounding of its floating point
  arithmetic, and always finite. A function of the source that reads only \<open>latitude\<close> and
  \<open>longitude\<close> of its argument takes the pair of them, in that order; a coordinate of a
  geometry is longitude, latitude and an optional third number, in that order.
\<close>

section \<open>Data\<close>

datatype datum = Ellipsoid | Msl | Barometric | Ground | Sea_Surface | Orbit

record geo_position =
  latitude :: real
  longitude :: real
  altitudeM :: "real option"
  altitudeDatum :: "datum option"
  accuracyM :: "real option"

record geo_bounds =
  west :: real
  south :: real
  east :: real
  north :: real

type_synonym latlon = "real \<times> real"
type_synonym coord = "real \<times> real \<times> real option"

datatype world_geometry =
    Point coord
  | MultiPoint "coord list"
  | LineString "coord list"
  | MultiLineString "coord list list"
  | Polygon "coord list list"
  | MultiPolygon "coord list list list"

datatype geo_region =
    Bounds_Region geo_bounds
  | Circle_Region geo_position real
  | Polygon_Region "(real \<times> real) list"
  | Admin_Region jstring "geo_bounds option"

abbreviation place :: "geo_position \<Rightarrow> latlon" where
  "place p \<equiv> (latitude p, longitude p)"

section \<open>Longitudes, validity and clamping\<close>

text \<open>The remainder \<open>%\<close>, which has the sign of the dividend.\<close>

definition js_rem :: "real \<Rightarrow> real \<Rightarrow> real" where
  "js_rem a n = (if a / n \<ge> 0 then a - n * of_int \<lfloor>a / n\<rfloor> else a - n * of_int \<lceil>a / n\<rceil>)"

definition normalizeLongitude :: "real \<Rightarrow> real" where
  "normalizeLongitude lon =
     (let x = js_rem (js_rem (lon + 180) 360 + 360) 360 - 180
      in if x = -180 \<and> lon > 0 then 180 else x)"

definition isValidLatLon :: "real \<Rightarrow> real \<Rightarrow> bool" where
  "isValidLatLon lat lon \<longleftrightarrow> \<bar>lat\<bar> \<le> 90 \<and> \<bar>lon\<bar> \<le> 180"

definition isValidBounds :: "geo_bounds \<Rightarrow> bool" where
  "isValidBounds b \<longleftrightarrow>
     south b \<le> north b \<and> \<bar>south b\<bar> \<le> 90 \<and> \<bar>north b\<bar> \<le> 90 \<and> \<bar>west b\<bar> \<le> 180 \<and> \<bar>east b\<bar> \<le> 180"

definition clampBounds :: "geo_bounds \<Rightarrow> geo_bounds" where
  "clampBounds b =
     (let lat = (\<lambda>v. max (-90) (min 90 v)); lon = (\<lambda>v. max (-180) (min 180 v))
      in \<lparr>west = lon (west b), south = lat (south b), east = lon (east b), north = lat (north b)\<rparr>)"

section \<open>Distances on the sphere\<close>

definition EARTH_RADIUS_M :: real where
  "EARTH_RADIUS_M = 63710088 / 10"

definition DEG :: real where
  "DEG = pi / 180"

definition haversineMeters :: "latlon \<Rightarrow> latlon \<Rightarrow> real" where
  "haversineMeters a b =
     (let dLat = (fst b - fst a) * DEG; dLon = (snd b - snd a) * DEG;
          s1 = sin (dLat / 2); s2 = sin (dLon / 2);
          h = s1 * s1 + cos (fst a * DEG) * cos (fst b * DEG) * s2 * s2
      in 2 * EARTH_RADIUS_M * arcsin (min 1 (sqrt h)))"

definition circleBounds :: "latlon \<Rightarrow> real \<Rightarrow> geo_bounds" where
  "circleBounds c r =
     (let dLat = r / EARTH_RADIUS_M / DEG;
          s = max (-90) (fst c - dLat);
          n = min 90 (fst c + dLat);
          cosLat = cos (fst c * DEG)
      in if cosLat < 1 / 10 ^ 9 \<or> dLat \<ge> 90 then \<lparr>west = -180, south = s, east = 180, north = n\<rparr>
         else let dLon = min 180 (r / (EARTH_RADIUS_M * cosLat) / DEG)
              in if dLon \<ge> 180 then \<lparr>west = -180, south = s, east = 180, north = n\<rparr>
                 else \<lparr>west = normalizeLongitude (snd c - dLon), south = s,
                       east = normalizeLongitude (snd c + dLon), north = n\<rparr>)"

section \<open>Rectangles\<close>

definition boundsContain :: "geo_bounds \<Rightarrow> latlon \<Rightarrow> bool" where
  "boundsContain b p =
     (if fst p < south b \<or> fst p > north b then False
      else if west b \<le> east b then snd p \<ge> west b \<and> snd p \<le> east b
      else snd p \<ge> west b \<or> snd p \<le> east b)"

definition boundsIntersect :: "geo_bounds \<Rightarrow> geo_bounds \<Rightarrow> bool" where
  "boundsIntersect a b =
     (if north a < south b \<or> south a > north b then False
      else let aSplit = west a > east a; bSplit = west b > east b
           in if \<not> aSplit \<and> \<not> bSplit then \<not> (east a < west b \<or> west a > east b)
              else if aSplit \<and> bSplit then True
              else let (s, n) = (if aSplit then (a, b) else (b, a))
                   in east n \<ge> west s \<or> west n \<le> east s)"

section \<open>Rings\<close>

definition polygonBounds :: "(real \<times> real) list \<Rightarrow> geo_bounds" where
  "polygonBounds ring =
     foldl (\<lambda>b (lon, lat).
         \<lparr>west = (if lon < west b then lon else west b),
          south = (if lat < south b then lat else south b),
          east = (if lon > east b then lon else east b),
          north = (if lat > north b then lat else north b)\<rparr>)
       \<lparr>west = 180, south = 90, east = -180, north = -90\<rparr> ring"

text \<open>Does the ray from \<open>p\<close> to the east cross the edge between two vertices?\<close>

definition crosses :: "latlon \<Rightarrow> real \<times> real \<Rightarrow> real \<times> real \<Rightarrow> bool" where
  "crosses p vi vj =
     (case vi of (xi, yi) \<Rightarrow> case vj of (xj, yj) \<Rightarrow>
        (yi > fst p) \<noteq> (yj > fst p) \<and> snd p < ((xj - xi) * (fst p - yi)) / (yj - yi) + xi)"

fun pip_from :: "latlon \<Rightarrow> real \<times> real \<Rightarrow> (real \<times> real) list \<Rightarrow> bool \<Rightarrow> bool" where
  "pip_from p vj [] inside = inside"
| "pip_from p vj (vi # vs) inside =
     pip_from p vi vs (if crosses p vi vj then \<not> inside else inside)"

definition pointInPolygon :: "latlon \<Rightarrow> (real \<times> real) list \<Rightarrow> bool" where
  "pointInPolygon p ring = (if ring = [] then False else pip_from p (last ring) ring False)"

section \<open>Regions\<close>

fun regionBounds :: "geo_region \<Rightarrow> geo_bounds option" where
  "regionBounds (Bounds_Region b) = Some b"
| "regionBounds (Circle_Region c r) = Some (circleBounds (place c) r)"
| "regionBounds (Polygon_Region ring) = Some (polygonBounds ring)"
| "regionBounds (Admin_Region i b) = b"

fun regionContains :: "geo_region \<Rightarrow> latlon \<Rightarrow> bool" where
  "regionContains (Bounds_Region b) p = boundsContain b p"
| "regionContains (Circle_Region c r) p = (haversineMeters (place c) p \<le> r)"
| "regionContains (Polygon_Region ring) p = pointInPolygon p ring"
| "regionContains (Admin_Region i b) p = (case b of Some b \<Rightarrow> boundsContain b p | None \<Rightarrow> False)"

section \<open>Geometries\<close>

fun geometry_points :: "world_geometry \<Rightarrow> coord list" where
  "geometry_points (Point c) = [c]"
| "geometry_points (MultiPoint cs) = cs"
| "geometry_points (LineString cs) = cs"
| "geometry_points (MultiLineString rs) = concat rs"
| "geometry_points (Polygon rs) = concat rs"
| "geometry_points (MultiPolygon ps) = concat (concat ps)"

definition geometryCentroid :: "world_geometry \<Rightarrow> geo_position option" where
  "geometryCentroid g =
     (let pts = geometry_points g
      in if pts = [] then None
         else let (lat, lon) = foldl (\<lambda>(lat, lon) c. (lat + fst (snd c), lon + fst c)) (0, 0) pts
              in Some \<lparr>latitude = lat / of_nat (length pts), longitude = lon / of_nat (length pts),
                       altitudeM = None, altitudeDatum = None, accuracyM = None\<rparr>)"

definition positionToGeometry :: "geo_position \<Rightarrow> world_geometry" where
  "positionToGeometry p = Point (longitude p, latitude p, altitudeM p)"

section \<open>Simplification of a ring\<close>

definition segmentDistance2 :: "coord \<Rightarrow> coord \<Rightarrow> coord \<Rightarrow> real" where
  "segmentDistance2 p a b =
     (let dx = fst b - fst a;
          dy = fst (snd b) - fst (snd a);
          len2 = dx * dx + dy * dy;
          t = (if len2 = 0 then 0
               else ((fst p - fst a) * dx + (fst (snd p) - fst (snd a)) * dy) / len2);
          t = max 0 (min 1 t);
          x = fst a + t * dx - fst p;
          y = fst (snd a) + t * dy - fst (snd p)
      in x * x + y * y)"

definition round_to :: "nat \<Rightarrow> real \<Rightarrow> real" where
  "round_to decimals v = of_int \<lfloor>v * 10 ^ decimals + 1 / 2\<rfloor> / 10 ^ decimals"

definition round_coord :: "nat \<Rightarrow> coord \<Rightarrow> coord" where
  "round_coord decimals c =
     (round_to decimals (fst c), round_to decimals (fst (snd c)), snd (snd c))"

text \<open>The vertex farthest from the chord, when one is farther than the tolerance.\<close>

definition worst_between :: "coord list \<Rightarrow> real \<Rightarrow> nat \<Rightarrow> nat \<Rightarrow> nat option" where
  "worst_between ring tol2 a b =
     fst (foldl (\<lambda>(w, d) i.
             let d2 = segmentDistance2 (ring ! i) (ring ! a) (ring ! b)
             in if d2 > d then (Some i, d2) else (w, d))
           (None, tol2) [Suc a ..< b])"

lemma worst_fold:
  fixes f :: "nat \<Rightarrow> real"
  shows "foldl (\<lambda>(w, d) i. if f i > d then (Some i, f i) else (w, d)) (w0, d0) is = (w, d) \<Longrightarrow>
    (w = w0 \<and> d = d0 \<or> (\<exists>i \<in> set is. w = Some i \<and> d > d0)) \<and> (\<forall>i \<in> set is. f i \<le> d)
      \<and> d0 \<le> d \<and> (d = d0 \<longrightarrow> w = w0)"
proof (induction "is" arbitrary: w0 d0)
  case (Cons i js)
  show ?case
  proof (cases "f i > d0")
    case True
    with Cons.IH [of "Some i" "f i"] Cons.prems show ?thesis by fastforce
  next
    case False
    with Cons.IH [of w0 d0] Cons.prems show ?thesis by fastforce
  qed
qed simp

lemma worst_between_cases:
  "(case worst_between ring tol2 a b of
      Some w \<Rightarrow> a < w \<and> w < b
    | None \<Rightarrow> \<forall>i. a < i \<and> i < b \<longrightarrow> segmentDistance2 (ring ! i) (ring ! a) (ring ! b) \<le> tol2)"
proof -
  let ?f = "\<lambda>i. segmentDistance2 (ring ! i) (ring ! a) (ring ! b)"
  obtain w d where r:
    "foldl (\<lambda>(w, d) i. if ?f i > d then (Some i, ?f i) else (w, d)) (None, tol2) [Suc a ..< b] = (w, d)"
    by (meson surj_pair)
  from worst_fold [OF r] have "case w of Some w \<Rightarrow> a < w \<and> w < b
      | None \<Rightarrow> \<forall>i. a < i \<and> i < b \<longrightarrow> ?f i \<le> tol2"
    by (auto split: option.splits)
  moreover have "worst_between ring tol2 a b = w"
    using r by (simp add: worst_between_def Let_def)
  ultimately show ?thesis by simp
qed

lemma worst_between_Some: "worst_between ring tol2 a b = Some w \<Longrightarrow> a < w \<and> w < b"
  using worst_between_cases [of a b ring tol2] by simp

lemma worst_between_None:
  "worst_between ring tol2 a b = None \<Longrightarrow> a < i \<Longrightarrow> i < b \<Longrightarrow>
   segmentDistance2 (ring ! i) (ring ! a) (ring ! b) \<le> tol2"
  using worst_between_cases [of a b ring tol2] by simp

lemma split_measure:
  fixes a w b :: nat
  assumes "a < w" and "w < b"
  shows "(b - w)\<^sup>2 + (w - a)\<^sup>2 + 1 < (b - a)\<^sup>2"
proof -
  from assms obtain x y where "w = a + Suc x" "b = a + Suc x + Suc y"
    by (metis add_Suc_right less_iff_Suc_add)
  then show ?thesis by (simp add: power2_eq_square algebra_simps)
qed

text \<open>The last pair pushed is the first taken; the head of the list is the top of the stack.\<close>

function dp_loop :: "coord list \<Rightarrow> real \<Rightarrow> (nat \<times> nat) list \<Rightarrow> bool list \<Rightarrow> bool list" where
  "dp_loop ring tol2 [] keep = keep"
| "dp_loop ring tol2 ((a, b) # stack) keep =
     (case worst_between ring tol2 a b of
        None \<Rightarrow> dp_loop ring tol2 stack keep
      | Some w \<Rightarrow> dp_loop ring tol2 ((w, b) # (a, w) # stack) (keep[w := True]))"
  by pat_completeness auto

termination
proof (relation "measure (\<lambda>(ring, tol2, stack, keep). sum_list (map (\<lambda>(a, b). (b - a)\<^sup>2 + 1) stack))")
  fix ring tol2 a b stack keep w
  assume "worst_between ring tol2 a b = Some w"
  then have "(b - w)\<^sup>2 + (w - a)\<^sup>2 + 1 < (b - a)\<^sup>2"
    by (intro split_measure) (auto dest: worst_between_Some)
  then show "((ring, tol2, (w, b) # (a, w) # stack, keep[w := True]), ring, tol2, (a, b) # stack, keep)
    \<in> measure (\<lambda>(ring, tol2, stack, keep). sum_list (map (\<lambda>(a, b). (b - a)\<^sup>2 + 1) stack))"
    by simp
qed auto

definition kept :: "'a list \<Rightarrow> bool list \<Rightarrow> 'a list" where
  "kept xs keep = map fst (filter snd (zip xs keep))"

definition simplifyRing :: "coord list \<Rightarrow> real \<Rightarrow> nat \<Rightarrow> coord list" where
  "simplifyRing ring tol decimals =
     (if length ring \<le> 4 \<or> \<not> tol > 0 then map (round_coord decimals) ring
      else let n = length ring;
               keep = dp_loop ring (tol * tol) [(0, n - 1)] ((replicate n False)[0 := True, n - 1 := True]);
               out = map (round_coord decimals) (kept ring keep)
           in if length out \<ge> 4 then out else map (round_coord decimals) ring)"

section \<open>Rectangles: intersection and containment\<close>

text \<open>Two points of the same latitude band and the four cases of the longitudes.\<close>

lemma boundsIntersect_common:
  assumes "boundsContain a p" and "boundsContain b p"
  shows "boundsIntersect a b"
  using assms by (auto simp: boundsContain_def boundsIntersect_def Let_def split: if_splits)

lemma boundsIntersect_witness_point:
  assumes "boundsIntersect a b" and "south a \<le> north a" and "south b \<le> north b"
  obtains p where "boundsContain a p" and "boundsContain b p"
proof -
  let ?lat = "max (south a) (south b)"
  have lat: "?lat \<le> north a" "?lat \<le> north b"
    using assms by (auto simp: boundsIntersect_def split: if_splits)
  consider "west a \<le> east a" "west b \<le> east b" | "west a > east a" "west b > east b"
    | "west a > east a" "west b \<le> east b" | "west a \<le> east a" "west b > east b" by linarith
  then have "\<exists>lon. boundsContain a (?lat, lon) \<and> boundsContain b (?lat, lon)"
  proof cases
    case 1
    with assms(1) lat show ?thesis
      by (intro exI [of _ "max (west a) (west b)"])
        (auto simp: boundsContain_def boundsIntersect_def Let_def split: if_splits)
  next
    case 2
    with lat show ?thesis
      by (intro exI [of _ "max (west a) (west b)"]) (auto simp: boundsContain_def)
  next
    case 3
    with assms(1) lat have "east b \<ge> west a \<or> west b \<le> east a"
      by (auto simp: boundsIntersect_def Let_def split: if_splits)
    with 3 lat show ?thesis
      by (intro exI [of _ "if east b \<ge> west a then east b else west b"]) (auto simp: boundsContain_def)
  next
    case 4
    with assms(1) lat have "east a \<ge> west b \<or> west a \<le> east b"
      by (auto simp: boundsIntersect_def Let_def split: if_splits)
    with 4 lat show ?thesis
      by (intro exI [of _ "if east a \<ge> west b then east a else west a"]) (auto simp: boundsContain_def)
  qed
  then show ?thesis using that by blast
qed

text \<open>
  Two rectangles, either of which may cross the antimeridian, intersect for the code
  exactly when some place lies in both.
\<close>
theorem boundsIntersect_correct:
  assumes "south a \<le> north a" and "south b \<le> north b"
  shows "boundsIntersect a b \<longleftrightarrow> (\<exists>p. boundsContain a p \<and> boundsContain b p)"
  using assms boundsIntersect_common boundsIntersect_witness_point by metis

theorem boundsIntersect_correct_witness:
  "boundsIntersect \<lparr>west = 170, south = 0, east = -170, north = 10\<rparr>
       \<lparr>west = -175, south = 5, east = 20, north = 30\<rparr> \<and>
   \<not> boundsIntersect \<lparr>west = 170, south = 0, east = -170, north = 10\<rparr>
       \<lparr>west = -160, south = 5, east = 20, north = 30\<rparr> \<and>
   (\<exists>p. boundsContain \<lparr>west = 170, south = 0, east = -170, north = 10\<rparr> p \<and>
     boundsContain \<lparr>west = -175, south = 5, east = 20, north = 30\<rparr> p)"
  using boundsIntersect_correct [of "\<lparr>west = 170, south = 0, east = -170, north = 10\<rparr>"
      "\<lparr>west = -175, south = 5, east = 20, north = 30\<rparr>"]
  by (simp add: boundsIntersect_def)

section \<open>Polygons\<close>

lemma polygonBounds_fold:
  assumes "b' = foldl (\<lambda>b (lon, lat).
         \<lparr>west = (if lon < west b then lon else west b),
          south = (if lat < south b then lat else south b),
          east = (if lon > east b then lon else east b),
          north = (if lat > north b then lat else north b)\<rparr>) b ring"
  shows "west b' \<le> west b \<and> south b' \<le> south b \<and> east b \<le> east b' \<and> north b \<le> north b' \<and>
    (\<forall>(x, y) \<in> set ring. west b' \<le> x \<and> x \<le> east b' \<and> south b' \<le> y \<and> y \<le> north b')"
  using assms
proof (induction ring arbitrary: b)
  case (Cons v ring)
  obtain x y where v: "v = (x, y)" by (cases v)
  from Cons.IH [OF Cons.prems [unfolded foldl_Cons]] show ?case
    by (auto simp: v split: if_splits)
qed simp

lemma polygonBounds_vertices:
  "(x, y) \<in> set ring \<Longrightarrow>
   west (polygonBounds ring) \<le> x \<and> x \<le> east (polygonBounds ring) \<and>
   south (polygonBounds ring) \<le> y \<and> y \<le> north (polygonBounds ring)"
  using polygonBounds_fold [OF refl, of _ ring] unfolding polygonBounds_def by fast

lemma chord_point:
  fixes xi xj yi yj lat :: real
  assumes "(yi > lat) \<noteq> (yj > lat)"
  shows "min xi xj \<le> ((xj - xi) * (lat - yi)) / (yj - yi) + xi \<and>
    ((xj - xi) * (lat - yi)) / (yj - yi) + xi \<le> max xi xj"
proof -
  define t where "t = (lat - yi) / (yj - yi)"
  from assms have t: "0 \<le> t" "t \<le> 1"
    unfolding t_def by (auto simp: divide_simps)
  have "((xj - xi) * (lat - yi)) / (yj - yi) + xi = (xj - xi) * t + xi"
    by (simp add: t_def)
  then have e: "((xj - xi) * (lat - yi)) / (yj - yi) + xi = (1 - t) * xi + t * xj"
    by (simp add: algebra_simps)
  have "(1 - t) * min xi xj + t * min xi xj \<le> (1 - t) * xi + t * xj"
    using t by (intro add_mono mult_left_mono) auto
  moreover have "(1 - t) * xi + t * xj \<le> (1 - t) * max xi xj + t * max xi xj"
    using t by (intro add_mono mult_left_mono) auto
  ultimately show ?thesis unfolding e by (simp add: algebra_simps)
qed

lemma crosses_bounds:
  assumes "crosses p vi vj"
  shows "min (snd vi) (snd vj) \<le> fst p \<and> fst p \<le> max (snd vi) (snd vj) \<and> snd p < max (fst vi) (fst vj)"
  using assms chord_point [of "fst p" "snd vi" "snd vj" "fst vi" "fst vj"]
  by (auto simp: crosses_def split: prod.splits)

text \<open>A point west of every vertex crosses each edge that straddles its latitude.\<close>

lemma crosses_west:
  assumes "snd p < fst vi" and "snd p < fst vj"
  shows "crosses p vi vj \<longleftrightarrow> (snd vi > fst p) \<noteq> (snd vj > fst p)"
  using assms chord_point [of "fst p" "snd vi" "snd vj" "fst vi" "fst vj"]
  by (auto simp: crosses_def split: prod.splits)

lemma pip_west:
  assumes "\<forall>v \<in> set (vj # vs). snd p < fst v"
  shows "pip_from p vj vs inside \<longleftrightarrow>
    inside \<noteq> ((snd vj > fst p) \<noteq> (snd (last (vj # vs)) > fst p))"
  using assms
proof (induction vs arbitrary: vj inside)
  case (Cons vi vs)
  then have "crosses p vi vj \<longleftrightarrow> (snd vi > fst p) \<noteq> (snd vj > fst p)"
    by (intro crosses_west) auto
  with Cons show ?case by (cases "vs = []") auto
qed simp

lemma pip_crossing:
  "pip_from p vj vs inside \<noteq> inside \<Longrightarrow> \<exists>vi \<in> set (vj # vs). \<exists>vj' \<in> set (vj # vs). crosses p vi vj'"
proof (induction vs arbitrary: vj inside)
  case (Cons vi vs)
  show ?case
  proof (cases "crosses p vi vj")
    case False
    with Cons have "\<exists>vi' \<in> set (vi # vs). \<exists>vj' \<in> set (vi # vs). crosses p vi' vj'" by simp
    then show ?thesis by (meson list.set_intros(2))
  qed auto
qed simp

text \<open>The coarse lookup loses nothing: whatever ray casting puts inside lies in the box.\<close>

lemma polygon_in_bounds:
  assumes inside: "pointInPolygon p ring"
  shows "boundsContain (polygonBounds ring) p"
proof -
  have ne: "ring \<noteq> []" and pip: "pip_from p (last ring) ring False"
    using inside by (auto simp: pointInPolygon_def split: if_splits)
  note box = polygonBounds_vertices [of _ _ ring]
  from pip_crossing [of p "last ring" ring False] pip ne obtain vi vj
    where v: "vi \<in> set ring" "vj \<in> set ring" "crosses p vi vj"
    using last_in_set [OF ne] by (metis set_ConsD)
  note b = crosses_bounds [OF v(3)] box [of "fst vi" "snd vi"] box [of "fst vj" "snd vj"]
  have s: "south (polygonBounds ring) \<le> fst p" and n: "fst p \<le> north (polygonBounds ring)"
    and e: "snd p \<le> east (polygonBounds ring)"
    using b v by auto
  have w: "west (polygonBounds ring) \<le> snd p"
  proof (rule ccontr)
    assume "\<not> ?thesis"
    then have "\<forall>v \<in> set (last ring # ring). snd p < fst v"
      using box ne last_in_set [OF ne] by (smt (verit) prod.collapse set_ConsD)
    from pip_west [OF this, of False] ne pip show False by simp
  qed
  from s n e w show ?thesis by (simp add: boundsContain_def)
qed

section \<open>Simplification keeps the outline\<close>

definition consecutive :: "bool list \<Rightarrow> nat \<Rightarrow> nat \<Rightarrow> bool" where
  "consecutive keep a b \<longleftrightarrow>
     a < b \<and> b < length keep \<and> keep ! a \<and> keep ! b \<and> (\<forall>k. a < k \<and> k < b \<longrightarrow> \<not> keep ! k)"

definition chord_near :: "coord list \<Rightarrow> real \<Rightarrow> nat \<Rightarrow> nat \<Rightarrow> bool" where
  "chord_near ring tol2 a b \<longleftrightarrow>
     (\<forall>i. a < i \<and> i < b \<longrightarrow> segmentDistance2 (ring ! i) (ring ! a) (ring ! b) \<le> tol2)"

lemma consecutive_split:
  assumes ab: "consecutive keep a b" and w: "a < w" "w < b"
  shows "consecutive (keep[w := True]) c d \<longleftrightarrow>
    (c, d) = (a, w) \<or> (c, d) = (w, b) \<or> (consecutive keep c d \<and> (c, d) \<noteq> (a, b))"
proof -
  let ?k = "keep[w := True]"
  have nth: "?k ! k \<longleftrightarrow> k = w \<or> keep ! k" for k
    using ab w by (cases "k = w") (auto simp: consecutive_def)
  note def = consecutive_def nth length_list_update
  show ?thesis
  proof
    assume cd: "consecutive ?k c d"
    have "a \<le> c \<or> d \<le> a" "b \<le> c \<or> d \<le> b"
      using cd ab w unfolding def by (metis not_le)+
    moreover have "c \<le> w \<or> b \<le> c" "d \<le> w \<or> b \<le> d" "c \<le> a \<or> w \<le> c" "d \<le> a \<or> w \<le> d"
      using cd ab w unfolding def by (metis (no_types, lifting) le_less_linear less_le_trans less_trans nat_neq_iff)+
    moreover have "\<not> (c < w \<and> w < d)" using cd unfolding def by auto
    ultimately show "(c, d) = (a, w) \<or> (c, d) = (w, b) \<or> (consecutive keep c d \<and> (c, d) \<noteq> (a, b))"
      using cd ab w unfolding def by auto
  next
    assume "(c, d) = (a, w) \<or> (c, d) = (w, b) \<or> (consecutive keep c d \<and> (c, d) \<noteq> (a, b))"
    then show "consecutive ?k c d"
    proof (elim disjE)
      assume cd: "consecutive keep c d \<and> (c, d) \<noteq> (a, b)"
      have "\<not> (c < w \<and> w < d)"
      proof
        assume "c < w \<and> w < d"
        with ab cd w have "a \<le> c" "d \<le> b" unfolding consecutive_def by (metis less_trans not_le)+
        moreover from this \<open>c < w \<and> w < d\<close> ab cd w have "c \<le> a" "b \<le> d"
          unfolding consecutive_def by (metis less_trans not_le)+
        ultimately show False using cd by simp
      qed
      with cd show ?thesis unfolding def by auto
    qed (use ab w in \<open>unfold def, auto\<close>)
  qed
qed

text \<open>
  The loop keeps: the chords still on the stack are chords of the outline so far, and every
  other chord of it passes within the tolerance of the vertices it skips.
\<close>

lemma dp_loop_chords:
  assumes "distinct stack" and "\<forall>(a, b) \<in> set stack. consecutive keep a b"
    and "\<forall>a b. consecutive keep a b \<longrightarrow> (a, b) \<in> set stack \<or> chord_near ring tol2 a b"
    and "keep' = dp_loop ring tol2 stack keep"
  shows "length keep' = length keep \<and> (\<forall>i < length keep. keep ! i \<longrightarrow> keep' ! i) \<and>
    (\<forall>a b. consecutive keep' a b \<longrightarrow> chord_near ring tol2 a b)"
  using assms
proof (induction ring tol2 stack keep rule: dp_loop.induct)
  case (2 ring tol2 a b stack keep)
  have ab: "consecutive keep a b" using "2.prems"(2) by simp
  show ?case
  proof (cases "worst_between ring tol2 a b")
    case None
    then have "chord_near ring tol2 a b" by (auto simp: chord_near_def dest: worst_between_None)
    with None "2.prems" show ?thesis by (intro "2.IH"(1)) auto
  next
    case (Some w)
    then have w: "a < w" "w < b" by (auto dest: worst_between_Some)
    let ?k = "keep[w := True]" and ?s = "(w, b) # (a, w) # stack"
    have nw: "\<not> keep ! w" "w < length keep" using ab w by (auto simp: consecutive_def)
    note split = consecutive_split [OF ab w]
    have "(w, b) \<notin> set stack" "(a, w) \<notin> set stack"
      using "2.prems"(2) nw(1) by (auto simp: consecutive_def)
    then have "distinct ?s" using "2.prems"(1) w by auto
    moreover have "\<forall>(c, d) \<in> set ?s. consecutive ?k c d"
      using "2.prems"(1,2) by (auto simp: split)
    moreover have "\<forall>c d. consecutive ?k c d \<longrightarrow> (c, d) \<in> set ?s \<or> chord_near ring tol2 c d"
      using "2.prems"(3) by (auto simp: split)
    moreover have "keep' = dp_loop ring tol2 ?s ?k" using "2.prems"(4) Some by simp
    ultimately have "length keep' = length ?k \<and> (\<forall>i < length ?k. ?k ! i \<longrightarrow> keep' ! i) \<and>
        (\<forall>a b. consecutive keep' a b \<longrightarrow> chord_near ring tol2 a b)"
      by (rule "2.IH"(2) [OF Some])
    then show ?thesis by (auto simp: nth_list_update split: if_splits) (metis nth_list_update nth_list_update_neq)
  qed
qed simp

lemma consecutive_around:
  assumes "keep ! l" and "l < i" and "keep ! r" and "i < r" and "r < length keep" and "\<not> keep ! i"
  obtains a b where "consecutive keep a b" and "a < i" and "i < b"
proof -
  let ?A = "{k. k < i \<and> keep ! k}" and ?B = "{k. i < k \<and> k \<le> r \<and> keep ! k}"
  define a where "a = Max ?A"
  define b where "b = Min ?B"
  have fin: "finite ?A" "finite ?B" by auto
  have ne: "l \<in> ?A" "r \<in> ?B" using assms by auto
  have a: "a < i" "keep ! a" and b: "i < b" "b \<le> r" "keep ! b"
    using Max_in [OF fin(1)] Min_in [OF fin(2)] ne unfolding a_def [symmetric] b_def [symmetric] by blast+
  have "\<not> keep ! k" if k: "a < k" "k < b" for k
  proof
    assume kk: "keep ! k"
    consider "k < i" | "k = i" | "i < k" by linarith
    then show False
    proof cases
      case 1
      with kk have "k \<le> a" unfolding a_def by (intro Max_ge [OF fin(1)]) simp
      with k show False by simp
    next
      case 2
      with kk assms show False by simp
    next
      case 3
      moreover have "k \<le> r" using k b by linarith
      ultimately have "b \<le> k" using kk unfolding b_def by (intro Min_le [OF fin(2)]) simp
      with k show False by simp
    qed
  qed
  with a b assms have "consecutive keep a b"
    unfolding consecutive_def by auto
  with a b show ?thesis by (intro that) auto
qed

text \<open>
  C30: Simplifying a ring keeps its end vertices, drops a vertex only when it lies within the
  tolerance of the chord that replaces it, and never leaves fewer than four points where there
  were four; the result is the rounded kept vertices, in order, or all of them.
\<close>
theorem simplify_within_tolerance:
  assumes long: "4 < length ring" and tol: "0 < tol"
  shows "\<exists>keep. length keep = length ring \<and> hd keep \<and> last keep \<and>
      simplifyRing ring tol decimals =
        map (round_coord decimals) (if 4 \<le> length (kept ring keep) then kept ring keep else ring) \<and>
      (\<forall>i < length ring. \<not> keep ! i \<longrightarrow>
         (\<exists>a b. consecutive keep a b \<and> a < i \<and> i < b \<and>
            segmentDistance2 (ring ! i) (ring ! a) (ring ! b) \<le> tol * tol))"
proof -
  let ?n = "length ring"
  define k0 where "k0 = (replicate ?n False)[0 := True, ?n - 1 := True]"
  define keep where "keep = dp_loop ring (tol * tol) [(0, ?n - 1)] k0"
  have n: "0 < ?n" using long by linarith
  have len: "length k0 = ?n" by (simp add: k0_def)
  have k0: "k0 ! i \<longleftrightarrow> i = 0 \<or> i = ?n - 1" if "i < ?n" for i
    using that n by (auto simp: nth_list_update k0_def)
  have cons: "consecutive k0 a b \<longleftrightarrow> (a, b) = (0, ?n - 1)" for a b
  proof
    assume "consecutive k0 a b"
    then have "a < b" "b < ?n" "k0 ! a" "k0 ! b" by (auto simp: consecutive_def len)
    then show "(a, b) = (0, ?n - 1)" using k0 [of a] k0 [of b] by auto
  next
    assume "(a, b) = (0, ?n - 1)"
    then show "consecutive k0 a b" using long n k0 by (auto simp: consecutive_def len)
  qed
  have "length keep = ?n \<and> (\<forall>i < ?n. k0 ! i \<longrightarrow> keep ! i) \<and>
      (\<forall>a b. consecutive keep a b \<longrightarrow> chord_near ring (tol * tol) a b)"
    using dp_loop_chords [of "[(0, ?n - 1)]" k0 ring "tol * tol" keep] by (simp add: cons keep_def len)
  then have keep: "length keep = ?n" "keep ! 0" "keep ! (?n - 1)"
    and near: "\<And>a b. consecutive keep a b \<Longrightarrow> chord_near ring (tol * tol) a b"
    using n k0 [of 0] k0 [of "?n - 1"] by auto
  have "\<exists>a b. consecutive keep a b \<and> a < i \<and> i < b \<and>
      segmentDistance2 (ring ! i) (ring ! a) (ring ! b) \<le> tol * tol"
    if i: "i < ?n" "\<not> keep ! i" for i
  proof -
    have "i \<noteq> 0" "i \<noteq> ?n - 1" using i keep by metis+
    with i n have "0 < i" "i < ?n - 1" "?n - 1 < length keep" using keep by linarith+
    with i obtain a b where "consecutive keep a b" "a < i" "i < b"
      using consecutive_around [of keep 0 i "?n - 1"] keep by blast
    with near show ?thesis unfolding chord_near_def by blast
  qed
  moreover have "keep \<noteq> []" using keep n by auto
  then have "hd keep" "last keep"
    using keep by (simp_all add: hd_conv_nth last_conv_nth)
  moreover have "simplifyRing ring tol decimals =
      map (round_coord decimals) (if 4 \<le> length (kept ring keep) then kept ring keep else ring)"
    using long tol by (simp add: simplifyRing_def Let_def keep_def k0_def)
  ultimately show ?thesis using keep(1) by blast
qed

definition square_ring :: "coord list" where
  "square_ring = [(0, 0, None), (4, 0, None), (4, 4, None), (0, 4, None), (0, 0, None)]"

theorem simplify_within_tolerance_witness:
  "\<exists>keep. length keep = length square_ring \<and> hd keep \<and> last keep \<and>
     simplifyRing square_ring 1 5 =
       map (round_coord 5) (if 4 \<le> length (kept square_ring keep) then kept square_ring keep else square_ring)"
proof -
  have "4 < length square_ring" by (simp add: square_ring_def)
  from simplify_within_tolerance [OF this zero_less_one, of 5] show ?thesis by blast
qed

section \<open>Longitudes\<close>

lemma js_rem_nonneg: "0 \<le> a \<Longrightarrow> 0 < n \<Longrightarrow> js_rem a n = a - n * of_int \<lfloor>a / n\<rfloor>"
  by (simp add: js_rem_def)

lemma js_rem_range: "0 < n \<Longrightarrow> - n < js_rem a n \<and> js_rem a n < n \<and> (0 \<le> a \<longrightarrow> 0 \<le> js_rem a n)"
proof -
  assume n: "0 < n"
  then have "of_int \<lfloor>a / n\<rfloor> * n \<le> a" "a < (of_int \<lfloor>a / n\<rfloor> + 1) * n"
    "(of_int \<lceil>a / n\<rceil> - 1) * n < a" "a \<le> of_int \<lceil>a / n\<rceil> * n"
    by (simp_all add: pos_le_divide_eq [symmetric] pos_divide_less_eq [symmetric]
        pos_less_divide_eq [symmetric] pos_divide_le_eq [symmetric])
      linarith+
  moreover have "a / n \<ge> 0 \<longleftrightarrow> a \<ge> 0" using n by (simp add: zero_le_divide_iff)
  ultimately show ?thesis using n unfolding js_rem_def by (auto simp: algebra_simps)
qed

lemma js_rem_congruent: "\<exists>k :: int. js_rem a n = a - n * of_int k"
  by (auto simp: js_rem_def)

text \<open>The normalised longitude is the same meridian, within half a turn of Greenwich.\<close>

lemma normalizeLongitude_correct:
  "- 180 \<le> normalizeLongitude lon \<and> normalizeLongitude lon \<le> 180 \<and>
   (\<exists>k :: int. normalizeLongitude lon = lon + 360 * of_int k)"
proof -
  let ?y = "js_rem (lon + 180) 360"
  let ?x = "js_rem (?y + 360) 360"
  have y: "0 \<le> ?y + 360" using js_rem_range [of 360 "lon + 180"] by simp
  then have x: "0 \<le> ?x" "?x < 360" using js_rem_range [of 360 "?y + 360"] by auto
  obtain k j :: int where "?y = lon + 180 - 360 * of_int k" "?x = ?y + 360 - 360 * of_int j"
    using js_rem_congruent by metis
  then have c: "?x - 180 = lon + 360 * of_int (1 - j - k)" by (simp add: algebra_simps)
  show ?thesis
  proof (cases "?x - 180 = -180 \<and> lon > 0")
    case True
    then have "normalizeLongitude lon = 180" by (simp add: normalizeLongitude_def)
    moreover have "(180 :: real) = lon + 360 * of_int (2 - j - k)"
      using c True by (simp add: algebra_simps)
    ultimately show ?thesis by (intro conjI exI [of _ "2 - j - k"]) simp_all
  next
    case False
    then have "normalizeLongitude lon = ?x - 180" by (auto simp: normalizeLongitude_def Let_def)
    with c x show ?thesis by (intro conjI exI [of _ "1 - j - k"]) simp_all
  qed
qed

section \<open>The box of a circle\<close>

text \<open>
  The box of a circle that reaches over the pole is not the whole band: the place straight
  across the pole from the centre is at the distance of the radius and outside the box.
\<close>

lemma circle_over_pole:
  "haversineMeters (60, 0) (60, 180) = EARTH_RADIUS_M * (pi / 3) \<and>
   \<not> boundsContain (circleBounds (60, 0) (EARTH_RADIUS_M * (pi / 3))) (60, 180)"
proof
  have c: "cos (60 * DEG) = 1 / 2" by (simp add: DEG_def cos_60 [symmetric])
  have s: "sin (90 * DEG) = 1" by (simp add: DEG_def)
  have "arcsin (1 / 2) = pi / 6"
    using arcsin_sin [of "pi / 6"] by (simp add: sin_30)
  then show "haversineMeters (60, 0) (60, 180) = EARTH_RADIUS_M * (pi / 3)"
    by (simp add: haversineMeters_def Let_def c s power2_eq_square [symmetric] real_sqrt_divide)
  have R: "EARTH_RADIUS_M > 0" by (simp add: EARTH_RADIUS_M_def)
  have d: "EARTH_RADIUS_M * (pi / 3) / EARTH_RADIUS_M / DEG = 60"
    using R by (simp add: DEG_def)
  have w: "EARTH_RADIUS_M * (pi / 3) / (EARTH_RADIUS_M * (1 / 2)) / DEG = 120"
    using R by (simp add: DEG_def)
  have n: "normalizeLongitude (- 120) = - 120" "normalizeLongitude 120 = 120"
    by (simp_all add: normalizeLongitude_def js_rem_def Let_def)
  show "\<not> boundsContain (circleBounds (60, 0) (EARTH_RADIUS_M * (pi / 3))) (60, 180)"
    by (simp only: circleBounds_def Let_def fst_conv snd_conv c d w) (simp add: n boundsContain_def)
qed

end
