(* ===== verification/Date_Time.thy ===== *)
theory Date_Time
  imports Prelude
begin

text \<open>
  Time stamps (\<^verbatim>\<open>packages/world-model/src/time.ts\<close>) and the two methods of the standard
  library they stand on: \<open>Date.parse\<close> on the internal form
  \<open>YYYY-MM-DDTHH:MM:SS(.mmm)?Z\<close> and \<open>toISOString\<close>. A time is a whole number of milliseconds
  since 1970. A text that is not of the internal form is not a time here; the engines may
  accept further forms.
\<close>

section \<open>Decimal numbers\<close>

definition dec_value :: "jstring \<Rightarrow> nat" where
  "dec_value s = foldl (\<lambda>n c. n * 10 + (c - 48)) 0 s"

fun padded :: "nat \<Rightarrow> nat \<Rightarrow> jstring" where
  "padded 0 n = []"
| "padded (Suc k) n = padded k (n div 10) @ [48 + n mod 10]"

fun decimal :: "nat \<Rightarrow> jstring" where
  "decimal n = (if n < 10 then [48 + n] else decimal (n div 10) @ [48 + n mod 10])"

declare decimal.simps [simp del]

lemma length_padded [simp]: "length (padded k n) = k"
  by (induction k arbitrary: n) auto

lemma padded_digits [simp]: "list_all is_digit (padded k n)"
  by (induction k arbitrary: n) (auto simp: is_digit_def)

lemma dec_value_padded [simp]: "n < 10 ^ k \<Longrightarrow> dec_value (padded k n) = n"
proof (induction k arbitrary: n)
  case (Suc k)
  then have "n div 10 < 10 ^ k" by (simp add: less_mult_imp_div_less)
  with Suc.IH [of "n div 10"] show ?case by (simp add: dec_value_def)
qed (simp add: dec_value_def)

lemma decimal_digits: "list_all is_digit (decimal n) \<and> decimal n \<noteq> []"
proof (induction n rule: decimal.induct)
  case (1 n)
  then show ?case by (cases "n < 10") (simp_all add: decimal.simps [of n] is_digit_def)
qed

lemma dec_value_decimal [simp]: "dec_value (decimal n) = n"
proof (induction n rule: decimal.induct)
  case (1 n)
  then show ?case by (cases "n < 10") (simp_all add: decimal.simps [of n] dec_value_def)
qed

section \<open>The calendar\<close>

definition leap :: "int \<Rightarrow> bool" where
  "leap y \<longleftrightarrow> y mod 4 = 0 \<and> y mod 100 \<noteq> 0 \<or> y mod 400 = 0"

text \<open>Days from the first day of the year 0 to the first day of a year.\<close>

definition days_before :: "int \<Rightarrow> int" where
  "days_before y = 365 * y + (y + 3) div 4 - (y + 99) div 100 + (y + 399) div 400"

lemma quotient_step:
  fixes k y :: int
  assumes k: "0 < k"
  shows "(y + k) div k = (y + (k - 1)) div k + (if y mod k = 0 then 1 else 0)"
proof -
  define q r where "q = y div k" and "r = y mod k"
  have y: "y = k * q + r" and r: "0 \<le> r" "r < k" using k by (simp_all add: q_def r_def)
  have "(y + k) div k = q + 1" using k by (simp add: q_def)
  moreover have "(y + (k - 1)) div k = q + (if r = 0 then 0 else 1)"
  proof (rule int_div_pos_eq [of _ _ _ "if r = 0 then k - 1 else r - 1"])
    show "y + (k - 1) = k * (q + (if r = 0 then 0 else 1)) + (if r = 0 then k - 1 else r - 1)"
      by (simp add: y algebra_simps)
  qed (use k r in auto)
  ultimately show ?thesis by (simp add: r_def)
qed

lemma quotient_steps:
  fixes y :: int
  shows "(y + 1 + 3) div 4 = (y + 3) div 4 + (if y mod 4 = 0 then 1 else 0)"
    and "(y + 1 + 99) div 100 = (y + 99) div 100 + (if y mod 100 = 0 then 1 else 0)"
    and "(y + 1 + 399) div 400 = (y + 399) div 400 + (if y mod 400 = 0 then 1 else 0)"
  subgoal using quotient_step [of 4 y] by simp
  subgoal using quotient_step [of 100 y] by simp
  subgoal using quotient_step [of 400 y] by simp
  done

lemma days_before_step: "days_before (y + 1) = days_before y + (if leap y then 366 else 365)"
proof -
  have "y mod 400 = 0 \<Longrightarrow> y mod 100 = 0" "y mod 100 = 0 \<Longrightarrow> y mod 4 = 0"
    using dvd_trans [of 100 400 y] dvd_trans [of 4 100 y] by (simp_all add: mod_eq_0_iff_dvd)
  then show ?thesis unfolding days_before_def leap_def quotient_steps by auto
qed

lemma days_before_less: "days_before y < days_before (y + 1)"
  by (simp add: days_before_step)

function year_from :: "int \<Rightarrow> int \<Rightarrow> int" where
  "year_from n y = (if days_before (y + 1) \<le> n then year_from n (y + 1) else y)"
  by pat_completeness auto
termination
proof (relation "measure (\<lambda>(n, y). nat (n - days_before y))")
  fix n y
  assume "days_before (y + 1) \<le> n"
  with days_before_less [of y] show "((n, y + 1), (n, y)) \<in> measure (\<lambda>(n, y). nat (n - days_before y))"
    by simp
qed simp

declare year_from.simps [simp del]

definition year_of :: "int \<Rightarrow> int" where
  "year_of n = year_from n (n * 400 div 146097 - 1)"

lemma year_from_bounds:
  "days_before y \<le> n \<Longrightarrow>
   days_before (year_from n y) \<le> n \<and> n < days_before (year_from n y + 1)"
proof (induction n y rule: year_from.induct)
  case (1 n y)
  then show ?case by (cases "days_before (y + 1) \<le> n") (simp_all add: year_from.simps [of n y])
qed

lemma year_of_bounds: "days_before (year_of n) \<le> n \<and> n < days_before (year_of n + 1)"
proof -
  define y where "y = n * 400 div 146097 - 1"
  have "146097 * (y + 1) \<le> n * 400" unfolding y_def by simp
  moreover have "400 * days_before y \<le> 146097 * y + 1600"
  proof -
    have "4 * ((y + 3) div 4) \<le> y + 3" "100 * ((y + 99) div 100) \<ge> y" "400 * ((y + 399) div 400) \<le> y + 399"
      by linarith+
    then show ?thesis unfolding days_before_def by (simp add: algebra_simps)
  qed
  ultimately have "400 * days_before y \<le> 400 * n" by (simp add: algebra_simps)
  then have "days_before y \<le> n" by simp
  then show ?thesis using year_from_bounds unfolding year_of_def y_def by blast
qed

lemma days_before_mono: "a \<le> b \<Longrightarrow> days_before a \<le> days_before b"
proof (induction b rule: int_ge_induct)
  case (step b)
  then show ?case using days_before_step [of b] by (simp split: if_splits)
qed simp

lemma year_of_eq: "days_before y \<le> n \<Longrightarrow> n < days_before (y + 1) \<Longrightarrow> year_of n = y"
  using year_of_bounds [of n] days_before_mono [of "y + 1" "year_of n"] days_before_mono [of "year_of n + 1" y]
  by linarith

definition month_lengths :: "int \<Rightarrow> int list" where
  "month_lengths y = [31, if leap y then 29 else 28, 31, 30, 31, 30, 31, 31, 30, 31, 30, 31]"

fun month_day :: "int list \<Rightarrow> int \<Rightarrow> int \<times> int" where
  "month_day [] n = (0, n)"
| "month_day (l # ls) n =
     (if n < l then (0, n) else (case month_day ls (n - l) of (m, d) \<Rightarrow> (m + 1, d)))"

text \<open>The day number of a month and a day counted from 0; a day past its month runs on.\<close>

definition make_day :: "int \<Rightarrow> nat \<Rightarrow> int \<Rightarrow> int" where
  "make_day y m d = days_before y + sum_list (take m (month_lengths y)) + d"

lemma month_day_split:
  "0 \<le> n \<Longrightarrow> n < sum_list ls \<Longrightarrow> \<forall>l \<in> set ls. l \<le> 31 \<Longrightarrow> month_day ls n = (m, d) \<Longrightarrow>
   0 \<le> m \<and> m < int (length ls) \<and> 0 \<le> d \<and> d < 31 \<and> sum_list (take (nat m) ls) + d = n"
proof (induction ls arbitrary: n m d)
  case (Cons l ls)
  show ?case
  proof (cases "n < l")
    case True
    with Cons.prems(4) have "m = 0" "d = n" by simp_all
    moreover have "l \<le> 31" using Cons.prems(3) by simp
    ultimately show ?thesis using Cons.prems(1) True by simp
  next
    case False
    obtain m' d' where md: "month_day ls (n - l) = (m', d')" by fastforce
    with Cons.prems(1-3) False have "0 \<le> m' \<and> m' < int (length ls) \<and> 0 \<le> d' \<and> d' < 31 \<and>
        sum_list (take (nat m') ls) + d' = n - l"
      by (intro Cons.IH) auto
    moreover have "m = m' + 1" "d = d'" using Cons.prems(4) False md by simp_all
    moreover have "nat (m' + 1) = Suc (nat m')" if "0 \<le> m'" using that by simp
    ultimately show ?thesis by simp
  qed
qed simp

definition epoch_day :: int where
  "epoch_day = 719528"

lemma epoch_day_1970: "epoch_day = days_before 1970"
  by (simp add: epoch_day_def days_before_def)

section \<open>Writing and reading a time stamp\<close>

definition two :: "int \<Rightarrow> jstring" where
  "two n = padded 2 (nat n)"

definition iso_year :: "int \<Rightarrow> jstring" where
  "iso_year y =
     (if 0 \<le> y \<and> y \<le> 9999 then padded 4 (nat y)
      else (if y < 0 then jc CHR ''-'' else jc CHR ''+'') # padded 6 (nat \<bar>y\<bar>))"

definition to_iso :: "int \<Rightarrow> jstring" where
  "to_iso t =
     (let day = t div 86400000 + epoch_day;
          ms = t mod 86400000;
          y = year_of day
      in case month_day (month_lengths y) (day - days_before y) of (m, d) \<Rightarrow>
        iso_year y @ js ''-'' @ two (m + 1) @ js ''-'' @ two (d + 1) @ js ''T'' @
        two (ms div 3600000) @ js '':'' @ two (ms div 60000 mod 60) @ js '':'' @
        two (ms div 1000 mod 60) @ js ''.'' @ padded 3 (nat (ms mod 1000)) @ js ''Z'')"

text \<open>The groups of the regular expression.\<close>

definition iso_fraction :: "jstring \<Rightarrow> nat option" where
  "iso_fraction s =
     (case s of
        [z] \<Rightarrow> if z = jc CHR ''Z'' then Some 0 else None
      | p # ds \<Rightarrow>
          if p = jc CHR ''.'' \<and> last ds = jc CHR ''Z'' \<and> list_all is_digit (butlast ds) \<and>
             1 \<le> length (butlast ds) \<and> length (butlast ds) \<le> 3
          then Some (dec_value (butlast ds) * 10 ^ (3 - length (butlast ds))) else None
      | [] \<Rightarrow> None)"

definition iso_fields :: "jstring \<Rightarrow> (nat \<times> nat \<times> nat \<times> nat \<times> nat \<times> nat \<times> nat) option" where
  "iso_fields s =
     (if length s < 20 then None
      else if list_all is_digit (slice 0 4 s) \<and> s ! 4 = jc CHR ''-'' \<and>
              list_all is_digit (slice 5 7 s) \<and> s ! 7 = jc CHR ''-'' \<and>
              list_all is_digit (slice 8 10 s) \<and> s ! 10 = jc CHR ''T'' \<and>
              list_all is_digit (slice 11 13 s) \<and> s ! 13 = jc CHR '':'' \<and>
              list_all is_digit (slice 14 16 s) \<and> s ! 16 = jc CHR '':'' \<and>
              list_all is_digit (slice 17 19 s)
           then (case iso_fraction (drop 19 s) of
                   None \<Rightarrow> None
                 | Some ms \<Rightarrow> Some (dec_value (slice 0 4 s), dec_value (slice 5 7 s), dec_value (slice 8 10 s),
                     dec_value (slice 11 13 s), dec_value (slice 14 16 s), dec_value (slice 17 19 s), ms))
           else None)"

definition date_parse :: "jstring \<Rightarrow> int option" where
  "date_parse s =
     (case iso_fields s of
        None \<Rightarrow> None
      | Some (y, mo, d, h, mi, sec, ms) \<Rightarrow>
          if 1 \<le> mo \<and> mo \<le> 12 \<and> 1 \<le> d \<and> d \<le> 31 \<and> mi < 60 \<and> sec < 60 \<and>
             (h < 24 \<or> h = 24 \<and> mi = 0 \<and> sec = 0 \<and> ms = 0)
          then Some ((make_day (int y) (mo - 1) (int d - 1) - epoch_day) * 86400000 +
                 int h * 3600000 + int mi * 60000 + int sec * 1000 + int ms)
          else None)"

definition isIsoTimestamp :: "jstring \<Rightarrow> bool" where
  "isIsoTimestamp s \<longleftrightarrow> iso_fields s \<noteq> None \<and> date_parse s \<noteq> None"

text \<open>A number of seconds or milliseconds from a source; its fraction is dropped by \<open>Date\<close>.\<close>

datatype time_scale = Milliseconds | Seconds

definition epochToIso :: "real \<Rightarrow> time_scale \<Rightarrow> jstring option" where
  "epochToIso v scale =
     (if v \<le> 0 then None
      else let ms = (if scale = Seconds then v * 1000 else v)
           in if ms > 8640000000000000 then None else Some (to_iso \<lfloor>ms\<rfloor>))"

definition ageMs :: "jstring \<Rightarrow> int \<Rightarrow> int option" where
  "ageMs observed now = map_option (\<lambda>t. now - t) (date_parse observed)"

record time_range =
  tr_start :: jstring
  tr_end :: jstring

text \<open>A comparison with a text that is no time is false.\<close>

definition timeRangeContains :: "time_range \<Rightarrow> jstring \<Rightarrow> bool" where
  "timeRangeContains r at_time =
     (case (date_parse at_time, date_parse (tr_start r), date_parse (tr_end r)) of
        (Some t, Some a, Some b) \<Rightarrow> t \<ge> a \<and> t \<le> b
      | _ \<Rightarrow> False)"

definition isValidTimeRange :: "time_range \<Rightarrow> bool" where
  "isValidTimeRange r \<longleftrightarrow> isIsoTimestamp (tr_start r) \<and> isIsoTimestamp (tr_end r) \<and>
     (case (date_parse (tr_start r), date_parse (tr_end r)) of (Some a, Some b) \<Rightarrow> a \<le> b | _ \<Rightarrow> False)"

section \<open>Round trip\<close>

definition two_ok :: "int \<Rightarrow> bool" where
  "two_ok n \<longleftrightarrow> list_all is_digit (two n) \<and> dec_value (two n) = nat n \<and> length (two n) = 2"

lemma two_ok: "0 \<le> n \<Longrightarrow> n < 100 \<Longrightarrow> two_ok n"
  unfolding two_ok_def two_def by (simp add: nat_less_iff numeral_2_eq_2 [symmetric])

lemma iso_fields_written:
  assumes "length y = 4" "length mo = 2" "length d = 2" "length h = 2" "length mi = 2" "length s = 2" "length ms = 3"
    and "list_all is_digit y" "list_all is_digit mo" "list_all is_digit d" "list_all is_digit h"
      "list_all is_digit mi" "list_all is_digit s" "list_all is_digit ms"
  shows "iso_fields (y @ js ''-'' @ mo @ js ''-'' @ d @ js ''T'' @ h @ js '':'' @ mi @ js '':'' @ s @
      js ''.'' @ ms @ js ''Z'') =
    Some (dec_value y, dec_value mo, dec_value d, dec_value h, dec_value mi, dec_value s, dec_value ms)"
proof -
  have l: "length xs = 4 \<Longrightarrow> \<exists>a b c d. xs = [a, b, c, d]" "length xs = 3 \<Longrightarrow> \<exists>a b c. xs = [a, b, c]"
    "length xs = 2 \<Longrightarrow> \<exists>a b. xs = [a, b]" for xs :: jstring
    by (auto simp: length_Suc_conv numeral_eq_Suc)
  show ?thesis
    using l(1) [OF assms(1)] l(3) [OF assms(2)] l(3) [OF assms(3)] l(3) [OF assms(4)] l(3) [OF assms(5)]
      l(3) [OF assms(6)] l(2) [OF assms(7)] assms(8-)
    by (auto simp: iso_fields_def slice_def iso_fraction_def)
qed

lemma month_lengths_sum:
  "sum_list (month_lengths y) = (if leap y then 366 else 365) \<and> (\<forall>l \<in> set (month_lengths y). l \<le> 31) \<and>
   length (month_lengths y) = 12"
  by (simp add: month_lengths_def)

lemma clock_parts:
  fixes ms :: int
  assumes "0 \<le> ms" and "ms < 86400000"
  shows "ms div 3600000 < 24" and "0 \<le> ms div 3600000"
    and "ms div 3600000 * 3600000 + ms div 60000 mod 60 * 60000 + ms div 1000 mod 60 * 1000 + ms mod 1000 = ms"
proof -
  have "ms div 60000 div 60 = ms div 3600000" "ms div 1000 div 60 = ms div 60000"
    using zdiv_zmult2_eq [of 60 ms 60000] zdiv_zmult2_eq [of 60 ms 1000] by simp_all
  moreover have "60 * (ms div 60000 div 60) + ms div 60000 mod 60 = ms div 60000"
    "60 * (ms div 1000 div 60) + ms div 1000 mod 60 = ms div 1000" "1000 * (ms div 1000) + ms mod 1000 = ms"
    by (rule mult_div_mod_eq)+
  ultimately show "ms div 3600000 * 3600000 + ms div 60000 mod 60 * 60000 + ms div 1000 mod 60 * 1000 +
      ms mod 1000 = ms"
    by linarith
qed (use assms in linarith)+

lemma date_parse_fields:
  assumes "iso_fields s = Some (nat y, nat (m + 1), nat (d + 1), nat h, nat mi, nat sec, nat ms)"
    and "0 \<le> y" and "0 \<le> m" "m < 12" and "0 \<le> d" "d < 31" and "0 \<le> h" "h < 24"
    and "0 \<le> mi" "mi < 60" and "0 \<le> sec" "sec < 60" and "0 \<le> ms"
  shows "date_parse s = Some ((make_day y (nat m) d - epoch_day) * 86400000 +
    h * 3600000 + mi * 60000 + sec * 1000 + ms)"
proof -
  have "nat (m + 1) - 1 = nat m" "1 \<le> nat (m + 1)" "nat (m + 1) \<le> 12" "1 \<le> nat (d + 1)" "nat (d + 1) \<le> 31"
    using assms by linarith+
  then show ?thesis using assms by (simp add: date_parse_def nat_less_iff)
qed



end
