(* ===== verification/World_Model.thy ===== *)
theory World_Model
  imports Geo Date_Time
begin

text \<open>
  The contracts of the world model (\<^verbatim>\<open>packages/world-model/src\<close>): JSON payloads, provenance,
  observations, objects, object identifiers, freshness policies and the confidence score.
  Scores and ages are exact reals; an object of the source is an association list, and spreading
  one over another keeps the place of a key that is set again.
\<close>

section \<open>JSON\<close>

datatype json =
    JNull
  | JBool bool
  | JNum real
  | JStr jstring
  | JArr "json list"
  | JObj "(jstring \<times> json) list"

type_synonym payload = "(jstring \<times> json) list"

definition spread :: "('k \<times> 'v) list \<Rightarrow> ('k \<times> 'v) list \<Rightarrow> ('k \<times> 'v) list" where
  "spread a b = fold (\<lambda>(k, v) m. AList.update k v m) b a"

lemma spread_lookup [map_simps]:
  "map_of (spread a b) k = (case map_of (rev b) k of Some v \<Rightarrow> Some v | None \<Rightarrow> map_of a k)"
proof (induction b arbitrary: a)
  case (Cons e b)
  obtain k' v where "e = (k', v)" by (cases e)
  with Cons.IH [of "AList.update k' v a"] show ?case
    by (auto simp: spread_def map_simps map_add_def split: option.splits)
qed (simp add: spread_def)

section \<open>Observations and objects\<close>

datatype provenance_origin = Live | Cached | Historical | Recorded | Local_Origin | Derived_Origin | User

record observation_ref =
  rf_observation :: jstring
  rf_provider :: jstring
  rf_observed :: jstring

record provenance =
  pv_provider :: jstring
  pv_source :: jstring
  pv_origin :: provenance_origin
  pv_ref :: "jstring option"
  pv_attribution :: "jstring option"
  pv_license :: "jstring option"
  pv_terms :: "jstring option"
  pv_received :: jstring
  pv_derived :: "observation_ref list option"

datatype source_quality = Authoritative | Crowdsourced | Derived | Unknown_Quality

record quality =
  ql_accuracy :: "real option"
  ql_complete :: bool
  ql_source :: source_quality
  ql_flags :: "jstring list option"

text \<open>\<open>ob_cell\<close> is which object in memory an observation is: handed in again, it is the same.\<close>

record observation =
  ob_cell :: nat
  ob_id :: jstring
  ob_provider :: jstring
  ob_external :: "jstring option"
  ob_type :: jstring
  ob_observed :: jstring
  ob_received :: jstring
  ob_from :: "jstring option"
  ob_until :: "jstring option"
  ob_position :: "geo_position option"
  ob_geometry :: "world_geometry option"
  ob_payload :: payload
  ob_quality :: quality
  ob_hash :: "jstring option"
  ob_provenance :: provenance

definition observationId :: "jstring \<Rightarrow> jstring \<Rightarrow> jstring \<Rightarrow> jstring" where
  "observationId p e t = p @ js '':'' @ e @ js '':'' @ t"

datatype freshness_class = LIVE | RECENT | STALE | HISTORICAL | UNKNOWN_FRESHNESS

record obj_motion =
  mo_speed :: "real option"
  mo_heading :: "real option"
  mo_vertical :: "real option"

datatype media_kind = Image_Media | Stream_Media | Snapshot_Media | Audio

record media =
  me_kind :: media_kind
  me_ref :: jstring
  me_label :: "jstring option"
  me_mime :: "jstring option"

datatype link_rel = Source_Link | Terms_Link | Details_Link | Related_Link | Attribution_Link

record link =
  li_rel :: link_rel
  li_href :: jstring
  li_label :: "jstring option"

record world_object =
  wo_id :: jstring
  wo_type :: jstring
  wo_refs :: "observation_ref list"
  wo_position :: "geo_position option"
  wo_geometry :: "world_geometry option"
  wo_motion :: "obj_motion option"
  wo_observed :: jstring
  wo_updated :: jstring
  wo_until :: "jstring option"
  wo_freshness :: freshness_class
  wo_confidence :: real
  wo_labels :: "(jstring \<times> jstring) list"
  wo_properties :: payload
  wo_media :: "media list option"
  wo_links :: "link list option"
  wo_provenance :: provenance

section \<open>Identifiers\<close>

definition lower :: "jchar \<Rightarrow> jchar" where
  "lower c = (if is_upper c then c + 32 else c)"

definition upper :: "jchar \<Rightarrow> jchar" where
  "upper c = (if is_lower c then c - 32 else c)"

definition is_alnum :: "jchar \<Rightarrow> bool" where
  "is_alnum c \<longleftrightarrow> is_lower c \<or> is_upper c \<or> is_digit c"

text \<open>The regular expressions of the two kinds of part.\<close>

definition safe_part :: "jstring \<Rightarrow> bool" where
  "safe_part s \<longleftrightarrow>
     (case s of [] \<Rightarrow> False
      | c # cs \<Rightarrow> (is_lower c \<or> is_digit c) \<and>
          list_all (\<lambda>d. is_lower d \<or> is_digit d \<or> d \<in> set (js ''._-'')) cs)"

definition value_char :: "jchar \<Rightarrow> bool" where
  "value_char d \<longleftrightarrow> is_alnum d \<or> d \<in> set (js ''._:+@-'')"

definition safe_value :: "jstring \<Rightarrow> bool" where
  "safe_value s \<longleftrightarrow>
     (case s of [] \<Rightarrow> False | c # cs \<Rightarrow> is_alnum c \<and> list_all value_char cs)"

datatype id_error = Invalid_Type jstring | Invalid_Namespace jstring | Invalid_Value jstring

definition makeObjectId :: "jstring \<Rightarrow> jstring \<Rightarrow> jstring \<Rightarrow> id_error + jstring" where
  "makeObjectId ty ns val =
     (if \<not> safe_part ty then Inl (Invalid_Type ty)
      else if \<not> safe_part ns then Inl (Invalid_Namespace ns)
      else let v = trim val
           in if \<not> safe_value v then Inl (Invalid_Value val)
              else Inr (ty @ js '':'' @ ns @ js '':'' @ v))"

record parsed_id =
  pi_type :: jstring
  pi_namespace :: jstring
  pi_value :: jstring

definition parseObjectId :: "jstring \<Rightarrow> parsed_id option" where
  "parseObjectId i =
     (case index_of (jc CHR '':'') i of
        None \<Rightarrow> None
      | Some f \<Rightarrow>
          if f = 0 then None
          else (case index_of (jc CHR '':'') (drop (f + 1) i) of
                  None \<Rightarrow> None
                | Some n \<Rightarrow>
                    let s = f + 1 + n
                    in if s \<le> f + 1 \<or> s = length i - 1 then None
                       else Some \<lparr>pi_type = take f i, pi_namespace = slice (f + 1) s i,
                                  pi_value = drop (s + 1) i\<rparr>))"

definition authoritative_namespaces :: "jstring list" where
  "authoritative_namespaces = map js [''icao24'', ''mmsi'', ''norad'', ''usgs'', ''imo'', ''icao'',
     ''iata'', ''wmo'', ''nws'', ''firms'']"

definition isAuthoritativeId :: "jstring \<Rightarrow> bool" where
  "isAuthoritativeId i =
     (case parseObjectId i of None \<Rightarrow> False | Some p \<Rightarrow> pi_namespace p \<in> set authoritative_namespaces)"

text \<open>The builders of \<open>Ids\<close>.\<close>

definition aircraftByIcao24 :: "jstring \<Rightarrow> id_error + jstring" where
  "aircraftByIcao24 hex = makeObjectId (js ''aircraft'') (js ''icao24'') (map lower hex)"

definition vesselByMmsi :: "jstring \<Rightarrow> id_error + jstring" where
  "vesselByMmsi mmsi = makeObjectId (js ''vessel'') (js ''mmsi'') mmsi"

definition satelliteByNorad :: "jstring \<Rightarrow> id_error + jstring" where
  "satelliteByNorad norad = makeObjectId (js ''satellite'') (js ''norad'') norad"

definition earthquakeByUsgs :: "jstring \<Rightarrow> id_error + jstring" where
  "earthquakeByUsgs i = makeObjectId (js ''earthquake'') (js ''usgs'') i"

definition airportByIcao :: "jstring \<Rightarrow> id_error + jstring" where
  "airportByIcao icao = makeObjectId (js ''airport'') (js ''icao'') (map upper icao)"

lemma safe_part_colon: "safe_part s \<Longrightarrow> 58 \<notin> set s \<and> s \<noteq> []"
  by (cases s) (auto simp: safe_part_def list_all_iff is_lower_def is_digit_def)

lemma safe_value_nonempty: "safe_value s \<Longrightarrow> s \<noteq> []"
  by (auto simp: safe_value_def)

lemma parse_joined:
  assumes "58 \<notin> set ty" "ty \<noteq> []" "58 \<notin> set ns" "ns \<noteq> []" "v \<noteq> []"
  shows "parseObjectId (ty @ js '':'' @ ns @ js '':'' @ v) =
    Some \<lparr>pi_type = ty, pi_namespace = ns, pi_value = v\<rparr>"
proof -
  have "index_of 58 (ty @ 58 # ns @ 58 # v) = Some (length ty)"
    "index_of 58 (ns @ 58 # v) = Some (length ns)"
    using assms by (auto intro!: index_of_append)
  then show ?thesis
    using assms by (simp add: parseObjectId_def Let_def slice_def)
qed

text \<open>
  C39: An identifier that was built parses back to its type, its namespace and its trimmed
  value, whatever separators the value itself contains.
\<close>
theorem object_id_roundtrip:
  assumes "makeObjectId ty ns val = Inr i"
  shows "parseObjectId i = Some \<lparr>pi_type = ty, pi_namespace = ns, pi_value = trim val\<rparr> \<and>
    (isAuthoritativeId i \<longleftrightarrow> ns \<in> set authoritative_namespaces)"
proof -
  have "safe_part ty" "safe_part ns" "safe_value (trim val)"
    and i: "i = ty @ js '':'' @ ns @ js '':'' @ trim val"
    using assms by (auto simp: makeObjectId_def Let_def split: if_splits)
  then have "parseObjectId i = Some \<lparr>pi_type = ty, pi_namespace = ns, pi_value = trim val\<rparr>"
    unfolding i by (intro parse_joined) (auto dest: safe_part_colon safe_value_nonempty)
  then show ?thesis by (simp add: isAuthoritativeId_def)
qed

theorem object_id_roundtrip_witness:
  "parseObjectId (js ''camera:fintraffic:C01:02'') =
     Some \<lparr>pi_type = js ''camera'', pi_namespace = js ''fintraffic'', pi_value = js ''C01:02''\<rparr>"
proof -
  have t: "trim (js ''C01:02'') = js ''C01:02''" by (rule trim_id) (simp add: is_space_def)
  have "makeObjectId (js ''camera'') (js ''fintraffic'') (js ''C01:02'') = Inr (js ''camera:fintraffic:C01:02'')"
    unfolding makeObjectId_def t
    by (simp add: safe_part_def safe_value_def value_char_def is_alnum_def is_lower_def is_upper_def is_digit_def)
  from object_id_roundtrip [OF this] show ?thesis unfolding t by simp
qed

section \<open>Freshness\<close>

record freshness_policy =
  liveSeconds :: real
  recentSeconds :: real
  expireSeconds :: "real option"

definition policy :: "real \<Rightarrow> real \<Rightarrow> real option \<Rightarrow> freshness_policy" where
  "policy l r e = \<lparr>liveSeconds = l, recentSeconds = r, expireSeconds = e\<rparr>"

definition DEFAULT_FRESHNESS_POLICIES :: "(jstring \<times> freshness_policy) list" where
  "DEFAULT_FRESHNESS_POLICIES =
    [(js ''aircraft'', policy 30 90 (Some 600)),
     (js ''vessel'', policy 180 900 (Some (3 * 3600))),
     (js ''satellite'', policy 15 120 (Some (7 * 24 * 3600))),
     (js ''earthquake'', policy 3600 (24 * 3600) None),
     (js ''fire-detection'', policy (3 * 3600) (24 * 3600) (Some (7 * 24 * 3600))),
     (js ''storm'', policy 1800 (6 * 3600) (Some (48 * 3600))),
     (js ''weather-station'', policy 1800 (3 * 3600) (Some (24 * 3600))),
     (js ''weather-alert'', policy 1800 (6 * 3600) (Some (48 * 3600))),
     (js ''camera'', policy 120 1800 None),
     (js ''transit-vehicle'', policy 30 120 (Some 900)),
     (js ''traffic-segment'', policy 300 1800 (Some (3 * 3600))),
     (js ''infrastructure'', policy (365 * 24 * 3600) (3 * 365 * 24 * 3600) None),
     (js ''airport'', policy (365 * 24 * 3600) (3 * 365 * 24 * 3600) None),
     (js ''port'', policy (365 * 24 * 3600) (3 * 365 * 24 * 3600) None),
     (js ''place'', policy (365 * 24 * 3600) (3 * 365 * 24 * 3600) None),
     (js ''launch'', policy 3600 (24 * 3600) (Some (30 * 24 * 3600))),
     (js ''sensor'', policy 60 600 (Some (24 * 3600))),
     (js ''imagery-scene'', policy (24 * 3600) (7 * 24 * 3600) (Some (30 * 24 * 3600)))]"

definition FALLBACK_FRESHNESS_POLICY :: freshness_policy where
  "FALLBACK_FRESHNESS_POLICY = policy 300 3600 (Some (24 * 3600))"

type_synonym policies = "(jstring \<times> freshness_policy) list"

definition freshnessPolicyFor :: "jstring \<Rightarrow> policies \<Rightarrow> freshness_policy" where
  "freshnessPolicyFor ty overrides =
     (case map_of overrides ty of Some p \<Rightarrow> p
      | None \<Rightarrow> (case map_of DEFAULT_FRESHNESS_POLICIES ty of Some p \<Rightarrow> p
                 | None \<Rightarrow> FALLBACK_FRESHNESS_POLICY))"

text \<open>The time is none when it could not be read.\<close>

definition classifyFreshness :: "int option \<Rightarrow> int \<Rightarrow> freshness_policy \<Rightarrow> freshness_class" where
  "classifyFreshness observed now p =
     (case observed of
        None \<Rightarrow> UNKNOWN_FRESHNESS
      | Some t \<Rightarrow>
          let age = of_int (now - t) / 1000
          in if age \<le> liveSeconds p then LIVE
             else if age \<le> recentSeconds p then RECENT else STALE)"

definition isExpired :: "int option \<Rightarrow> int \<Rightarrow> freshness_policy \<Rightarrow> bool" where
  "isExpired observed now p =
     (case expireSeconds p of
        None \<Rightarrow> False
      | Some e \<Rightarrow> (case observed of None \<Rightarrow> True | Some t \<Rightarrow> of_int (now - t) / 1000 > e))"

section \<open>Confidence\<close>

fun quality_weight :: "source_quality \<Rightarrow> real" where
  "quality_weight Authoritative = 1"
| "quality_weight Crowdsourced = 7 / 10"
| "quality_weight Derived = 1 / 2"
| "quality_weight Unknown_Quality = 3 / 10"

fun recency_weight :: "freshness_class \<Rightarrow> real" where
  "recency_weight LIVE = 1"
| "recency_weight RECENT = 3 / 4"
| "recency_weight STALE = 2 / 5"
| "recency_weight HISTORICAL = 3 / 5"
| "recency_weight UNKNOWN_FRESHNESS = 1 / 5"

record confidence_inputs =
  ci_quality :: source_quality
  ci_freshness :: freshness_class
  ci_accuracy :: "real option"
  ci_providers :: nat
  ci_authoritative :: bool

definition precisionFactor :: "real option \<Rightarrow> real" where
  "precisionFactor a =
     (case a of None \<Rightarrow> 1 / 2
      | Some m \<Rightarrow> if m \<le> 50 then 1 else if m \<le> 500 then 4 / 5 else if m \<le> 5000 then 3 / 5 else 2 / 5)"

definition computeConfidence :: "confidence_inputs \<Rightarrow> real" where
  "computeConfidence i =
     (let score = 3 / 10 * quality_weight (ci_quality i) + 3 / 10 * recency_weight (ci_freshness i) +
            15 / 100 * precisionFactor (ci_accuracy i) +
            1 / 10 * (if ci_providers i \<ge> 2 then 1 else 7 / 10) +
            15 / 100 * (if ci_authoritative i then 1 else 1 / 2)
      in max 0 (min 1 (of_int \<lfloor>score * 1000 + 1 / 2\<rfloor> / 1000)))"

datatype confidence_class = HIGH | MEDIUM | LOW | UNKNOWN_CONFIDENCE

definition classifyConfidence :: "real \<Rightarrow> confidence_class" where
  "classifyConfidence s =
     (if s \<ge> 4 / 5 then HIGH else if s \<ge> 55 / 100 then MEDIUM else if s \<ge> 3 / 10 then LOW
      else UNKNOWN_CONFIDENCE)"

text \<open>The clamp never acts, and an object is never of unknown confidence.\<close>

lemma confidence_range: "355 / 1000 \<le> computeConfidence i \<and> computeConfidence i \<le> 1"
proof -
  define score where "score = 3 / 10 * quality_weight (ci_quality i) + 3 / 10 * recency_weight (ci_freshness i) +
      15 / 100 * precisionFactor (ci_accuracy i) + 1 / 10 * (if ci_providers i \<ge> 2 then 1 else 7 / 10) +
      15 / 100 * (if ci_authoritative i then 1 else 1 / 2 :: real)"
  have q: "3 / 10 \<le> quality_weight (ci_quality i)" "quality_weight (ci_quality i) \<le> 1"
    by (cases "ci_quality i"; simp)+
  have f: "1 / 5 \<le> recency_weight (ci_freshness i)" "recency_weight (ci_freshness i) \<le> 1"
    by (cases "ci_freshness i"; simp)+
  have p: "2 / 5 \<le> precisionFactor (ci_accuracy i)" "precisionFactor (ci_accuracy i) \<le> 1"
    by (auto simp: precisionFactor_def split: option.splits)
  have s: "355 / 1000 \<le> score" "score \<le> 1"
    using q f p unfolding score_def
    by (cases "ci_providers i \<ge> 2"; cases "ci_authoritative i"; simp)+
  have "355 \<le> \<lfloor>score * 1000 + 1 / 2\<rfloor>" "\<lfloor>score * 1000 + 1 / 2\<rfloor> \<le> 1000"
    using s by (simp_all add: le_floor_iff floor_le_iff)
  then obtain n :: int where "\<lfloor>score * 1000 + 1 / 2\<rfloor> = n" "355 \<le> n" "n \<le> 1000" by blast
  moreover have "computeConfidence i = max 0 (min 1 (of_int \<lfloor>score * 1000 + 1 / 2\<rfloor> / 1000))"
    unfolding computeConfidence_def Let_def score_def by (rule refl)
  ultimately have "computeConfidence i = of_int n / 1000" "355 \<le> (of_int n :: real)" "of_int n \<le> (1000 :: real)"
    by simp_all
  then show ?thesis by simp
qed

end
