(* ===== verification/Identity.thy ===== *)
theory Identity
  imports World_Model
begin

text \<open>
  Identity resolution (\<^verbatim>\<open>packages/identity/src/index.ts\<close>): the rule that gives every
  observation the identifier of one world object. A rule throws, declines, or resolves.
\<close>

section \<open>Rules\<close>

record resolution =
  rs_object :: jstring
  rs_authoritative :: bool
  rs_rule :: jstring

type_synonym rule = "observation \<Rightarrow> id_error + resolution option"

definition icao24_text :: "jstring \<Rightarrow> bool" where
  "icao24_text s \<longleftrightarrow> length s = 6 \<and> list_all is_hex s"

definition mmsi_text :: "jstring \<Rightarrow> bool" where
  "mmsi_text s \<longleftrightarrow> length s = 9 \<and> list_all is_digit s"

definition norad_text :: "jstring \<Rightarrow> bool" where
  "norad_text s \<longleftrightarrow> 1 \<le> length s \<and> length s \<le> 9 \<and> list_all is_digit s"

definition icao_airport_text :: "jstring \<Rightarrow> bool" where
  "icao_airport_text s \<longleftrightarrow> length s = 4 \<and> list_all (\<lambda>c. is_lower c \<or> is_upper c) s"

text \<open>
  A number as text: the digits of a whole number below \<open>10 ^ 21\<close>, and otherwise its decimal
  expansion, of which only the first twenty places after the point are written.
\<close>

fun fraction_digits :: "nat \<Rightarrow> real \<Rightarrow> jstring" where
  "fraction_digits 0 f = []"
| "fraction_digits (Suc k) f =
     (if f = 0 then [] else (48 + nat \<lfloor>f * 10\<rfloor>) # fraction_digits k (f * 10 - of_int \<lfloor>f * 10\<rfloor>))"

definition number_text :: "real \<Rightarrow> jstring" where
  "number_text x =
     (let n = nat \<lfloor>\<bar>x\<bar>\<rfloor>; f = \<bar>x\<bar> - of_nat n
      in (if x < 0 then js ''-'' else []) @ decimal n @
         (if f = 0 then [] else jc CHR ''.'' # fraction_digits 20 f))"

definition str :: "json option \<Rightarrow> jstring option" where
  "str v =
     (case v of
        Some (JStr s) \<Rightarrow> if trim s \<noteq> [] then Some (trim s) else None
      | Some (JNum x) \<Rightarrow> Some (number_text x)
      | _ \<Rightarrow> None)"

text \<open>The payload's field, or the external id when it has the form.\<close>

definition claimed :: "jstring \<Rightarrow> (jstring \<Rightarrow> bool) \<Rightarrow> observation \<Rightarrow> jstring option" where
  "claimed key form ob =
     (case str (map_of (ob_payload ob) key) of
        Some s \<Rightarrow> Some s
      | None \<Rightarrow> (case ob_external ob of
                  Some e \<Rightarrow> if e \<noteq> [] \<and> form e then Some e else None
                | None \<Rightarrow> None))"

definition by_field :: "jstring \<Rightarrow> (jstring \<Rightarrow> bool) \<Rightarrow> (jstring \<Rightarrow> id_error + jstring) \<Rightarrow> jstring \<Rightarrow> rule" where
  "by_field key form build name ob =
     (case claimed key form ob of
        None \<Rightarrow> Inr None
      | Some s \<Rightarrow>
          if s = [] \<or> \<not> form s then Inr None
          else (case build s of
                  Inl e \<Rightarrow> Inl e
                | Inr i \<Rightarrow> Inr (Some \<lparr>rs_object = i, rs_authoritative = True, rs_rule = name\<rparr>)))"

definition aircraft_rule :: rule where
  "aircraft_rule = by_field (js ''icao24'') icao24_text aircraftByIcao24 (js ''aircraft.icao24'')"

definition vessel_rule :: rule where
  "vessel_rule = by_field (js ''mmsi'') mmsi_text vesselByMmsi (js ''vessel.mmsi'')"

definition satellite_rule :: rule where
  "satellite_rule = by_field (js ''noradId'') norad_text satelliteByNorad (js ''satellite.norad'')"

definition airport_rule :: rule where
  "airport_rule = by_field (js ''icao'') icao_airport_text airportByIcao (js ''airport.icao'')"

definition earthquake_rule :: rule where
  "earthquake_rule ob =
     (case ob_external ob of
        None \<Rightarrow> Inr None
      | Some e \<Rightarrow>
          if ob_provider ob \<noteq> js ''usgs-earthquakes'' \<or> e = [] then Inr None
          else (case earthquakeByUsgs e of
                  Inl err \<Rightarrow> Inl err
                | Inr i \<Rightarrow> Inr (Some \<lparr>rs_object = i, rs_authoritative = True,
                    rs_rule = js ''earthquake.usgs''\<rparr>)))"

section \<open>The resolver\<close>

type_synonym resolver = "(jstring \<times> rule list) list"

definition authoritativeRules :: resolver where
  "authoritativeRules =
     [(js ''aircraft'', [aircraft_rule]), (js ''vessel'', [vessel_rule]),
      (js ''satellite'', [satellite_rule]), (js ''earthquake'', [earthquake_rule]),
      (js ''airport'', [airport_rule])]"

definition addRule :: "jstring \<Rightarrow> rule \<Rightarrow> resolver \<Rightarrow> resolver" where
  "addRule ty r rs = AList.update ty ((case map_of rs ty of Some l \<Rightarrow> l | None \<Rightarrow> []) @ [r]) rs"

fun first_match :: "rule list \<Rightarrow> observation \<Rightarrow> id_error + resolution option" where
  "first_match [] ob = Inr None"
| "first_match (r # rs) ob =
     (case r ob of Inl e \<Rightarrow> Inl e | Inr (Some x) \<Rightarrow> Inr (Some x) | Inr None \<Rightarrow> first_match rs ob)"

fun hex_text :: "nat \<Rightarrow> jstring" where
  "hex_text n =
     (let d = n mod 16; c = (if d < 10 then 48 + d else 87 + d)
      in if n < 16 then [c] else hex_text (n div 16) @ [c])"

declare hex_text.simps [simp del]

definition encodeValue :: "jstring \<Rightarrow> jstring" where
  "encodeValue val =
     (let out = concat (map (\<lambda>c. if value_char c then [c] else jc CHR ''_'' # hex_text c) val)
      in if out \<noteq> [] \<and> is_alnum (hd out) then out else jc CHR ''x'' # out)"

definition resolve :: "resolver \<Rightarrow> observation \<Rightarrow> id_error + resolution" where
  "resolve rs ob =
     (case first_match (case map_of rs (ob_type ob) of Some l \<Rightarrow> l | None \<Rightarrow> []) ob of
        Inl e \<Rightarrow> Inl e
      | Inr (Some r) \<Rightarrow> Inr r
      | Inr None \<Rightarrow>
          let val = (case ob_external ob of Some e \<Rightarrow> e | None \<Rightarrow> ob_id ob);
              i = (case makeObjectId (ob_type ob) (ob_provider ob) val of
                     Inr i \<Rightarrow> Inr i
                   | Inl _ \<Rightarrow> makeObjectId (ob_type ob) (ob_provider ob) (encodeValue val))
          in (case i of
                Inl e \<Rightarrow> Inl e
              | Inr i \<Rightarrow> Inr \<lparr>rs_object = i, rs_authoritative = isAuthoritativeId i,
                             rs_rule = js ''provider-scoped''\<rparr>))"

section \<open>Every observation has an identifier\<close>

lemma alnum_value_char: "is_alnum c \<Longrightarrow> value_char c"
  by (simp add: value_char_def)

lemma hex_text_value: "list_all value_char (hex_text n)"
proof (induction n rule: hex_text.induct)
  case (1 n)
  have "is_alnum (if n mod 16 < 10 then 48 + n mod 16 else 87 + n mod 16)"
    using mod_less_divisor [of 16 n] by (auto simp: is_alnum_def is_digit_def is_lower_def)
  with 1 show ?case
    by (cases "n < 16") (simp_all add: hex_text.simps [of n] Let_def alnum_value_char del: mod_less)
qed

lemma encodeValue_safe: "safe_value (encodeValue val)"
proof -
  define out where "out = concat (map (\<lambda>c. if value_char c then [c] else jc CHR ''_'' # hex_text c) val)"
  have "list_all value_char out"
    unfolding out_def using hex_text_value by (induction val) (auto simp: value_char_def)
  moreover have "is_alnum (jc CHR ''x'')" by (simp add: is_alnum_def is_lower_def)
  moreover have "encodeValue val = (if out \<noteq> [] \<and> is_alnum (hd out) then out else jc CHR ''x'' # out)"
    unfolding encodeValue_def out_def Let_def by (rule refl)
  ultimately show ?thesis by (cases out) (auto simp: safe_value_def)
qed

lemma value_char_no_space: "value_char c \<Longrightarrow> \<not> is_space c"
  by (auto simp: value_char_def is_alnum_def is_lower_def is_upper_def is_digit_def is_space_def)

lemma safe_value_trim: "safe_value s \<Longrightarrow> trim s = s"
proof (rule trim_id)
  assume "safe_value s"
  then have "list_all value_char s"
    by (auto simp: safe_value_def alnum_value_char split: list.splits)
  then show "s = [] \<or> \<not> is_space (hd s) \<and> \<not> is_space (last s)"
    by (cases "s = []") (auto simp: list_all_iff dest: value_char_no_space)
qed

lemma make_fallback:
  assumes "safe_part ty" and "safe_part ns"
  obtains i v where "(case makeObjectId ty ns val of Inr i \<Rightarrow> Inr i
      | Inl _ \<Rightarrow> makeObjectId ty ns (encodeValue val)) = Inr i"
    and "makeObjectId ty ns v = Inr i"
proof (cases "makeObjectId ty ns val")
  case (Inl e)
  have "makeObjectId ty ns (encodeValue val) = Inr (ty @ js '':'' @ ns @ js '':'' @ encodeValue val)"
    using assms encodeValue_safe [of val] safe_value_trim [OF encodeValue_safe]
    by (simp add: makeObjectId_def)
  with Inl that show ?thesis by simp
qed (use that in simp)

text \<open>The forms of the authoritative identifiers are values the builders accept.\<close>

lemma accepted_value:
  assumes "list_all is_alnum s" and "s \<noteq> []"
  shows "safe_value s \<and> trim s = s"
proof -
  have "safe_value s" using assms by (cases s) (auto simp: safe_value_def list_all_iff alnum_value_char)
  then show ?thesis by (simp add: safe_value_trim)
qed

lemma built_value:
  assumes "list_all is_alnum s" and "s \<noteq> []" and "safe_part ty" and "safe_part ns"
  shows "\<exists>i. makeObjectId ty ns s = Inr i"
  using accepted_value [OF assms(1,2)] assms(3,4) by (simp add: makeObjectId_def)

lemma hex_alnum: "is_hex c \<Longrightarrow> is_alnum c \<and> is_alnum (lower c)"
  by (auto simp: hex_value_def is_alnum_def is_digit_def is_upper_def is_lower_def lower_def split: if_splits)

lemma letter_alnum: "is_lower c \<or> is_upper c \<Longrightarrow> is_alnum (upper c)"
  by (auto simp: is_alnum_def is_upper_def is_lower_def upper_def)

lemma safe_literals:
  "safe_part (js ''aircraft'')" "safe_part (js ''icao24'')" "safe_part (js ''vessel'')"
  "safe_part (js ''mmsi'')" "safe_part (js ''satellite'')" "safe_part (js ''norad'')"
  "safe_part (js ''airport'')" "safe_part (js ''icao'')" "safe_part (js ''earthquake'')"
  "safe_part (js ''usgs'')"
  by (simp_all add: safe_part_def is_lower_def is_digit_def)

lemma digit_alnum: "is_digit c \<Longrightarrow> is_alnum c"
  by (simp add: is_alnum_def)

lemma built_ids:
  shows "icao24_text s \<Longrightarrow> \<exists>i. aircraftByIcao24 s = Inr i"
    and "mmsi_text s \<Longrightarrow> \<exists>i. vesselByMmsi s = Inr i"
    and "norad_text s \<Longrightarrow> \<exists>i. satelliteByNorad s = Inr i"
    and "icao_airport_text s \<Longrightarrow> \<exists>i. airportByIcao s = Inr i"
proof -
  assume "icao24_text s"
  then have "list_all is_alnum (map lower s)" "map lower s \<noteq> []"
    using hex_alnum by (auto simp: icao24_text_def list_all_iff)
  then show "\<exists>i. aircraftByIcao24 s = Inr i"
    unfolding aircraftByIcao24_def by (intro built_value safe_literals)
next
  assume "mmsi_text s"
  then have "list_all is_alnum s" "s \<noteq> []" using digit_alnum by (auto simp: mmsi_text_def list_all_iff)
  then show "\<exists>i. vesselByMmsi s = Inr i"
    unfolding vesselByMmsi_def by (intro built_value safe_literals)
next
  assume "norad_text s"
  then have "list_all is_alnum s" "s \<noteq> []" using digit_alnum by (auto simp: norad_text_def list_all_iff)
  then show "\<exists>i. satelliteByNorad s = Inr i"
    unfolding satelliteByNorad_def by (intro built_value safe_literals)
next
  assume "icao_airport_text s"
  then have "list_all is_alnum (map upper s)" "map upper s \<noteq> []"
    using letter_alnum by (auto simp: icao_airport_text_def list_all_iff)
  then show "\<exists>i. airportByIcao s = Inr i"
    unfolding airportByIcao_def by (intro built_value safe_literals)
qed

definition names_object :: "observation \<Rightarrow> resolution \<Rightarrow> bool" where
  "names_object ob r \<longleftrightarrow> (\<exists>p. parseObjectId (rs_object r) = Some p \<and> pi_type p = ob_type ob \<and>
     (rs_authoritative r \<longleftrightarrow> pi_namespace p \<in> set authoritative_namespaces) \<and>
     (pi_namespace p = ob_provider ob \<or> rs_authoritative r))"

lemma by_field_resolves:
  assumes "\<And>s. form s \<Longrightarrow> \<exists>i. build s = Inr i"
  shows "by_field key form build name ob \<noteq> Inl e"
  using assms by (auto simp: by_field_def split: option.splits sum.splits if_splits) (metis sum.distinct(1))

text \<open>What an identifier built for an observation's type says of it.\<close>

lemma built_names:
  assumes "makeObjectId ty ns v = Inr i" and "ob_type ob = ty" and "ns = ob_provider ob \<or> a"
    and "a \<longleftrightarrow> ns \<in> set authoritative_namespaces"
  shows "names_object ob \<lparr>rs_object = i, rs_authoritative = a, rs_rule = n\<rparr>"
  using object_id_roundtrip [OF assms(1)] assms(2-) by (auto simp: names_object_def)

lemma by_field_names:
  assumes "\<And>s i. build s = Inr i \<Longrightarrow> \<exists>v. makeObjectId ty ns v = Inr i"
    and "ns \<in> set authoritative_namespaces" and "ob_type ob = ty"
    and "by_field key form build name ob = Inr (Some r)"
  shows "names_object ob r"
proof -
  from assms(4) obtain s i where "build s = Inr i"
    and r: "r = \<lparr>rs_object = i, rs_authoritative = True, rs_rule = name\<rparr>"
    by (auto simp: by_field_def split: option.splits sum.splits if_splits)
  with assms(1) obtain v where "makeObjectId ty ns v = Inr i" by blast
  from built_names [OF this assms(3)] assms(2) show ?thesis by (simp add: r)
qed

text \<open>The rules of a type never throw on it, and what they resolve names it.\<close>

definition good_rules :: "observation \<Rightarrow> rule list \<Rightarrow> bool" where
  "good_rules ob rs \<longleftrightarrow> (\<forall>r \<in> set rs. (\<forall>e. r ob \<noteq> Inl e) \<and> (\<forall>x. r ob = Inr (Some x) \<longrightarrow> names_object ob x))"

lemma first_match_good:
  "good_rules ob rs \<Longrightarrow> (\<forall>e. first_match rs ob \<noteq> Inl e) \<and>
    (\<forall>x. first_match rs ob = Inr (Some x) \<longrightarrow> names_object ob x)"
proof (induction rs)
  case (Cons r rs)
  then have r: "\<And>e. r ob \<noteq> Inl e" "\<And>x. r ob = Inr (Some x) \<Longrightarrow> names_object ob x"
    and rs: "good_rules ob rs" by (auto simp: good_rules_def)
  show ?case
  proof (cases "r ob")
    case (Inr x)
    then show ?thesis using r(2) Cons.IH [OF rs] by (cases x) auto
  qed (use r in auto)
qed simp

lemma in_namespaces:
  "js ''icao24'' \<in> set authoritative_namespaces" "js ''mmsi'' \<in> set authoritative_namespaces"
  "js ''norad'' \<in> set authoritative_namespaces" "js ''icao'' \<in> set authoritative_namespaces"
  "js ''usgs'' \<in> set authoritative_namespaces"
  by (simp_all add: authoritative_namespaces_def)

lemma field_rules_good:
  "ob_type ob = js ''aircraft'' \<Longrightarrow> good_rules ob [aircraft_rule]"
  "ob_type ob = js ''vessel'' \<Longrightarrow> good_rules ob [vessel_rule]"
  "ob_type ob = js ''satellite'' \<Longrightarrow> good_rules ob [satellite_rule]"
  "ob_type ob = js ''airport'' \<Longrightarrow> good_rules ob [airport_rule]"
  using by_field_resolves built_ids by_field_names in_namespaces
  unfolding good_rules_def aircraft_rule_def vessel_rule_def satellite_rule_def airport_rule_def
    aircraftByIcao24_def vesselByMmsi_def satelliteByNorad_def airportByIcao_def
  by (simp_all del: js_simps) metis+

lemma earthquake_rule_good:
  assumes "ob_type ob = js ''earthquake''"
    and "\<And>e. ob_provider ob = js ''usgs-earthquakes'' \<Longrightarrow> ob_external ob = Some e \<Longrightarrow> safe_value (trim e)"
  shows "good_rules ob [earthquake_rule]"
proof (cases "ob_provider ob = js ''usgs-earthquakes'' \<and> (\<exists>e. ob_external ob = Some e \<and> e \<noteq> [])")
  case True
  then obtain e where e: "ob_provider ob = js ''usgs-earthquakes''" "ob_external ob = Some e" "e \<noteq> []" by blast
  with assms(2) have "safe_value (trim e)" by blast
  then obtain i where i: "makeObjectId (js ''earthquake'') (js ''usgs'') e = Inr i"
    using safe_literals by (simp add: makeObjectId_def del: js_simps)
  with e have "earthquake_rule ob =
      Inr (Some \<lparr>rs_object = i, rs_authoritative = True, rs_rule = js ''earthquake.usgs''\<rparr>)"
    by (simp add: earthquake_rule_def earthquakeByUsgs_def del: js_simps)
  moreover have "names_object ob \<lparr>rs_object = i, rs_authoritative = True, rs_rule = js ''earthquake.usgs''\<rparr>"
    by (rule built_names [OF i assms(1)]) (simp_all add: in_namespaces del: js_simps)
  ultimately show ?thesis by (simp add: good_rules_def del: js_simps)
next
  case False
  then have "earthquake_rule ob = Inr None"
    by (auto simp: earthquake_rule_def simp del: js_simps split: option.splits)
  then show ?thesis by (simp add: good_rules_def)
qed

text \<open>
  C21: Identity is total and says what it names: an observation whose type and provider are well
  formed resolves, whatever its external id and payload hold, to an identifier of its own type,
  authoritative exactly when its namespace is an authoritative scheme and otherwise scoped to
  the provider; the one exception is a USGS event whose external id is not itself a valid value.
\<close>
theorem identity_total:
  assumes ty: "safe_part (ob_type ob)" and ns: "safe_part (ob_provider ob)"
    and quake: "\<And>e. ob_type ob = js ''earthquake'' \<Longrightarrow> ob_provider ob = js ''usgs-earthquakes'' \<Longrightarrow>
      ob_external ob = Some e \<Longrightarrow> safe_value (trim e)"
  shows "\<exists>r. resolve authoritativeRules ob = Inr r \<and> names_object ob r"
proof -
  define rs where "rs = (case map_of authoritativeRules (ob_type ob) of Some l \<Rightarrow> l | None \<Rightarrow> [])"
  have "good_rules ob rs"
  proof (cases "ob_type ob \<in> fst ` set authoritativeRules")
    case True
    then show ?thesis
      using field_rules_good earthquake_rule_good [OF _ quake] unfolding rs_def
      by (auto simp: authoritativeRules_def)
  next
    case False
    then have "rs = []" unfolding rs_def by (simp add: map_of_eq_None_iff [THEN iffD2])
    then show ?thesis by (simp add: good_rules_def)
  qed
  note m = first_match_good [OF this]
  show ?thesis
  proof (cases "first_match rs ob")
    case (Inr x)
    show ?thesis
    proof (cases x)
      case (Some r)
      then show ?thesis using m Inr by (simp add: resolve_def rs_def [symmetric])
    next
      case None
      define val where "val = (case ob_external ob of Some e \<Rightarrow> e | None \<Rightarrow> ob_id ob)"
      obtain i v where i: "(case makeObjectId (ob_type ob) (ob_provider ob) val of Inr i \<Rightarrow> Inr i
          | Inl _ \<Rightarrow> makeObjectId (ob_type ob) (ob_provider ob) (encodeValue val)) = Inr i"
        and v: "makeObjectId (ob_type ob) (ob_provider ob) v = Inr i"
        by (rule make_fallback [OF ty ns])
      let ?r = "\<lparr>rs_object = i, rs_authoritative = isAuthoritativeId i, rs_rule = js ''provider-scoped''\<rparr>"
      have "resolve authoritativeRules ob = Inr ?r"
        unfolding resolve_def rs_def [symmetric] val_def [symmetric] Let_def Inr None
        by (simp add: i del: js_simps)
      moreover have "names_object ob ?r"
        by (rule built_names [OF v refl]) (use object_id_roundtrip [OF v] in simp_all)
      ultimately show ?thesis by blast
    qed
  qed (use m in blast)
qed

definition sample_provenance :: provenance where
  "sample_provenance = \<lparr>pv_provider = js ''buoys'', pv_source = js ''Buoys'', pv_origin = Live, pv_ref = None,
     pv_attribution = None, pv_license = None, pv_terms = None, pv_received = js ''t'', pv_derived = None\<rparr>"

definition sample_observation :: observation where
  "sample_observation =
    \<lparr>ob_cell = 0, ob_id = js ''p:x:t'', ob_provider = js ''buoys'', ob_external = Some (js ''a b''),
     ob_type = js ''sensor'', ob_observed = js ''t'', ob_received = js ''t'', ob_from = None, ob_until = None,
     ob_position = None, ob_geometry = None, ob_payload = [],
     ob_quality = \<lparr>ql_accuracy = None, ql_complete = True, ql_source = Crowdsourced, ql_flags = None\<rparr>,
     ob_hash = None, ob_provenance = sample_provenance\<rparr>"

theorem identity_total_witness:
  "\<exists>r. resolve authoritativeRules sample_observation = Inr r \<and> names_object sample_observation r"
  by (rule identity_total) (simp_all add: sample_observation_def safe_part_def is_lower_def is_digit_def)

section \<open>Where identities meet\<close>

text \<open>
  The encoding of an external id is not injective: an id with a space and the id that spells its
  encoding become one object.
\<close>

lemma no_rules: "first_match (case map_of authoritativeRules (js ''sensor'') of Some l \<Rightarrow> l | None \<Rightarrow> []) ob = Inr None"
  by (simp add: authoritativeRules_def)

lemma encoded_ids_collide:
  "resolve authoritativeRules (sample_observation\<lparr>ob_external := Some (js ''a b'')\<rparr>) =
   resolve authoritativeRules (sample_observation\<lparr>ob_external := Some (js ''a_20b'')\<rparr>)"
proof -
  have safe: "safe_part (js ''sensor'')" "safe_part (js ''buoys'')"
    by (simp_all add: safe_part_def is_lower_def is_digit_def)
  have chars: "value_char 97" "value_char 98" "\<not> value_char 32" "value_char 95" "value_char 50" "value_char 48"
    "is_alnum 97"
    by (simp_all add: value_char_def is_alnum_def is_lower_def is_upper_def is_digit_def)
  have h: "hex_text 32 = [50, 48]" by (simp add: hex_text.simps Let_def)
  have t: "trim (js ''a b'') = js ''a b''" "trim (js ''a_20b'') = js ''a_20b''"
    by (rule trim_id; simp add: is_space_def)+
  have e: "encodeValue (js ''a b'') = js ''a_20b''"
    by (simp add: encodeValue_def Let_def chars h)
  have bad: "\<not> safe_value (js ''a b'')" and good: "safe_value (js ''a_20b'')"
    by (simp_all add: safe_value_def chars)
  have "ob_type sample_observation = js ''sensor''" "ob_provider sample_observation = js ''buoys''"
    by (simp_all add: sample_observation_def)
  then show ?thesis
    by (simp add: resolve_def no_rules [simplified] makeObjectId_def Let_def t [simplified] e [simplified]
        bad [simplified] good [simplified] safe [simplified])
qed

text \<open>A USGS event whose external id has a space makes the resolver throw.\<close>

lemma usgs_id_throws:
  "resolve authoritativeRules (sample_observation\<lparr>ob_type := js ''earthquake'',
     ob_provider := js ''usgs-earthquakes'', ob_external := Some (js ''a b'')\<rparr>) =
   Inl (Invalid_Value (js ''a b''))"
proof -
  have "\<not> safe_value (js ''a b'')"
    by (simp add: safe_value_def value_char_def is_alnum_def is_lower_def is_upper_def is_digit_def)
  moreover have "trim (js ''a b'') = js ''a b''" by (rule trim_id) (simp add: is_space_def)
  ultimately show ?thesis
    using safe_literals
    by (simp add: resolve_def authoritativeRules_def earthquake_rule_def earthquakeByUsgs_def
        makeObjectId_def Let_def)
qed

end
