(* ===== verification/Grid_Index.thy ===== *)
theory Grid_Index
  imports Geo
begin

text \<open>
  The spatial index of the live state (\<^verbatim>\<open>packages/hot-spatial-index/src/index.ts\<close>): a grid of
  square cells over longitude and latitude, each holding the items inside it, and the queries
  that collect candidate cells and filter their items exactly.

  A cell's key is the pair of its row and column; the source joins them with a colon and
  splits them again. \<open>spatial_index\<close> is the interface the world state relies on; the grid
  interprets it.
\<close>

section \<open>Data\<close>

record spatial_item =
  si_id :: jstring
  si_lat :: real
  si_lon :: real
  si_type :: "jstring option"

abbreviation item_place :: "spatial_item \<Rightarrow> latlon" where
  "item_place i \<equiv> (si_lat i, si_lon i)"

text \<open>A coordinate as a caller passes it.\<close>

datatype coordinate = Finite real | Not_Finite

type_synonym cell_key = "int \<times> int"
type_synonym cell = "(jstring \<times> spatial_item) list"

record grid =
  cell_size :: real
  cells :: "(cell_key \<times> cell) list"
  items :: "(jstring \<times> spatial_item \<times> cell_key) list"

record query =
  q_types :: "jstring list option"
  q_limit :: "int option"

definition any_item :: query where
  "any_item = \<lparr>q_types = None, q_limit = None\<rparr>"

definition new_grid :: "real option \<Rightarrow> jstring + grid" where
  "new_grid side =
     (let s = (case side of Some s \<Rightarrow> s | None \<Rightarrow> 1)
      in if \<not> s > 0 \<or> js_rem 180 s \<noteq> 0 then Inl (js ''cellSizeDeg must divide 180'')
         else Inr \<lparr>cell_size = s, cells = [], items = []\<rparr>)"

definition rows :: "grid \<Rightarrow> int" where
  "rows g = \<lceil>180 / cell_size g\<rceil>"

definition cols :: "grid \<Rightarrow> int" where
  "cols g = \<lceil>360 / cell_size g\<rceil>"

definition cellKey :: "grid \<Rightarrow> real \<Rightarrow> real \<Rightarrow> cell_key" where
  "cellKey g lat lon =
     (min \<lfloor>(lat + 90) / cell_size g\<rfloor> (rows g - 1), min \<lfloor>(lon + 180) / cell_size g\<rfloor> (cols g - 1))"

definition cellBounds :: "grid \<Rightarrow> cell_key \<Rightarrow> geo_bounds" where
  "cellBounds g k =
     (case k of (r, c) \<Rightarrow>
        \<lparr>west = -180 + of_int c * cell_size g, south = -90 + of_int r * cell_size g,
         east = -180 + (of_int c + 1) * cell_size g, north = -90 + (of_int r + 1) * cell_size g\<rparr>)"

section \<open>Updates\<close>

text \<open>An item leaves a cell; the cell goes with its last item.\<close>

definition leave_cell :: "cell_key \<Rightarrow> jstring \<Rightarrow> (cell_key \<times> cell) list \<Rightarrow> (cell_key \<times> cell) list" where
  "leave_cell k i cs =
     (case map_of cs k of
        None \<Rightarrow> cs
      | Some m \<Rightarrow> let m' = AList.delete i m
                 in if m' = [] then AList.delete k cs else AList.update k m' cs)"

definition enter_cell :: "cell_key \<Rightarrow> spatial_item \<Rightarrow> (cell_key \<times> cell) list \<Rightarrow> (cell_key \<times> cell) list" where
  "enter_cell k it cs =
     AList.update k (AList.update (si_id it) it (case map_of cs k of Some m \<Rightarrow> m | None \<Rightarrow> [])) cs"

definition put_item :: "spatial_item \<Rightarrow> grid \<Rightarrow> grid" where
  "put_item it g =
     (let key = cellKey g (si_lat it) (si_lon it);
          cs = (case map_of (items g) (si_id it) of
                  Some (old, k) \<Rightarrow> if k \<noteq> key then leave_cell k (si_id it) (cells g) else cells g
                | None \<Rightarrow> cells g)
      in g\<lparr>cells := enter_cell key it cs, items := AList.update (si_id it) (it, key) (items g)\<rparr>)"

definition upsert :: "jstring \<Rightarrow> coordinate \<Rightarrow> coordinate \<Rightarrow> jstring option \<Rightarrow> grid \<Rightarrow> jstring + grid" where
  "upsert i lat lon ty g =
     (case (lat, lon) of
        (Finite lat, Finite lon) \<Rightarrow>
          Inr (put_item \<lparr>si_id = i, si_lat = lat, si_lon = lon, si_type = ty\<rparr> g)
      | _ \<Rightarrow> Inl (js ''invalid position for '' @ i))"

definition remove_item :: "jstring \<Rightarrow> grid \<Rightarrow> bool \<times> grid" where
  "remove_item i g =
     (case map_of (items g) i of
        None \<Rightarrow> (False, g)
      | Some (it, k) \<Rightarrow> (True, g\<lparr>cells := leave_cell k i (cells g), items := AList.delete i (items g)\<rparr>))"

definition get_item :: "grid \<Rightarrow> jstring \<Rightarrow> spatial_item option" where
  "get_item g i = map_option fst (map_of (items g) i)"

definition clear_grid :: "grid \<Rightarrow> grid" where
  "clear_grid g = g\<lparr>cells := [], items := []\<rparr>"

section \<open>Queries\<close>

definition query_ranges :: "geo_bounds \<Rightarrow> geo_bounds list" where
  "query_ranges b = (if west b \<le> east b then [b] else [b\<lparr>east := 180\<rparr>, b\<lparr>west := -180\<rparr>])"

text \<open>The cells of one range that were not seen before, and all that were.\<close>

definition row_range :: "grid \<Rightarrow> geo_bounds \<Rightarrow> int \<times> int" where
  "row_range g b = (max 0 \<lfloor>(south b + 90) / cell_size g\<rfloor>, min (rows g - 1) \<lfloor>(north b + 90) / cell_size g\<rfloor>)"

definition col_range :: "grid \<Rightarrow> geo_bounds \<Rightarrow> int \<times> int" where
  "col_range g b = (max 0 \<lfloor>(west b + 180) / cell_size g\<rfloor>, min (cols g - 1) \<lfloor>(east b + 180) / cell_size g\<rfloor>)"

definition range_cells :: "grid \<Rightarrow> geo_bounds \<Rightarrow> cell_key list \<Rightarrow> (cell_key \<times> cell) list" where
  "range_cells g b seen =
     (case row_range g b of (r0, r1) \<Rightarrow> case col_range g b of (c0, c1) \<Rightarrow>
        if (r1 - r0 + 1) * (c1 - c0 + 1) > int (length (cells g)) then
          filter (\<lambda>(k, m). k \<notin> set seen \<and> boundsIntersect (cellBounds g k) b) (cells g)
        else
          concat (map (\<lambda>r. concat (map (\<lambda>c.
              if (r, c) \<in> set seen then []
              else case map_of (cells g) (r, c) of Some m \<Rightarrow> [((r, c), m)] | None \<Rightarrow> [])
            [c0..c1])) [r0..r1]))"

definition candidateCells :: "grid \<Rightarrow> geo_bounds \<Rightarrow> (cell_key \<times> cell) list" where
  "candidateCells g bounds =
     fold (\<lambda>b found. found @ range_cells g b (map fst found)) (query_ranges bounds) []"

definition of_types :: "query \<Rightarrow> spatial_item \<Rightarrow> bool" where
  "of_types q it =
     (case q_types q of
        None \<Rightarrow> True
      | Some ts \<Rightarrow> (case si_type it of None \<Rightarrow> False | Some t \<Rightarrow> t \<noteq> [] \<and> t \<in> set ts))"

text \<open>Items are collected until the limit is reached; the limit is looked at after each one.\<close>

fun collect :: "int option \<Rightarrow> (spatial_item \<Rightarrow> bool) \<Rightarrow> spatial_item list \<Rightarrow> nat \<Rightarrow> spatial_item list" where
  "collect limit P [] n = []"
| "collect limit P (it # its) n =
     (if P it then
        it # (if (case limit of Some l \<Rightarrow> int (Suc n) \<ge> l | None \<Rightarrow> False) then []
              else collect limit P its (Suc n))
      else collect limit P its n)"

definition cell_items :: "(cell_key \<times> cell) list \<Rightarrow> spatial_item list" where
  "cell_items cs = concat (map (\<lambda>(k, m). map snd m) cs)"

definition withinBounds :: "grid \<Rightarrow> geo_bounds \<Rightarrow> query \<Rightarrow> spatial_item list" where
  "withinBounds g b q =
     collect (q_limit q) (\<lambda>it. of_types q it \<and> boundsContain b (item_place it))
       (cell_items (candidateCells g b)) 0"

definition withinRegion :: "grid \<Rightarrow> geo_region \<Rightarrow> query \<Rightarrow> spatial_item list" where
  "withinRegion g r q =
     (case regionBounds r of
        None \<Rightarrow> []
      | Some bounds \<Rightarrow>
          (case r of
             Bounds_Region b \<Rightarrow> withinBounds g b q
           | _ \<Rightarrow> collect (q_limit q) (\<lambda>it. of_types q it \<and> regionContains r (item_place it))
                    (cell_items (candidateCells g bounds)) 0))"

text \<open>Items with their distance from the centre, nearest first; sorting is stable.\<close>

definition slice_limit :: "int option \<Rightarrow> 'a list \<Rightarrow> 'a list" where
  "slice_limit limit xs =
     (case limit of None \<Rightarrow> xs
      | Some l \<Rightarrow> if l \<ge> 0 then take (nat l) xs else take (length xs - nat (- l)) xs)"

definition withinRadius :: "grid \<Rightarrow> latlon \<Rightarrow> real \<Rightarrow> query \<Rightarrow> (spatial_item \<times> real) list" where
  "withinRadius g c r q =
     slice_limit (q_limit q)
       (sort_key snd
         (filter (\<lambda>(it, d). d \<le> r)
           (map (\<lambda>it. (it, haversineMeters c (item_place it)))
             (filter (of_types q) (cell_items (candidateCells g (circleBounds c r)))))))"

partial_function (option) nearest_from ::
  "grid \<Rightarrow> latlon \<Rightarrow> int \<Rightarrow> jstring list option \<Rightarrow> real \<Rightarrow> real \<Rightarrow> (spatial_item \<times> real) list option" where
  "nearest_from g c n ts maxR r =
     (let found = withinRadius g c r \<lparr>q_types = ts, q_limit = None\<rparr>
      in if int (length found) \<ge> n \<or> r \<ge> maxR then Some (slice_limit (Some n) found)
         else nearest_from g c n ts maxR (min maxR (r * 4)))"

definition nearest :: "grid \<Rightarrow> latlon \<Rightarrow> int \<Rightarrow> query \<Rightarrow> real option \<Rightarrow> (spatial_item \<times> real) list option" where
  "nearest g c n q maxR =
     (let m = (case maxR of Some m \<Rightarrow> m | None \<Rightarrow> 20000000)
      in nearest_from g c n (q_types q) m (min m (max 1000 (cell_size g * 111000 * (1 / 2)))))"

definition cellCounts :: "grid \<Rightarrow> geo_bounds \<Rightarrow> query \<Rightarrow> (cell_key \<times> geo_bounds \<times> nat) list" where
  "cellCounts g b q =
     filter (\<lambda>(k, bs, n). n > 0)
       (map (\<lambda>(k, m). (k, cellBounds g k,
            if q_types q = None then length m else length (filter (of_types q) (map snd m))))
         (candidateCells g b))"

section \<open>The representation invariant\<close>

definition sized :: "grid \<Rightarrow> bool" where
  "sized g \<longleftrightarrow> cell_size g > 0 \<and> of_int (rows g) * cell_size g = 180"

text \<open>What the cells hold, as one lookup: the item with that id in that cell.\<close>

definition held :: "(cell_key \<times> cell) list \<Rightarrow> cell_key \<Rightarrow> jstring \<Rightarrow> spatial_item option" where
  "held cs k i = (case map_of cs k of None \<Rightarrow> None | Some m \<Rightarrow> map_of m i)"

definition full_cells :: "(cell_key \<times> cell) list \<Rightarrow> bool" where
  "full_cells cs \<longleftrightarrow> distinct (map fst cs) \<and>
     (\<forall>k m. map_of cs k = Some m \<longrightarrow> m \<noteq> [] \<and> distinct (map fst m))"

definition grid_ok :: "grid \<Rightarrow> bool" where
  "grid_ok g \<longleftrightarrow> sized g \<and> full_cells (cells g) \<and> distinct (map fst (items g)) \<and>
     (\<forall>i it k. map_of (items g) i = Some (it, k) \<longrightarrow>
        si_id it = i \<and> k = cellKey g (si_lat it) (si_lon it)) \<and>
     (\<forall>k i it. held (cells g) k i = Some it \<longleftrightarrow> map_of (items g) i = Some (it, k))"

lemma rows_cols: "sized g \<Longrightarrow> cols g = 2 * rows g \<and> rows g > 0 \<and> of_int (cols g) * cell_size g = 360"
proof -
  assume g: "sized g"
  then have s: "cell_size g > 0" and r: "of_int (rows g) * cell_size g = 180"
    by (auto simp: sized_def)
  then have "360 / cell_size g = of_int (2 * rows g)" by (simp add: field_simps)
  then have "cols g = 2 * rows g" unfolding cols_def by (metis ceiling_of_int)
  moreover have "of_int (rows g) > (0 :: real)" using r s by (smt (verit) mult_nonpos_nonneg)
  ultimately show ?thesis using r by (simp add: mult.assoc)
qed

lemma new_grid_ok: "new_grid sz = Inr g \<Longrightarrow> grid_ok g"
proof -
  assume n: "new_grid sz = Inr g"
  define s where "s = (case sz of Some s \<Rightarrow> s | None \<Rightarrow> 1)"
  from n have s: "s > 0" "js_rem 180 s = 0" and g: "g = \<lparr>cell_size = s, cells = [], items = []\<rparr>"
    by (auto simp: new_grid_def Let_def s_def [symmetric] split: if_splits)
  then have e: "180 = s * of_int \<lfloor>180 / s\<rfloor>" by (simp add: js_rem_def)
  then have "180 / s = of_int \<lfloor>180 / s\<rfloor>" using s(1) by (metis nonzero_mult_div_cancel_left less_irrefl)
  then have "rows g = \<lfloor>180 / s\<rfloor>" using g unfolding rows_def by (metis ceiling_of_int grid.select_convs(1))
  with s e g show ?thesis
    by (simp add: grid_ok_def sized_def mult.commute full_cells_def held_def)
qed

lemma map_of_leave:
  assumes "distinct (map fst cs)"
  shows "map_of (leave_cell k i cs) =
    (case map_of cs k of None \<Rightarrow> map_of cs
     | Some m \<Rightarrow> (map_of cs)(k := if AList.delete i m = [] then None else Some (AList.delete i m)))"
  by (auto simp: leave_cell_def Let_def map_simps fun_eq_iff split: option.splits)

lemma distinct_leave: "distinct (map fst cs) \<Longrightarrow> distinct (map fst (leave_cell k i cs))"
  by (auto simp: leave_cell_def Let_def distinct_update distinct_delete split: option.splits)

lemma held_leave:
  assumes "distinct (map fst cs)"
  shows "held (leave_cell k i cs) k' i' = (if k' = k \<and> i' = i then None else held cs k' i')"
  by (auto simp: held_def map_of_leave [OF assms] map_simps fun_eq_iff split: option.splits)
    (metis fun_upd_apply map_of.simps(1) map_simps(2))

lemma held_enter:
  "held (enter_cell k it cs) k' i = (if k' = k \<and> i = si_id it then Some it else held cs k' i)"
  by (auto simp: held_def enter_cell_def map_simps split: option.splits)

lemma full_leave: "full_cells cs \<Longrightarrow> full_cells (leave_cell k i cs)"
  by (auto simp: full_cells_def map_of_leave distinct_leave distinct_delete split: option.splits if_splits)

lemma full_enter: "full_cells cs \<Longrightarrow> full_cells (enter_cell k it cs)"
  by (auto simp: full_cells_def enter_cell_def map_simps distinct_update AList.update_nonempty
      split: option.splits if_splits)

lemma cellKey_cong [simp]:
  "cellKey (g\<lparr>cells := c, items := t\<rparr>) = cellKey g" "sized (g\<lparr>cells := c, items := t\<rparr>) = sized g"
  by (simp_all add: fun_eq_iff cellKey_def rows_def cols_def sized_def)

lemma grid_okD:
  assumes "grid_ok g"
  shows "distinct (map fst (cells g))" and "full_cells (cells g)"
    and "map_of (items g) i = Some (it, k) \<Longrightarrow> si_id it = i \<and> k = cellKey g (si_lat it) (si_lon it)"
    and "held (cells g) k i = Some it \<longleftrightarrow> map_of (items g) i = Some (it, k)"
  using assms unfolding grid_ok_def full_cells_def by blast+

lemma grid_okI:
  assumes "sized g" and "full_cells (cells g)" and "distinct (map fst (items g))"
    and "\<And>i it k. map_of (items g) i = Some (it, k) \<Longrightarrow>
      si_id it = i \<and> k = cellKey g (si_lat it) (si_lon it)"
    and "\<And>k i it. held (cells g) k i = Some it \<longleftrightarrow> map_of (items g) i = Some (it, k)"
  shows "grid_ok g"
  using assms unfolding grid_ok_def by blast

lemma grid_ok_remove:
  assumes g: "grid_ok g"
  shows "grid_ok (snd (remove_item i g))"
proof (cases "map_of (items g) i")
  case (Some e)
  obtain it k where e: "e = (it, k)" by (cases e)
  note [simp] = grid_okD [OF g]
  have "held (leave_cell k i (cells g)) k' i' = Some it' \<longleftrightarrow>
      map_of (AList.delete i (items g)) i' = Some (it', k')" for k' i' it'
    using Some e by (auto simp: held_leave map_simps simp del: map_of_eq_Some_iff)
  moreover have "si_id it' = i' \<and> k' = cellKey g (si_lat it') (si_lon it')"
    if "map_of (AList.delete i (items g)) i' = Some (it', k')" for i' it' k'
    using that grid_okD(3) [OF g, of i' it' k']
    by (auto simp: map_simps simp del: map_of_eq_Some_iff split: if_splits)
  moreover have "sized g" "distinct (map fst (items g))" "full_cells (cells g)"
    using g unfolding grid_ok_def by blast+
  ultimately show ?thesis
    using Some e by (intro grid_okI) (simp_all add: remove_item_def full_leave distinct_delete
        del: map_of_eq_Some_iff)
qed (use g in \<open>simp add: remove_item_def\<close>)

lemma grid_ok_put:
  assumes g: "grid_ok g"
  shows "grid_ok (put_item it g)"
proof -
  let ?i = "si_id it"
  let ?key = "cellKey g (si_lat it) (si_lon it)"
  define cs where "cs = (case map_of (items g) ?i of
      Some (old, k) \<Rightarrow> if k \<noteq> ?key then leave_cell k ?i (cells g) else cells g | None \<Rightarrow> cells g)"
  note d = grid_okD [OF g]
  have full: "full_cells cs"
    using d(2) by (auto simp: cs_def full_leave split: option.splits)
  have cs: "held cs k i = held (cells g) k i" if "i \<noteq> ?i" for k i
    using that d(1) by (auto simp: cs_def held_leave split: option.splits)
  have gone: "held cs k ?i = None" if "k \<noteq> ?key" for k
  proof (cases "map_of (items g) ?i")
    case None
    then show ?thesis using d(4) [of k ?i] by (cases "held cs k ?i") (auto simp: cs_def)
  next
    case (Some e)
    then show ?thesis using that d(1) d(4) [of k ?i]
      by (cases e; cases "held (cells g) k ?i") (auto simp: cs_def held_leave)
  qed
  have h: "held (enter_cell ?key it cs) k i = Some it' \<longleftrightarrow>
      map_of (AList.update ?i (it, ?key) (items g)) i = Some (it', k)" for k i it'
    using d(4) [of k i it'] cs gone
    by (cases "i = ?i"; cases "k = ?key") (auto simp: held_enter map_simps simp del: map_of_eq_Some_iff)
  have k: "map_of (AList.update ?i (it, ?key) (items g)) i = Some (it', k) \<Longrightarrow>
      si_id it' = i \<and> k = cellKey g (si_lat it') (si_lon it')" for k i it'
    using d(3) [of i it' k] by (auto simp: map_simps simp del: map_of_eq_Some_iff split: if_splits)
  have s: "sized g" "distinct (map fst (items g))"
    using g unfolding grid_ok_def by blast+
  let ?g = "g\<lparr>cells := enter_cell ?key it cs, items := AList.update ?i (it, ?key) (items g)\<rparr>"
  have sel: "cells ?g = enter_cell ?key it cs" "items ?g = AList.update ?i (it, ?key) (items g)" by simp_all
  have "grid_ok ?g"
  proof (rule grid_okI, goal_cases)
    case 1
    show ?case using s(1) by simp
  next
    case 2
    show ?case unfolding sel by (rule full_enter [OF full])
  next
    case 3
    show ?case unfolding sel by (rule distinct_update [OF s(2)])
  next
    case (4 i it' k)
    then show ?case unfolding sel cellKey_cong by (rule k)
  next
    case (5 k i it')
    show ?case unfolding sel by (rule h)
  qed
  then show ?thesis by (simp add: put_item_def cs_def Let_def)
qed

lemma get_put: "get_item (put_item it g) i = (if i = si_id it then Some it else get_item g i)"
  by (simp add: put_item_def Let_def get_item_def map_simps)

lemma get_remove: "get_item (snd (remove_item j g)) i = (if i = j then None else get_item g i)"
  by (cases "map_of (items g) j") (auto simp: remove_item_def get_item_def map_simps)

section \<open>Queries are exact\<close>

text \<open>One axis: the cell of a place, and the range of cells of an interval around it.\<close>

lemma axis_cell:
  fixes s x :: real
  assumes s: "s > 0" and n: "of_int n * s = w" "n > 0" and x: "0 \<le> x" "x \<le> w"
    and k: "k = min \<lfloor>x / s\<rfloor> (n - 1)"
  shows "0 \<le> k \<and> k < n \<and> of_int k * s \<le> x \<and> x \<le> (of_int k + 1) * s"
proof -
  have f: "of_int \<lfloor>x / s\<rfloor> * s \<le> x" "x < (of_int \<lfloor>x / s\<rfloor> + 1) * s"
    using s by (simp_all add: pos_le_divide_eq [symmetric] pos_divide_less_eq [symmetric])
  have "0 \<le> \<lfloor>x / s\<rfloor>" using s x by simp
  then have "0 \<le> k" "k < n" using k n(2) by auto
  moreover have "of_int k * s \<le> of_int \<lfloor>x / s\<rfloor> * s"
    using s k by (intro mult_right_mono) auto
  moreover have "x \<le> (of_int k + 1) * s"
  proof (cases "k = \<lfloor>x / s\<rfloor>")
    case False
    then have "of_int k + 1 = (of_int n :: real)" using k by (simp add: min_def split: if_splits)
    then show ?thesis using n x by simp
  qed (use f in simp)
  ultimately show ?thesis using f by linarith
qed

lemma axis_range:
  fixes s x :: real
  assumes s: "s > 0" and n: "of_int n * s = w" "n > 0" and x: "0 \<le> x" "lo \<le> x" "x \<le> hi" "lo < w"
    and k: "k = min \<lfloor>x / s\<rfloor> (n - 1)"
  shows "max 0 \<lfloor>lo / s\<rfloor> \<le> k \<and> k \<le> min (n - 1) \<lfloor>hi / s\<rfloor>"
proof -
  have "lo / s < of_int n" using s n x by (simp add: pos_divide_less_eq)
  then have "\<lfloor>lo / s\<rfloor> \<le> n - 1" by (simp add: floor_less_iff [symmetric] zle_diff1_eq)
  moreover have "\<lfloor>lo / s\<rfloor> \<le> \<lfloor>x / s\<rfloor>" "\<lfloor>x / s\<rfloor> \<le> \<lfloor>hi / s\<rfloor>"
    using s x by (auto intro!: floor_mono divide_right_mono)
  moreover have "0 \<le> \<lfloor>x / s\<rfloor>" using s x by simp
  ultimately show ?thesis using k n(2) by auto
qed

definition placed :: "spatial_item \<Rightarrow> bool" where
  "placed it \<longleftrightarrow> isValidLatLon (si_lat it) (si_lon it)"

lemma placed_axes: "placed it \<Longrightarrow> 0 \<le> si_lat it + 90 \<and> si_lat it + 90 \<le> 180 \<and>
    0 \<le> si_lon it + 180 \<and> si_lon it + 180 \<le> 360"
  by (auto simp: placed_def isValidLatLon_def)

lemma cell_contains:
  assumes g: "sized g" and p: "placed it"
  shows "boundsContain (cellBounds g (cellKey g (si_lat it) (si_lon it))) (item_place it)"
proof -
  have s: "cell_size g > 0" and r: "of_int (rows g) * cell_size g = 180"
    using g by (auto simp: sized_def)
  note c = rows_cols [OF g]
  have "of_int (fst (cellKey g (si_lat it) (si_lon it))) * cell_size g \<le> si_lat it + 90 \<and>
      si_lat it + 90 \<le> (of_int (fst (cellKey g (si_lat it) (si_lon it))) + 1) * cell_size g"
    using axis_cell [OF s r _ _ _ refl, of "si_lat it + 90"] c placed_axes [OF p] by (simp add: cellKey_def)
  moreover have "of_int (snd (cellKey g (si_lat it) (si_lon it))) * cell_size g \<le> si_lon it + 180 \<and>
      si_lon it + 180 \<le> (of_int (snd (cellKey g (si_lat it) (si_lon it))) + 1) * cell_size g"
    using axis_cell [OF s _ _ _ _ refl, of "cols g" 360 "si_lon it + 180"] c r placed_axes [OF p]
    by (simp add: cellKey_def mult.commute)
  ultimately show ?thesis
    using s by (auto simp: boundsContain_def cellBounds_def algebra_simps split: prod.splits)
qed

lemma range_cells_sub: "distinct (map fst (cells g)) \<Longrightarrow> e \<in> set (range_cells g b seen) \<Longrightarrow>
    e \<in> set (cells g) \<and> fst e \<notin> set seen"
  by (auto simp: range_cells_def split: if_splits option.splits prod.splits)

lemma distinct_concat_keys:
  assumes "distinct xs" and "\<And>x. x \<in> set xs \<Longrightarrow> distinct (map h (f x))"
    and "\<And>x y a b. x \<in> set xs \<Longrightarrow> y \<in> set xs \<Longrightarrow> a \<in> set (f x) \<Longrightarrow> b \<in> set (f y) \<Longrightarrow> h a = h b \<Longrightarrow> x = y"
  shows "distinct (map h (concat (map f xs)))"
  using assms
proof (induction xs)
  case (Cons x xs)
  have "distinct (map h (concat (map f xs)))"
    using Cons.prems by (intro Cons.IH) auto
  moreover have "set (map h (f x)) \<inter> set (map h (concat (map f xs))) = {}"
    using Cons.prems(1) Cons.prems(3) [of x] by fastforce
  ultimately show ?case using Cons.prems(2) [of x] by simp
qed simp

lemma range_cells_distinct:
  assumes "distinct (map fst (cells g))"
  shows "distinct (map fst (range_cells g b seen))"
proof -
  obtain r0 r1 c0 c1 where r: "row_range g b = (r0, r1)" "col_range g b = (c0, c1)" by fastforce
  have "distinct (map fst (concat (map (\<lambda>r. concat (map (\<lambda>c.
      if (r, c) \<in> set seen then []
      else case map_of (cells g) (r, c) of Some m \<Rightarrow> [((r, c), m)] | None \<Rightarrow> []) [c0..c1])) [r0..r1])))"
    by (intro distinct_concat_keys) (auto split: option.splits if_splits)
  moreover have "distinct (map fst (filter P (cells g)))" for P
    using assms by (simp add: distinct_map_filter)
  ultimately show ?thesis by (simp add: range_cells_def r split: if_splits)
qed

lemma range_cells_complete:
  assumes g: "sized g" "distinct (map fst (cells g))" and p: "placed it"
    and m: "map_of (cells g) (cellKey g (si_lat it) (si_lon it)) = Some m"
    and b: "boundsContain b (item_place it)" "west b \<le> east b" "south b < 90" "west b < 180"
  shows "cellKey g (si_lat it) (si_lon it) \<in> set seen \<or>
    (cellKey g (si_lat it) (si_lon it), m) \<in> set (range_cells g b seen)"
proof -
  let ?k = "cellKey g (si_lat it) (si_lon it)"
  obtain r0 r1 c0 c1 where r: "row_range g b = (r0, r1)" "col_range g b = (c0, c1)" by fastforce
  have s: "cell_size g > 0" and rw: "of_int (rows g) * cell_size g = 180"
    using g by (auto simp: sized_def)
  note c = rows_cols [OF g(1)]
  have inb: "south b \<le> si_lat it" "si_lat it \<le> north b" "west b \<le> si_lon it" "si_lon it \<le> east b"
    using b by (auto simp: boundsContain_def split: if_splits)
  have "r0 \<le> fst ?k \<and> fst ?k \<le> r1"
    using axis_range [OF s rw _ _ _ _ _ refl, of "si_lat it + 90" "south b + 90" "north b + 90"]
      c placed_axes [OF p] inb b(3) r(1) by (auto simp: cellKey_def row_range_def)
  moreover have "c0 \<le> snd ?k \<and> snd ?k \<le> c1"
    using axis_range [OF s _ _ _ _ _ _ refl, of "cols g" 360 "si_lon it + 180" "west b + 180" "east b + 180"]
      c placed_axes [OF p] inb b(4) r(2) by (auto simp: cellKey_def col_range_def)
  moreover have "boundsIntersect (cellBounds g ?k) b"
    using boundsIntersect_common [OF cell_contains [OF g(1) p] b(1)] .
  ultimately show ?thesis
    using m r map_of_SomeD [OF m]
    by (cases ?k) (fastforce simp: range_cells_def split: if_splits)
qed

lemma candidateCells_cases:
  "candidateCells g b =
     (if west b \<le> east b then range_cells g b []
      else range_cells g (b\<lparr>east := 180\<rparr>) [] @
        range_cells g (b\<lparr>west := -180\<rparr>) (map fst (range_cells g (b\<lparr>east := 180\<rparr>) [])))"
  by (simp add: candidateCells_def query_ranges_def)

lemma candidateCells_sub:
  assumes "distinct (map fst (cells g))" and "e \<in> set (candidateCells g b)"
  shows "e \<in> set (cells g)"
  using assms by (auto simp: candidateCells_cases dest: range_cells_sub [OF assms(1)] split: if_splits)

lemma candidateCells_distinct:
  assumes d: "distinct (map fst (cells g))"
  shows "distinct (map fst (candidateCells g b))"
proof (cases "west b \<le> east b")
  case False
  define e where "e = range_cells g (b\<lparr>east := 180\<rparr>) []"
  define w where "w = range_cells g (b\<lparr>west := -180\<rparr>) (map fst e)"
  have "candidateCells g b = e @ w" using False by (simp add: candidateCells_cases e_def w_def)
  moreover have "set (map fst e) \<inter> set (map fst w) = {}"
  proof (rule equals0I)
    fix k assume "k \<in> set (map fst e) \<inter> set (map fst w)"
    then have k: "k \<in> set (map fst e)" and "k \<in> fst ` set w" by simp_all
    from this(2) obtain x where "k = fst x" "x \<in> set w" by (rule imageE)
    with k show False using range_cells_sub [OF d] unfolding w_def by blast
  qed
  moreover have "distinct (map fst e)" "distinct (map fst w)"
    unfolding e_def w_def by (rule range_cells_distinct [OF d])+
  ultimately show ?thesis by (simp only: map_append distinct_append)
qed (simp add: candidateCells_cases range_cells_distinct [OF d])

lemma candidateCells_complete:
  assumes g: "sized g" "distinct (map fst (cells g))" and p: "placed it"
    and m: "map_of (cells g) (cellKey g (si_lat it) (si_lon it)) = Some m"
    and b: "boundsContain b (item_place it)" "south b < 90" "west b < 180"
  shows "(cellKey g (si_lat it) (si_lon it), m) \<in> set (candidateCells g b)"
proof -
  let ?k = "cellKey g (si_lat it) (si_lon it)"
  note complete = range_cells_complete [OF g p m]
  show ?thesis
  proof (cases "west b \<le> east b")
    case True
    then show ?thesis using complete [of b "[]"] b by (simp add: candidateCells_cases)
  next
    case False
    define e where "e = b\<lparr>east := 180\<rparr>"
    define w where "w = b\<lparr>west := -180\<rparr>"
    have lon: "- 180 \<le> si_lon it" "si_lon it \<le> 180" using placed_axes [OF p] by auto
    have cand: "candidateCells g b = range_cells g e [] @ range_cells g w (map fst (range_cells g e []))"
      using False by (simp add: candidateCells_cases e_def w_def)
    from b(1) False have "boundsContain e (item_place it) \<or> boundsContain w (item_place it) \<and> -180 \<le> east b"
      using lon b(3) by (auto simp: boundsContain_def e_def w_def split: if_splits)
    then show ?thesis
    proof
      assume "boundsContain e (item_place it)"
      then have "(?k, m) \<in> set (range_cells g e [])"
        using complete [of e "[]"] b by (simp add: e_def)
      then show ?thesis by (simp add: cand)
    next
      assume "boundsContain w (item_place it) \<and> -180 \<le> east b"
      then have "?k \<in> set (map fst (range_cells g e [])) \<or>
          (?k, m) \<in> set (range_cells g w (map fst (range_cells g e [])))"
        using complete [of w "map fst (range_cells g e [])"] b by (simp add: w_def)
      moreover have "?k \<in> set (map fst (range_cells g e [])) \<Longrightarrow> (?k, m) \<in> set (range_cells g e [])"
        using range_cells_sub [OF g(2)] m g(2) by (auto simp: map_of_eq_Some_iff) (metis eq_key_imp_eq_value)
      ultimately show ?thesis by (auto simp: cand)
    qed
  qed
qed

text \<open>The items of some cells, each once.\<close>

lemma in_cells:
  assumes g: "grid_ok g"
  shows "(k, m) \<in> set (cells g) \<and> it \<in> set (map snd m) \<longleftrightarrow>
    get_item g (si_id it) = Some it \<and> k = cellKey g (si_lat it) (si_lon it) \<and> map_of (cells g) k = Some m"
proof
  note d = grid_okD [OF g]
  assume a: "(k, m) \<in> set (cells g) \<and> it \<in> set (map snd m)"
  then have m: "map_of (cells g) k = Some m" using d(1) by simp
  with d(2) have "distinct (map fst m)" unfolding full_cells_def by blast
  with a obtain i where "map_of m i = Some it" by auto
  with m have "held (cells g) k i = Some it" by (simp add: held_def)
  then have i: "map_of (items g) i = Some (it, k)" using d(4) by blast
  with d(3) have "si_id it = i \<and> k = cellKey g (si_lat it) (si_lon it)" by blast
  with i m show "get_item g (si_id it) = Some it \<and> k = cellKey g (si_lat it) (si_lon it) \<and>
      map_of (cells g) k = Some m"
    by (auto simp: get_item_def simp del: map_of_eq_Some_iff)
next
  note d = grid_okD [OF g]
  assume a: "get_item g (si_id it) = Some it \<and> k = cellKey g (si_lat it) (si_lon it) \<and>
      map_of (cells g) k = Some m"
  then obtain k' where "map_of (items g) (si_id it) = Some (it, k')"
    by (auto simp: get_item_def simp del: map_of_eq_Some_iff)
  with a d(3) have "map_of (items g) (si_id it) = Some (it, k)" by metis
  with d(4) have "held (cells g) k (si_id it) = Some it" by blast
  moreover have "map_of (cells g) k = Some m" using a by blast
  ultimately have "map_of m (si_id it) = Some it" by (simp add: held_def)
  then show "(k, m) \<in> set (cells g) \<and> it \<in> set (map snd m)"
    using a by (auto dest!: map_of_SomeD intro: image_eqI [where x = "(si_id it, it)"])
qed

lemma cell_items_in: "it \<in> set (cell_items cs) \<longleftrightarrow> (\<exists>k m. (k, m) \<in> set cs \<and> it \<in> set (map snd m))"
  by (auto simp: cell_items_def)

lemma cell_items_distinct:
  assumes g: "grid_ok g" and cs: "set cs \<subseteq> set (cells g)" "distinct (map fst cs)"
  shows "distinct (cell_items cs)"
proof -
  note d = grid_okD [OF g]
  have dm: "distinct (map snd m)" if "(k, m) \<in> set (cells g)" for k m
  proof -
    from that d(1) have km: "map_of (cells g) k = Some m" by simp
    with d(2) have dk: "distinct (map fst m)" unfolding full_cells_def by blast
    have "si_id it = i" if "(i, it) \<in> set m" for i it
    proof -
      from that dk have "map_of m i = Some it" by simp
      with km have "held (cells g) k i = Some it" by (simp add: held_def)
      with d(4) have "map_of (items g) i = Some (it, k)" by blast
      with d(3) show ?thesis by blast
    qed
    then have "map fst m = map si_id (map snd m)" by (auto simp: comp_def)
    with dk show ?thesis by (metis distinct_map)
  qed
  have "distinct (map id (concat (map (\<lambda>(k, m). map snd m) cs)))"
  proof (rule distinct_concat_keys)
    show "distinct cs" using cs(2) by (simp add: distinct_map)
  next
    fix e assume "e \<in> set cs"
    then show "distinct (map id (case e of (k, m) \<Rightarrow> map snd m))"
      using dm [of "fst e" "snd e"] subsetD [OF cs(1)] by (simp add: case_prod_beta)
  next
    fix e f a b
    assume ef: "e \<in> set cs" "f \<in> set cs" "a \<in> set (case e of (k, m) \<Rightarrow> map snd m)"
      "b \<in> set (case f of (k, m) \<Rightarrow> map snd m)" "id a = id b"
    obtain k m k' m' where e: "e = (k, m)" and f: "f = (k', m')" by fastforce
    have "(k, m) \<in> set (cells g) \<and> a \<in> set (map snd m)" "(k', m') \<in> set (cells g) \<and> a \<in> set (map snd m')"
      using ef cs e f by auto
    then have "k = k'" "map_of (cells g) k = Some m" "map_of (cells g) k' = Some m'"
      unfolding in_cells [OF g] by blast+
    then show "e = f" using e f by simp
  qed
  then show ?thesis by (simp add: cell_items_def)
qed

lemma collect_take:
  "collect limit P its n =
     (case limit of None \<Rightarrow> filter P its
      | Some l \<Rightarrow> take (nat (max 1 (l - int n))) (filter P its))"
proof (induction its arbitrary: n)
  case (Cons it its)
  show ?case
  proof (cases limit)
    case (Some l)
    have "nat (max 1 (l - int n)) = Suc (nat (max 1 (l - int (Suc n))))" if "\<not> int (Suc n) \<ge> l"
      using that by auto
    with Cons Some show ?thesis by (auto simp: take_Suc)
  qed (use Cons in simp)
qed (simp split: option.splits)

definition plain :: "geo_region \<Rightarrow> bool" where
  "plain r \<longleftrightarrow> (\<forall>c d. r \<noteq> Circle_Region c d)"

lemma region_in_bounds:
  "plain r \<Longrightarrow> regionBounds r = Some b \<Longrightarrow> regionContains r p \<Longrightarrow> boundsContain b p"
  by (cases r) (auto simp: plain_def polygon_in_bounds)

lemma withinRegion_collect:
  "regionBounds r = Some b \<Longrightarrow>
   withinRegion g r q = collect (q_limit q) (\<lambda>it. of_types q it \<and> regionContains r (item_place it))
     (cell_items (candidateCells g b)) 0"
  by (cases r) (simp_all add: withinRegion_def withinBounds_def)

lemma candidate_items:
  assumes g: "grid_ok g" and p: "\<forall>i it. get_item g i = Some it \<longrightarrow> placed it"
    and b: "south b < 90" "west b < 180" "boundsContain b (item_place it)"
  shows "it \<in> set (cell_items (candidateCells g b)) \<longleftrightarrow> get_item g (si_id it) = Some it"
proof
  note d = grid_okD [OF g]
  assume "it \<in> set (cell_items (candidateCells g b))"
  then obtain k m where "(k, m) \<in> set (cells g) \<and> it \<in> set (map snd m)"
    unfolding cell_items_in using candidateCells_sub [OF d(1)] by blast
  then show "get_item g (si_id it) = Some it" unfolding in_cells [OF g] by blast
next
  note d = grid_okD [OF g]
  let ?k = "cellKey g (si_lat it) (si_lon it)"
  assume i: "get_item g (si_id it) = Some it"
  then have "placed it" using p by blast
  obtain k where "map_of (items g) (si_id it) = Some (it, k)"
    using i by (auto simp: get_item_def simp del: map_of_eq_Some_iff)
  with d(3,4) have "held (cells g) ?k (si_id it) = Some it" by metis
  then obtain m where m: "map_of (cells g) ?k = Some m"
    by (auto simp: held_def split: option.splits simp del: map_of_eq_Some_iff)
  have s: "sized g" using g unfolding grid_ok_def by blast
  have "(?k, m) \<in> set (candidateCells g b)"
    by (rule candidateCells_complete [OF s d(1) \<open>placed it\<close> m b(3) b(1,2)])
  moreover have "it \<in> set (map snd m)"
    using in_cells [OF g, of ?k m it] i m by blast
  ultimately show "it \<in> set (cell_items (candidateCells g b))"
    unfolding cell_items_in by blast
qed

lemma region_query_items:
  assumes g: "grid_ok g" and p: "\<forall>i it. get_item g i = Some it \<longrightarrow> placed it"
    and r: "plain r" "regionBounds r = Some b" and b: "south b < 90" "west b < 180"
  shows "withinRegion g r (q\<lparr>q_limit := l\<rparr>) =
      collect l (\<lambda>it. of_types q it \<and> regionContains r (item_place it)) (cell_items (candidateCells g b)) 0"
    "distinct (cell_items (candidateCells g b))"
    "regionContains r (item_place it) \<Longrightarrow> it \<in> set (cell_items (candidateCells g b)) \<longleftrightarrow> get_item g (si_id it) = Some it"
proof -
  note d = grid_okD [OF g]
  have types: "of_types (q\<lparr>q_limit := l\<rparr>) = of_types q" for l
    by (simp add: fun_eq_iff of_types_def)
  show "withinRegion g r (q\<lparr>q_limit := l\<rparr>) =
      collect l (\<lambda>it. of_types q it \<and> regionContains r (item_place it)) (cell_items (candidateCells g b)) 0"
    by (simp add: withinRegion_collect [OF r(2)] types)
  have sub: "set (candidateCells g b) \<subseteq> set (cells g)"
    using candidateCells_sub [OF d(1)] by blast
  show "distinct (cell_items (candidateCells g b))"
    by (rule cell_items_distinct [OF g sub candidateCells_distinct [OF d(1)]])
  show "it \<in> set (cell_items (candidateCells g b)) \<longleftrightarrow> get_item g (si_id it) = Some it"
    if "regionContains r (item_place it)"
    by (rule candidate_items [OF g p b region_in_bounds [OF r that]])
qed

lemma region_items:
  assumes "grid_ok g" "\<forall>i it. get_item g i = Some it \<longrightarrow> placed it"
    "plain r" "regionBounds r = Some b" "south b < 90" "west b < 180"
  shows "distinct (withinRegion g r (q\<lparr>q_limit := None\<rparr>))"
    "set (withinRegion g r (q\<lparr>q_limit := None\<rparr>)) =
      {it. get_item g (si_id it) = Some it \<and> of_types q it \<and> regionContains r (item_place it)}"
  using region_query_items(2,3) [OF assms] unfolding region_query_items(1) [OF assms] collect_take by auto


definition demo_grid :: grid where
  "demo_grid = put_item \<lparr>si_id = js ''b'', si_lat = 0, si_lon = 179, si_type = None\<rparr>
     (put_item \<lparr>si_id = js ''a'', si_lat = 10, si_lon = -179, si_type = None\<rparr>
       \<lparr>cell_size = 1, cells = [], items = []\<rparr>)"

lemma demo_grid_ok: "grid_ok demo_grid"
proof -
  have "js_rem 180 1 = 0" by (simp add: js_rem_def)
  then have "new_grid None = Inr \<lparr>cell_size = 1, cells = [], items = []\<rparr>" by (simp add: new_grid_def)
  then show ?thesis unfolding demo_grid_def by (intro grid_ok_put new_grid_ok)
qed

lemma demo_grid_items:
  "{it. get_item demo_grid (si_id it) = Some it} =
     {\<lparr>si_id = js ''b'', si_lat = 0, si_lon = 179, si_type = None\<rparr>,
      \<lparr>si_id = js ''a'', si_lat = 10, si_lon = -179, si_type = None\<rparr>}"
  unfolding demo_grid_def get_put by (auto simp: get_item_def split: if_splits)

lemma demo_grid_placed: "\<forall>i it. get_item demo_grid i = Some it \<longrightarrow> placed it"
  unfolding demo_grid_def get_put by (auto simp: get_item_def placed_def isValidLatLon_def split: if_splits)


section \<open>Nearest items\<close>

lemma nearest_from_returns:
  assumes "0 < r \<or> r \<ge> m" and "m \<le> r * 4 ^ k"
  shows "\<exists>r' found. nearest_from g c n ts m r = Some (slice_limit (Some n) found) \<and>
    found = withinRadius g c r' \<lparr>q_types = ts, q_limit = None\<rparr> \<and> r \<le> r' \<and> r' \<le> max r m \<and>
    (n \<le> int (length found) \<or> m \<le> r')"
  using assms
proof (induction k arbitrary: r)
  case 0
  then show ?case by (subst nearest_from.simps) (simp add: Let_def, blast)
next
  case (Suc k)
  define found where "found = withinRadius g c r \<lparr>q_types = ts, q_limit = None\<rparr>"
  show ?case
  proof (cases "int (length found) \<ge> n \<or> r \<ge> m")
    case True
    then show ?thesis
      by (subst nearest_from.simps) (auto simp: Let_def found_def [symmetric] intro!: exI [of _ r])
  next
    case False
    let ?r = "min m (r * 4)"
    have r: "0 < r" "r < m" using False Suc.prems by auto
    have "m \<le> ?r * 4 ^ k"
      using Suc.prems(2) r mult_left_mono [of 1 "4 ^ k" m] by (auto simp: min_def mult.assoc)
    moreover have "0 < ?r \<or> ?r \<ge> m" using r by auto
    ultimately obtain r' found' where
      "nearest_from g c n ts m ?r = Some (slice_limit (Some n) found')"
      "found' = withinRadius g c r' \<lparr>q_types = ts, q_limit = None\<rparr>"
      "?r \<le> r'" "r' \<le> max ?r m" "n \<le> int (length found') \<or> m \<le> r'"
      using Suc.IH by blast
    moreover have "nearest_from g c n ts m r = nearest_from g c n ts m ?r"
      using False by (subst nearest_from.simps) (simp add: Let_def found_def [symmetric])
    moreover have "r \<le> ?r" using r by auto
    ultimately show ?thesis using r by (intro exI [of _ r'] exI [of _ found']) auto
  qed
qed

text \<open>
  C34: The search for the nearest items always ends, at a radius no larger than the largest one
  asked for; it stops with enough items or at that radius, and its answer is the front of what
  the radius query finds there.
\<close>
theorem nearest_returns:
  "\<exists>r found. nearest g c n q maxR = Some (slice_limit (Some n) found) \<and>
     found = withinRadius g c r \<lparr>q_types = q_types q, q_limit = None\<rparr> \<and>
     r \<le> (case maxR of Some m \<Rightarrow> m | None \<Rightarrow> 20000000) \<and>
     (n \<le> int (length found) \<or> r = (case maxR of Some m \<Rightarrow> m | None \<Rightarrow> 20000000))"
proof -
  define m where "m = (case maxR of Some m \<Rightarrow> m | None \<Rightarrow> 20000000)"
  define r where "r = min m (max 1000 (cell_size g * 111000 * (1 / 2)))"
  have r: "0 < r \<or> r \<ge> m" "r \<le> m" by (auto simp: r_def)
  obtain k where "m \<le> r * 4 ^ k"
  proof (cases "r \<ge> m")
    case False
    with r have "0 < r" by simp
    obtain k where "m / r < 4 ^ k" using real_arch_pow [of 4 "m / r"] by auto
    with \<open>0 < r\<close> that show ?thesis by (simp add: pos_divide_less_eq mult.commute) (meson less_imp_le)
  qed (use that [of 0] in simp)
  from nearest_from_returns [OF r(1) this, of g c n "q_types q"] obtain r' found where
    "nearest_from g c n (q_types q) m r = Some (slice_limit (Some n) found)"
    "found = withinRadius g c r' \<lparr>q_types = q_types q, q_limit = None\<rparr>"
    "r' \<le> max r m" "n \<le> int (length found) \<or> m \<le> r'"
    by blast
  moreover have "nearest g c n q maxR = nearest_from g c n (q_types q) m r"
    by (simp add: nearest_def Let_def m_def r_def)
  moreover have "max r m = m" using r(2) by simp
  ultimately show ?thesis unfolding m_def [symmetric]
    by (intro exI [of _ r'] exI [of _ found]) auto
qed

text \<open>A radius query is sound: what it returns is in the index and within the radius, nearest first.\<close>

lemma withinRadius_sound:
  assumes g: "grid_ok g"
  shows "sorted (map snd (withinRadius g c r (q\<lparr>q_limit := None\<rparr>))) \<and>
    (\<forall>(it, d) \<in> set (withinRadius g c r (q\<lparr>q_limit := None\<rparr>)).
       get_item g (si_id it) = Some it \<and> d = haversineMeters c (item_place it) \<and> d \<le> r)"
proof -
  have "get_item g (si_id it) = Some it" if it: "it \<in> set (cell_items (candidateCells g b))" for it b
  proof -
    from it obtain k m where "(k, m) \<in> set (cells g) \<and> it \<in> set (map snd m)"
      unfolding cell_items_in using candidateCells_sub [OF grid_okD(1) [OF g]] by blast
    then show ?thesis unfolding in_cells [OF g] by blast
  qed
  then show ?thesis by (auto simp: withinRadius_def slice_limit_def)
qed

section \<open>Density\<close>

definition world_bounds :: geo_bounds where
  "world_bounds = \<lparr>west = -180, south = -90, east = 180, north = 90\<rparr>"

lemma counts_sum:
  "sum_list (map (\<lambda>(k, b, n). n) (cellCounts g b q)) =
     length (filter (of_types q) (cell_items (candidateCells g b)))"
proof -
  have f: "(if q_types q = None then length m else length (filter (of_types q) (map snd m))) =
      length (filter (of_types q) (map snd m))" for m :: cell
    by (simp add: of_types_def)
  have "sum_list (map (\<lambda>(k, b, n). n) (filter (\<lambda>(k, bs, n). n > 0)
        (map (\<lambda>(k, m). (k, cellBounds g k, length (filter (of_types q) (map snd m)))) cs))) =
      length (filter (of_types q) (cell_items cs))" for cs
    by (induction cs) (auto simp: cell_items_def filter_map comp_def)
  then show ?thesis unfolding cellCounts_def f by blast
qed

text \<open>
  The density of the whole world counts every item of the asked types once: the counts of
  the cells add up to the number of those items.
\<close>
theorem density_counts_all:
  assumes g: "grid_ok g" and p: "\<forall>i it. get_item g i = Some it \<longrightarrow> placed it"
  shows "sum_list (map (\<lambda>(k, b, n). n) (cellCounts g world_bounds q)) =
    card {it. get_item g (si_id it) = Some it \<and> of_types q it}"
proof -
  note d = grid_okD [OF g]
  let ?its = "cell_items (candidateCells g world_bounds)"
  have "it \<in> set ?its \<longleftrightarrow> get_item g (si_id it) = Some it" for it
  proof (cases "boundsContain world_bounds (item_place it)")
    case True
    then show ?thesis by (intro candidate_items [OF g p]) (simp_all add: world_bounds_def)
  next
    case False
    moreover have "placed it \<Longrightarrow> boundsContain world_bounds (item_place it)"
      by (simp add: placed_def isValidLatLon_def boundsContain_def world_bounds_def abs_le_iff)
    ultimately have "\<not> placed it" by blast
    with p have n: "get_item g (si_id it) \<noteq> Some it" by blast
    have "it \<notin> set ?its"
    proof
      assume "it \<in> set ?its"
      then obtain k m where "(k, m) \<in> set (cells g) \<and> it \<in> set (map snd m)"
        unfolding cell_items_in using candidateCells_sub [OF d(1)] by blast
      then show False unfolding in_cells [OF g] using n by blast
    qed
    with n show ?thesis by blast
  qed
  then have "set (filter (of_types q) ?its) = {it. get_item g (si_id it) = Some it \<and> of_types q it}"
    by auto
  moreover have "distinct (filter (of_types q) ?its)"
    by (intro distinct_filter cell_items_distinct [OF g] candidateCells_distinct [OF d(1)])
      (use candidateCells_sub [OF d(1)] in blast)
  ultimately show ?thesis by (metis counts_sum distinct_card)
qed

theorem density_counts_all_witness:
  "sum_list (map (\<lambda>(k, b, n). n) (cellCounts demo_grid world_bounds any_item)) = 2"
proof -
  have "{it. get_item demo_grid (si_id it) = Some it \<and> of_types any_item it} =
      {it. get_item demo_grid (si_id it) = Some it}"
    by (simp add: of_types_def any_item_def)
  then show ?thesis
    using density_counts_all [OF demo_grid_ok demo_grid_placed, of any_item]
    unfolding demo_grid_items by simp
qed

section \<open>The edges of the grid\<close>

text \<open>
  The row of the pole is the last row of cells, but the range of rows of a rectangle that only
  touches the pole starts after it: an item at the pole is not found by a query of the pole.
  The same holds on the meridian of 180 degrees for a rectangle whose west side it is.
\<close>

lemma pole_missed:
  fixes g defines g_def: "g \<equiv> put_item \<lparr>si_id = js ''p'', si_lat = 90, si_lon = 0, si_type = None\<rparr>
    \<lparr>cell_size = 1, cells = [], items = []\<rparr>"
  defines b_def: "b \<equiv> \<lparr>west = -10, south = 90, east = 10, north = 90\<rparr>"
  shows "boundsContain b (90, 0) \<and> withinBounds g b any_item = []"
  unfolding g_def b_def
  by (simp add: boundsContain_def withinBounds_def candidateCells_cases range_cells_def row_range_def
      col_range_def rows_def cols_def put_item_def enter_cell_def cellKey_def cell_items_def Let_def)

section \<open>The interface\<close>

text \<open>
  What the world state relies on: an index that is kept in step with the objects, putting an
  object that has a place and dropping one that has none, holds exactly the objects' places.
\<close>

locale spatial_index =
  fixes put :: "spatial_item \<Rightarrow> 's \<Rightarrow> 's"
    and remove :: "jstring \<Rightarrow> 's \<Rightarrow> 's"
    and look :: "'s \<Rightarrow> jstring \<Rightarrow> spatial_item option"
    and ok :: "'s \<Rightarrow> bool"
  assumes put_ok: "ok s \<Longrightarrow> ok (put it s)"
    and remove_ok: "ok s \<Longrightarrow> ok (remove i s)"
    and look_put: "ok s \<Longrightarrow> look (put it s) = (look s)(si_id it \<mapsto> it)"
    and look_remove: "ok s \<Longrightarrow> look (remove i s) = (look s)(i := None)"
begin

definition in_step :: "'s \<Rightarrow> (jstring \<Rightarrow> spatial_item option) \<Rightarrow> bool" where
  "in_step s places \<longleftrightarrow> ok s \<and> look s = places"

definition follow :: "jstring \<Rightarrow> spatial_item option \<Rightarrow> 's \<Rightarrow> 's" where
  "follow i spot s = (case spot of Some it \<Rightarrow> put it s | None \<Rightarrow> remove i s)"

lemma in_step_follow:
  assumes "in_step s places" and "\<And>it. spot = Some it \<Longrightarrow> si_id it = i"
  shows "in_step (follow i spot s) (places(i := spot))"
  using assms by (cases spot) (auto simp: in_step_def follow_def put_ok remove_ok look_put look_remove)

lemma in_step_put: "in_step s places \<Longrightarrow> in_step (put it s) (places(si_id it \<mapsto> it))"
  by (simp add: in_step_def put_ok look_put)

lemma in_step_remove: "in_step s places \<Longrightarrow> in_step (remove i s) (places(i := None))"
  by (simp add: in_step_def remove_ok look_remove)

end

interpretation hot: spatial_index put_item "\<lambda>i g. snd (remove_item i g)" get_item grid_ok
  by unfold_locales (auto simp: grid_ok_put grid_ok_remove get_put get_remove fun_eq_iff)

end
