(* ===== verification/World_State.thy ===== *)
theory World_State
  imports Identity Grid_Index
begin

text \<open>
  The live state of the world (\<^verbatim>\<open>packages/state-engine/src/index.ts\<close>): the objects, the
  indexes over them, their tracks and contributors, and the changes gathered since the last
  flush. A set is a list without repetition in the order of insertion. The clock is an argument
  of each operation; listeners are numbers and the flush timer is whether it is armed.
\<close>

section \<open>State\<close>

record track_point =
  tp_observed :: jstring
  tp_lat :: real
  tp_lon :: real
  tp_alt :: "real option"

record world_opts =
  max_refs :: nat
  max_track :: nat
  max_recent :: nat
  flush_delay :: int

record pending_changes =
  p_added :: "jstring list"
  p_updated :: "jstring list"
  p_removed :: "jstring list"
  p_refreshed :: "jstring list"
  p_withdrawn :: "jstring list"

definition no_changes :: pending_changes where
  "no_changes = \<lparr>p_added = [], p_updated = [], p_removed = [], p_refreshed = [], p_withdrawn = []\<rparr>"

record world =
  w_identity :: resolver
  w_overrides :: policies
  w_opts :: world_opts
  w_spatial :: grid
  w_objects :: "(jstring \<times> world_object) list"
  w_by_type :: "(jstring \<times> jstring list) list"
  w_by_provider :: "(jstring \<times> jstring list) list"
  w_tracks :: "(jstring \<times> track_point list) list"
  w_contributors :: "(jstring \<times> jstring list) list"
  w_recent :: "observation list"
  w_admitted :: "nat list"
  w_provider_freshness :: "(jstring \<times> policies) list"
  w_listeners :: "nat list"
  w_pending :: pending_changes
  w_timer :: bool

record ingest_meta =
  im_snapshot :: bool
  im_withdraws :: bool
  im_provider :: jstring
  im_freshness :: "policies option"

datatype refusal = Provider_Mismatch | Invalid_Observed_At | Already_Expired

record ingest_result =
  ir_accepted :: nat
  ir_added :: nat
  ir_updated :: nat
  ir_removed :: nat
  ir_rejected :: "(jstring \<times> refusal) list"

record state_change =
  sc_added :: "jstring list"
  sc_updated :: "jstring list"
  sc_removed :: "jstring list"
  sc_refreshed :: "jstring list"
  sc_withdrawn :: "jstring list option"
  sc_at :: jstring
  sc_count :: nat

definition new_world :: "resolver \<Rightarrow> policies \<Rightarrow> world_opts \<Rightarrow> grid \<Rightarrow> world" where
  "new_world rs ps opts g =
     \<lparr>w_identity = rs, w_overrides = ps, w_opts = opts, w_spatial = g, w_objects = [], w_by_type = [],
      w_by_provider = [], w_tracks = [], w_contributors = [], w_recent = [], w_admitted = [],
      w_provider_freshness = [], w_listeners = [], w_pending = no_changes, w_timer = False\<rparr>"

section \<open>What the indexes are keyed by\<close>

definition ref_providers :: "world_object \<Rightarrow> jstring list" where
  "ref_providers o' = remdups (map rf_provider (wo_refs o'))"

definition object_item :: "world_object \<Rightarrow> spatial_item option" where
  "object_item o' = map_option (\<lambda>p. \<lparr>si_id = wo_id o', si_lat = latitude p, si_lon = longitude p,
     si_type = Some (wo_type o')\<rparr>) (wo_position o')"

section \<open>Reads\<close>

definition ofType :: "world \<Rightarrow> jstring \<Rightarrow> world_object list" where
  "ofType w ty = List.map_filter (map_of (w_objects w)) (set_of (w_by_type w) ty)"

definition ofProvider :: "world \<Rightarrow> jstring \<Rightarrow> world_object list" where
  "ofProvider w p = List.map_filter (map_of (w_objects w)) (set_of (w_by_provider w) p)"

definition countsByType :: "world \<Rightarrow> (jstring \<times> nat) list" where
  "countsByType w = filter (\<lambda>(t, n). n > 0) (map (\<lambda>(t, s). (t, length s)) (w_by_type w))"

definition countsByProvider :: "world \<Rightarrow> (jstring \<times> nat) list" where
  "countsByProvider w = filter (\<lambda>(t, n). n > 0) (map (\<lambda>(t, s). (t, length s)) (w_by_provider w))"

definition objects_within :: "world \<Rightarrow> geo_region \<Rightarrow> query \<Rightarrow> world_object list" where
  "objects_within w r q =
     List.map_filter (\<lambda>it. map_of (w_objects w) (si_id it)) (withinRegion (w_spatial w) r q)"

definition objects_in_bounds :: "world \<Rightarrow> geo_bounds \<Rightarrow> query \<Rightarrow> world_object list" where
  "objects_in_bounds w b q =
     List.map_filter (\<lambda>it. map_of (w_objects w) (si_id it)) (withinBounds (w_spatial w) b q)"

definition nearest_objects :: "world \<Rightarrow> latlon \<Rightarrow> int \<Rightarrow> query \<Rightarrow> real option \<Rightarrow> (world_object \<times> real) list option" where
  "nearest_objects w c n q maxR =
     map_option (List.map_filter (\<lambda>(it, d). map_option (\<lambda>ob. (ob, d)) (map_of (w_objects w) (si_id it))))
       (nearest (w_spatial w) c n q maxR)"

definition recentObservations :: "world \<Rightarrow> nat \<Rightarrow> observation list" where
  "recentObservations w limit =
     (if limit = 0 then w_recent w else drop (length (w_recent w) - limit) (w_recent w))"

definition track :: "world \<Rightarrow> jstring \<Rightarrow> track_point list" where
  "track w i = set_of (w_tracks w) i"

section \<open>What an observation's payload gives an object\<close>

definition LABEL_KEYS :: "jstring list" where
  "LABEL_KEYS = map js [''name'', ''callsign'', ''registration'', ''title'', ''place'', ''label'',
     ''flight'', ''shortName'']"

definition label_text :: "nat \<Rightarrow> json option \<Rightarrow> jstring option" where
  "label_text n v =
     (case v of Some (JStr s) \<Rightarrow> if trim s \<noteq> [] then Some (take n (trim s)) else None | _ \<Rightarrow> None)"

definition extractLabels :: "payload \<Rightarrow> (jstring \<times> jstring) list" where
  "extractLabels p =
     List.map_filter (\<lambda>k. map_option (\<lambda>t. (k, t)) (label_text 200 (map_of p k))) LABEL_KEYS"

definition number_of :: "json option \<Rightarrow> real option" where
  "number_of v = (case v of Some (JNum x) \<Rightarrow> Some x | _ \<Rightarrow> None)"

definition coalesce :: "json option \<Rightarrow> json option \<Rightarrow> json option" where
  "coalesce a b = (if a = None \<or> a = Some JNull then b else a)"

definition extractMotion :: "payload \<Rightarrow> obj_motion option" where
  "extractMotion p =
     (let speed = number_of (map_of p (js ''speedMps''));
          heading = number_of (coalesce (map_of p (js ''headingDegrees'')) (map_of p (js ''courseDegrees'')));
          vs = number_of (map_of p (js ''verticalSpeedMps''))
      in if speed = None \<and> heading = None \<and> vs = None then None
         else Some \<lparr>mo_speed = speed,
                    mo_heading = map_option (\<lambda>h. js_rem (js_rem h 360 + 360) 360) heading,
                    mo_vertical = vs\<rparr>)"

definition media_kind_of :: "jstring \<Rightarrow> media_kind option" where
  "media_kind_of s =
     (if s = js ''image'' then Some Image_Media else if s = js ''stream'' then Some Stream_Media
      else if s = js ''snapshot'' then Some Snapshot_Media else if s = js ''audio'' then Some Audio
      else None)"

definition media_entry :: "json \<Rightarrow> media option" where
  "media_entry item =
     (case item of
        JObj rec \<Rightarrow>
          (case (map_of rec (js ''kind''), map_of rec (js ''ref'')) of
             (Some (JStr k), Some (JStr r)) \<Rightarrow>
               (case media_kind_of k of
                  None \<Rightarrow> None
                | Some kind \<Rightarrow>
                    if trim r = [] then None
                    else Some \<lparr>me_kind = kind, me_ref = take 512 (trim r),
                               me_label = label_text 200 (map_of rec (js ''label'')),
                               me_mime = label_text 100 (map_of rec (js ''mimeType''))\<rparr>)
           | _ \<Rightarrow> None)
      | _ \<Rightarrow> None)"

definition MAX_MEDIA :: nat where
  "MAX_MEDIA = 8"

definition extractMedia :: "payload \<Rightarrow> media list option" where
  "extractMedia p =
     (case map_of p (js ''media'') of
        Some (JArr raw) \<Rightarrow>
          (let out = take MAX_MEDIA (List.map_filter media_entry raw) in if out = [] then None else Some out)
      | _ \<Rightarrow> None)"

definition computeValidUntil :: "observation \<Rightarrow> int \<Rightarrow> freshness_policy \<Rightarrow> jstring option" where
  "computeValidUntil ob observedMs p =
     (case ob_until ob of
        Some u \<Rightarrow> if u \<noteq> [] then Some u
          else map_option (\<lambda>e. to_iso \<lfloor>of_int observedMs + e * 1000\<rfloor>) (expireSeconds p)
      | None \<Rightarrow> map_option (\<lambda>e. to_iso \<lfloor>of_int observedMs + e * 1000\<rfloor>) (expireSeconds p))"

definition policyFor :: "world \<Rightarrow> jstring \<Rightarrow> policies option \<Rightarrow> freshness_policy" where
  "policyFor w ty overrides =
     (case Option.bind overrides (\<lambda>m. map_of m ty) of
        Some p \<Rightarrow> p
      | None \<Rightarrow> (case map_of (w_overrides w) ty of Some p \<Rightarrow> p | None \<Rightarrow> freshnessPolicyFor ty []))"

section \<open>Changes of the objects\<close>

definition insert_object :: "world_object \<Rightarrow> world \<Rightarrow> world" where
  "insert_object ob w =
     w\<lparr>w_objects := AList.update (wo_id ob) ob (w_objects w),
       w_by_type := index_in (wo_type ob) (wo_id ob) (w_by_type w),
       w_by_provider := fold (\<lambda>r. index_in (rf_provider r) (wo_id ob)) (wo_refs ob) (w_by_provider w),
       w_spatial := (case object_item ob of Some it \<Rightarrow> put_item it (w_spatial w) | None \<Rightarrow> w_spatial w)\<rparr>"

definition replace_object :: "world_object \<Rightarrow> world_object \<Rightarrow> world \<Rightarrow> world" where
  "replace_object prev nxt w =
     (let before = ref_providers prev; after = ref_providers nxt;
          gone = filter (\<lambda>p. p \<notin> set after) before
      in w\<lparr>w_objects := AList.update (wo_id nxt) nxt (w_objects w),
           w_by_provider := fold (\<lambda>p. index_in p (wo_id nxt)) after
             (fold (\<lambda>p. unindex_in p (wo_id nxt)) gone (w_by_provider w)),
           w_spatial := (case object_item nxt of
               Some it \<Rightarrow> put_item it (w_spatial w)
             | None \<Rightarrow> snd (remove_item (wo_id nxt) (w_spatial w)))\<rparr>)"

definition forget_pending :: "jstring \<Rightarrow> pending_changes \<Rightarrow> pending_changes" where
  "forget_pending i p =
     (let p1 = (if i \<in> set (p_added p) then p\<lparr>p_added := removeAll i (p_added p)\<rparr>
                else p\<lparr>p_removed := add_to i (p_removed p)\<rparr>)
      in p1\<lparr>p_updated := removeAll i (p_updated p1), p_refreshed := removeAll i (p_refreshed p1)\<rparr>)"

definition delete_object :: "jstring \<Rightarrow> world \<Rightarrow> world" where
  "delete_object i w =
     (case map_of (w_objects w) i of
        None \<Rightarrow> w
      | Some ob \<Rightarrow>
          w\<lparr>w_objects := AList.delete i (w_objects w),
            w_by_type := unindex_in (wo_type ob) i (w_by_type w),
            w_by_provider := fold (\<lambda>r. unindex_in (rf_provider r) i) (wo_refs ob) (w_by_provider w),
            w_spatial := snd (remove_item i (w_spatial w)),
            w_tracks := AList.delete i (w_tracks w),
            w_contributors := AList.delete i (w_contributors w),
            w_pending := forget_pending i (w_pending w)\<rparr>)"

definition track_point_of :: "observation \<Rightarrow> geo_position \<Rightarrow> track_point" where
  "track_point_of ob p =
     \<lparr>tp_observed = ob_observed ob, tp_lat = latitude p, tp_lon = longitude p, tp_alt = altitudeM p\<rparr>"

definition keep_last :: "nat \<Rightarrow> 'a list \<Rightarrow> 'a list" where
  "keep_last n xs = (if length xs > n then drop (length xs - n) xs else xs)"

definition pushTrack :: "jstring \<Rightarrow> observation \<Rightarrow> world \<Rightarrow> world" where
  "pushTrack i ob w =
     (case ob_position ob of
        None \<Rightarrow> w
      | Some p \<Rightarrow>
          let t = set_of (w_tracks w) i
          in if t \<noteq> [] \<and> tp_observed (last t) = ob_observed ob then
               w\<lparr>w_tracks := AList.update i t (w_tracks w)\<rparr>
             else w\<lparr>w_tracks :=
                 AList.update i (keep_last (max_track (w_opts w)) (t @ [track_point_of ob p])) (w_tracks w)\<rparr>)"

definition pushRecent :: "observation \<Rightarrow> world \<Rightarrow> world" where
  "pushRecent ob w = w\<lparr>w_recent := keep_last (max_recent (w_opts w)) (w_recent w @ [ob])\<rparr>"

definition scheduleFlush :: "world \<Rightarrow> world" where
  "scheduleFlush w =
     (if flush_delay (w_opts w) \<le> 0 \<or> w_timer w \<or> w_listeners w = [] then w else w\<lparr>w_timer := True\<rparr>)"

section \<open>Ingest\<close>

definition ref_of :: "observation \<Rightarrow> observation_ref" where
  "ref_of ob = \<lparr>rf_observation = ob_id ob, rf_provider = ob_provider ob, rf_observed = ob_observed ob\<rparr>"

definition place_of :: "observation \<Rightarrow> geo_position option" where
  "place_of ob =
     (case ob_position ob of Some p \<Rightarrow> Some p | None \<Rightarrow> Option.bind (ob_geometry ob) geometryCentroid)"

definition first_object :: "observation \<Rightarrow> resolution \<Rightarrow> freshness_policy \<Rightarrow> int \<Rightarrow> int \<Rightarrow> world_object" where
  "first_object ob res p now observedMs =
     (let f = classifyFreshness (Some observedMs) now p
      in \<lparr>wo_id = rs_object res, wo_type = ob_type ob, wo_refs = [ref_of ob],
          wo_position = place_of ob, wo_geometry = ob_geometry ob,
          wo_motion = extractMotion (ob_payload ob),
          wo_observed = ob_observed ob, wo_updated = to_iso now,
          wo_until = computeValidUntil ob observedMs p, wo_freshness = f,
          wo_confidence = computeConfidence \<lparr>ci_quality = ql_source (ob_quality ob), ci_freshness = f,
            ci_accuracy = ql_accuracy (ob_quality ob), ci_providers = 1,
            ci_authoritative = rs_authoritative res\<rparr>,
          wo_labels = extractLabels (ob_payload ob), wo_properties = spread [] (ob_payload ob),
          wo_media = extractMedia (ob_payload ob), wo_links = None, wo_provenance = ob_provenance ob\<rparr>)"

definition merge_motion :: "obj_motion option \<Rightarrow> obj_motion option \<Rightarrow> obj_motion option" where
  "merge_motion old new =
     (case new of
        None \<Rightarrow> old
      | Some n \<Rightarrow>
          (case old of
             None \<Rightarrow> Some n
           | Some m \<Rightarrow>
               let pick = (\<lambda>f. case f n of Some x \<Rightarrow> Some x | None \<Rightarrow> f m)
               in Some \<lparr>mo_speed = pick mo_speed, mo_heading = pick mo_heading,
                        mo_vertical = pick mo_vertical\<rparr>))"

definition merged_object ::
  "nat \<Rightarrow> world_object \<Rightarrow> observation \<Rightarrow> resolution \<Rightarrow> freshness_policy \<Rightarrow> int \<Rightarrow> int \<Rightarrow> int \<Rightarrow> world_object" where
  "merged_object cap ex ob res p now observedMs existingMs =
     (let newer = observedMs \<ge> existingMs;
          refs = take cap (ref_of ob # filter (\<lambda>r. rf_observation r \<noteq> ob_id ob) (wo_refs ex));
          latest = max observedMs existingMs;
          f = classifyFreshness (Some latest) now p
      in ex\<lparr>wo_refs := refs,
            wo_observed := (if newer then ob_observed ob else wo_observed ex),
            wo_updated := to_iso now,
            wo_freshness := f,
            wo_confidence := computeConfidence
              \<lparr>ci_quality = (if newer then ql_source (ob_quality ob) else Unknown_Quality), ci_freshness = f,
               ci_accuracy = (if newer then ql_accuracy (ob_quality ob) else None),
               ci_providers = length (remdups (map rf_provider refs)),
               ci_authoritative = rs_authoritative res\<rparr>,
            wo_labels := (if newer then spread (wo_labels ex) (extractLabels (ob_payload ob)) else wo_labels ex),
            wo_properties := (if newer then spread (wo_properties ex) (ob_payload ob)
              else spread (spread [] (ob_payload ob)) (wo_properties ex)),
            wo_provenance := (if newer then ob_provenance ob else wo_provenance ex),
            wo_position := (if newer \<and> place_of ob \<noteq> None then place_of ob else wo_position ex),
            wo_geometry := (if newer \<and> ob_geometry ob \<noteq> None then ob_geometry ob else wo_geometry ex),
            wo_motion := (if newer then merge_motion (wo_motion ex) (extractMotion (ob_payload ob))
              else wo_motion ex),
            wo_media := (if newer then extractMedia (ob_payload ob) else wo_media ex),
            wo_until := computeValidUntil ob latest p\<rparr>)"

text \<open>An observation is admitted: remembered, kept among the recent ones, its provider counted.\<close>

definition admit :: "jstring \<Rightarrow> observation \<Rightarrow> world \<Rightarrow> world" where
  "admit i ob w =
     (let w1 = pushRecent ob (w\<lparr>w_admitted := add_to (ob_cell ob) (w_admitted w)\<rparr>)
      in w1\<lparr>w_contributors := index_in i (ob_provider ob) (w_contributors w1)\<rparr>)"

definition add_new :: "jstring \<Rightarrow> observation \<Rightarrow> world_object \<Rightarrow> world \<Rightarrow> world" where
  "add_new i ob new w =
     (let w1 = pushTrack i ob (insert_object new w);
          p = w_pending w1
      in w1\<lparr>w_pending :=
           (if i \<in> set (p_removed p)
            then p\<lparr>p_removed := removeAll i (p_removed p), p_withdrawn := removeAll i (p_withdrawn p),
                   p_updated := add_to i (p_updated p)\<rparr>
            else p\<lparr>p_added := add_to i (p_added p)\<rparr>)\<rparr>)"

definition merge_into :: "jstring \<Rightarrow> observation \<Rightarrow> world_object \<Rightarrow> world_object \<Rightarrow> bool \<Rightarrow> world \<Rightarrow> world" where
  "merge_into i ob ex upd newer w =
     (let w1 = replace_object ex upd w;
          w2 = (if newer then pushTrack i ob w1 else w1);
          p = w_pending w2
      in w2\<lparr>w_pending := (if i \<in> set (p_added p) then p else p\<lparr>p_updated := add_to i (p_updated p)\<rparr>)\<rparr>)"

text \<open>
  One observation of the batch: what the loop carries is the state, the counts and the ids seen.
  The resolver may throw, which leaves the state as it is and ends the call. An object in the
  state always has a readable time; the branch where it has none stands for the \<open>RangeError\<close> of
  writing a time that is not a number.
\<close>

datatype ingest_fault = Identity_Threw id_error | Range_Error

type_synonym ingesting = "world \<times> ingest_result \<times> jstring list"

definition reject :: "observation \<Rightarrow> refusal \<Rightarrow> ingest_result \<Rightarrow> ingest_result" where
  "reject ob why r = r\<lparr>ir_rejected := ir_rejected r @ [(ob_id ob, why)]\<rparr>"

definition accept :: "ingest_result \<Rightarrow> ingest_result" where
  "accept r = r\<lparr>ir_accepted := ir_accepted r + 1\<rparr>"

definition apply_observation ::
  "int \<Rightarrow> freshness_policy \<Rightarrow> observation \<Rightarrow> resolution \<Rightarrow> int \<Rightarrow> world \<Rightarrow> ingest_result \<Rightarrow>
   ingest_fault + world \<times> ingest_result" where
  "apply_observation now p ob res t w r =
     (let i = rs_object res in
      case map_of (w_objects w) i of
        None \<Rightarrow> Inr (add_new i ob (first_object ob res p now t) (admit i ob w), (accept r)\<lparr>ir_added := ir_added r + 1\<rparr>)
      | Some ex \<Rightarrow>
          if ob_cell ob \<in> set (w_admitted w) \<and> wo_refs ex \<noteq> [] \<and> rf_observation (hd (wo_refs ex)) = ob_id ob
          then Inr (w, accept r)
          else (case date_parse (wo_observed ex) of
                  None \<Rightarrow> Inl Range_Error
                | Some e \<Rightarrow>
                    Inr (merge_into i ob ex (merged_object (max_refs (w_opts w)) ex ob res p now t e) (t \<ge> e)
                           (admit i ob w),
                         (accept r)\<lparr>ir_updated := ir_updated r + 1\<rparr>)))"

definition ingest_one :: "int \<Rightarrow> ingest_meta \<Rightarrow> observation \<Rightarrow> ingesting \<Rightarrow> ingest_fault option \<times> ingesting" where
  "ingest_one now meta ob s =
     (case s of (w, r, seen) \<Rightarrow>
        if ob_provider ob \<noteq> im_provider meta then (None, w, reject ob Provider_Mismatch r, seen)
        else case resolve (w_identity w) ob of
          Inl e \<Rightarrow> (Some (Identity_Threw e), w, r, seen)
        | Inr res \<Rightarrow>
            let seen = add_to (rs_object res) seen;
                p = policyFor w (ob_type ob) (im_freshness meta)
            in case date_parse (ob_observed ob) of
                 None \<Rightarrow> (None, w, reject ob Invalid_Observed_At r, seen)
               | Some t \<Rightarrow>
                   if isExpired (Some t) now p \<and> (ob_until ob = None \<or> ob_until ob = Some [])
                   then (None, w, reject ob Already_Expired r, seen)
                   else (case apply_observation now p ob res t w r of
                           Inl e \<Rightarrow> (Some e, w, r, seen)
                         | Inr (w', r') \<Rightarrow> (None, w', r', seen)))"

fun ingest_all :: "int \<Rightarrow> ingest_meta \<Rightarrow> observation list \<Rightarrow> ingesting \<Rightarrow> ingest_fault option \<times> ingesting" where
  "ingest_all now meta [] s = (None, s)"
| "ingest_all now meta (ob # obs) s =
     (case ingest_one now meta ob s of
        (Some e, s') \<Rightarrow> (Some e, s')
      | (None, s') \<Rightarrow> ingest_all now meta obs s')"

text \<open>What a snapshot left out loses the provider, and goes when it had no other.\<close>

definition drop_provider_refs :: "jstring \<Rightarrow> world_object \<Rightarrow> observation_ref list" where
  "drop_provider_refs p ob = filter (\<lambda>r. rf_provider r \<noteq> p) (wo_refs ob)"

definition leave_out :: "int \<Rightarrow> ingest_meta \<Rightarrow> jstring list \<Rightarrow> jstring \<Rightarrow> world \<times> ingest_result \<Rightarrow> world \<times> ingest_result" where
  "leave_out now meta seen i s =
     (case s of (w, r) \<Rightarrow>
        if i \<in> set seen then (w, r)
        else case map_of (w_objects w) i of
          None \<Rightarrow> (w, r)
        | Some ob \<Rightarrow>
            if drop_provider_refs (im_provider meta) ob = [] then
              let w1 = delete_object i w; p = w_pending w1
              in (w1\<lparr>w_pending :=
                    (if im_withdraws meta \<and> i \<in> set (p_removed p)
                     then p\<lparr>p_withdrawn := add_to i (p_withdrawn p)\<rparr> else p)\<rparr>,
                  r\<lparr>ir_removed := ir_removed r + 1\<rparr>)
            else (replace_object ob (ob\<lparr>wo_refs := drop_provider_refs (im_provider meta) ob,
                                       wo_updated := to_iso now\<rparr>) w, r))"

definition no_result :: ingest_result where
  "no_result = \<lparr>ir_accepted = 0, ir_added = 0, ir_updated = 0, ir_removed = 0, ir_rejected = []\<rparr>"

definition ingest :: "int \<Rightarrow> observation list \<Rightarrow> ingest_meta \<Rightarrow> world \<Rightarrow> world \<times> (ingest_fault + ingest_result)" where
  "ingest now obs meta w =
     (let w0 = (case im_freshness meta of
                  None \<Rightarrow> w
                | Some f \<Rightarrow> w\<lparr>w_provider_freshness := AList.update (im_provider meta) f (w_provider_freshness w)\<rparr>)
      in case ingest_all now meta obs (w0, no_result, []) of
           (Some e, w1, r, seen) \<Rightarrow> (w1, Inl e)
         | (None, w1, r, seen) \<Rightarrow>
             (case (if im_snapshot meta
                    then fold (leave_out now meta seen) (set_of (w_by_provider w1) (im_provider meta)) (w1, r)
                    else (w1, r)) of
                (w2, r2) \<Rightarrow> (scheduleFlush w2, Inr r2)))"

section \<open>Sweep, removal and clearing\<close>

definition sweep_policy :: "world \<Rightarrow> world_object \<Rightarrow> freshness_policy" where
  "sweep_policy w ob =
     policyFor w (wo_type ob)
       (map_of (w_provider_freshness w) (case wo_refs ob of [] \<Rightarrow> [] | r # _ \<Rightarrow> rf_provider r))"

definition is_gone :: "int \<Rightarrow> freshness_policy \<Rightarrow> world_object \<Rightarrow> bool" where
  "is_gone now p ob =
     (case wo_until ob of
        Some u \<Rightarrow> if u \<noteq> [] then (case date_parse u of Some v \<Rightarrow> now > v | None \<Rightarrow> False)
          else isExpired (date_parse (wo_observed ob)) now p
      | None \<Rightarrow> isExpired (date_parse (wo_observed ob)) now p)"

definition reclassified :: "world_object \<Rightarrow> freshness_class \<Rightarrow> world_object" where
  "reclassified ob f =
     ob\<lparr>wo_freshness := f,
        wo_confidence := computeConfidence
          \<lparr>ci_quality = (if pv_origin (wo_provenance ob) = Derived_Origin then Derived else Authoritative),
           ci_freshness = f, ci_accuracy = None, ci_providers = length (ref_providers ob),
           ci_authoritative = True\<rparr>\<rparr>"

definition sweep_one :: "int \<Rightarrow> world \<Rightarrow> world_object \<Rightarrow> (jstring \<times> world_object) list \<times> jstring list \<times> jstring list \<Rightarrow>
    (jstring \<times> world_object) list \<times> jstring list \<times> jstring list" where
  "sweep_one now w ob s =
     (case s of (objs, expired, refreshed) \<Rightarrow>
        let p = sweep_policy w ob;
            f = classifyFreshness (date_parse (wo_observed ob)) now p
        in if is_gone now p ob then (objs, expired @ [wo_id ob], refreshed)
           else if f \<noteq> wo_freshness ob then
             (AList.update (wo_id ob) (reclassified ob f) objs, expired, refreshed @ [wo_id ob])
           else (objs, expired, refreshed))"

definition sweep :: "int \<Rightarrow> world \<Rightarrow> world \<times> jstring list \<times> jstring list" where
  "sweep now w =
     (case fold (sweep_one now w) (map snd (w_objects w)) (w_objects w, [], []) of
        (objs, expired, refreshed) \<Rightarrow>
          let w1 = fold delete_object expired (w\<lparr>w_objects := objs\<rparr>);
              w2 = w1\<lparr>w_pending := (w_pending w1)\<lparr>p_refreshed := fold add_to refreshed (p_refreshed (w_pending w1))\<rparr>\<rparr>
          in (if expired \<noteq> [] \<or> refreshed \<noteq> [] then scheduleFlush w2 else w2, expired, refreshed))"

definition take_provider :: "jstring \<Rightarrow> jstring \<Rightarrow> world \<times> nat \<Rightarrow> world \<times> nat" where
  "take_provider p i s =
     (case s of (w, n) \<Rightarrow>
        case map_of (w_objects w) i of
          None \<Rightarrow> (w, n)
        | Some ob \<Rightarrow>
            if drop_provider_refs p ob = [] then (delete_object i w, n + 1)
            else (replace_object ob (ob\<lparr>wo_refs := drop_provider_refs p ob\<rparr>) w, n))"

definition removeProvider :: "jstring \<Rightarrow> world \<Rightarrow> world \<times> nat" where
  "removeProvider p w =
     (case fold (take_provider p) (set_of (w_by_provider w) p) (w, 0) of
        (w1, n) \<Rightarrow> (scheduleFlush w1, n))"

definition clear :: "world \<Rightarrow> world" where
  "clear w = scheduleFlush ((fold delete_object (map fst (w_objects w)) w)\<lparr>w_recent := []\<rparr>)"

section \<open>Change notification\<close>

definition onChange :: "nat \<Rightarrow> world \<Rightarrow> world" where
  "onChange l w = w\<lparr>w_listeners := add_to l (w_listeners w)\<rparr>"

definition unsubscribe :: "nat \<Rightarrow> world \<Rightarrow> world" where
  "unsubscribe l w = w\<lparr>w_listeners := removeAll l (w_listeners w)\<rparr>"

definition hasPendingChanges :: "world \<Rightarrow> bool" where
  "hasPendingChanges w \<longleftrightarrow> (case w_pending w of p \<Rightarrow>
     length (p_added p) + length (p_updated p) + length (p_removed p) + length (p_refreshed p) > 0)"

definition without :: "'a list \<Rightarrow> 'a list \<Rightarrow> 'a list" where
  "without xs ys = filter (\<lambda>x. x \<notin> set xs) ys"

definition change_of :: "int \<Rightarrow> nat \<Rightarrow> pending_changes \<Rightarrow> state_change" where
  "change_of now count p =
     (let added = without (p_removed p) (p_added p);
          updated = without added (without (p_removed p) (p_updated p));
          refreshed = without updated (without added (without (p_removed p) (p_refreshed p)))
      in \<lparr>sc_added = added, sc_updated = updated, sc_removed = p_removed p, sc_refreshed = refreshed,
          sc_withdrawn = (if p_withdrawn p = [] then None else Some (p_withdrawn p)),
          sc_at = to_iso now, sc_count = count\<rparr>)"

definition flush :: "int \<Rightarrow> world \<Rightarrow> world \<times> state_change option" where
  "flush now w =
     (let w1 = w\<lparr>w_timer := False\<rparr>
      in if \<not> hasPendingChanges w then (w1, None)
         else (w1\<lparr>w_pending := no_changes\<rparr>, Some (change_of now (length (w_objects w)) (w_pending w))))"

text \<open>The field keeps the timer it cancelled, so nothing is scheduled any more.\<close>

definition dispose :: "world \<Rightarrow> world" where
  "dispose w = w\<lparr>w_listeners := []\<rparr>"

section \<open>The indexes agree with the objects\<close>

lemma fold_refs:
  "fold (\<lambda>r. index_in (rf_provider r) i) rs m = fold (\<lambda>p. index_in p i) (map rf_provider rs) m"
  "fold (\<lambda>r. unindex_in (rf_provider r) i) rs m = fold (\<lambda>p. unindex_in p i) (map rf_provider rs) m"
  by (simp_all add: fold_map comp_def)

type_synonym objects = "jstring \<Rightarrow> world_object option"

definition places :: "objects \<Rightarrow> jstring \<Rightarrow> spatial_item option" where
  "places O' i = Option.bind (O' i) object_item"

definition agree :: "objects \<Rightarrow> (jstring \<times> jstring list) list \<Rightarrow> (jstring \<times> jstring list) list \<Rightarrow> grid \<Rightarrow> bool" where
  "agree O' bt bp sp \<longleftrightarrow>
     (\<forall>i ob. O' i = Some ob \<longrightarrow> wo_id ob = i) \<and>
     (\<forall>t. distinct (set_of bt t)) \<and>
     (\<forall>t i. i \<in> set (set_of bt t) \<longleftrightarrow> (\<exists>ob. O' i = Some ob \<and> wo_type ob = t)) \<and>
     (\<forall>p i. i \<in> set (set_of bp p) \<longleftrightarrow> (\<exists>ob. O' i = Some ob \<and> p \<in> set (ref_providers ob))) \<and>
     hot.in_step sp (places O')"

lemma places_upd: "places (O'(i \<mapsto> ob)) = (places O')(i := object_item ob)"
  "places (O'(i := None)) = (places O')(i := None)"
  by (auto simp: places_def fun_eq_iff)

lemma object_item_id: "object_item ob = Some it \<Longrightarrow> si_id it = wo_id ob"
  by (auto simp: object_item_def)

lemma set_ref_providers: "set (ref_providers ob) = rf_provider ` set (wo_refs ob)"
  by (simp add: ref_providers_def)

lemma agree_insert:
  assumes "agree O' bt bp sp" and "O' (wo_id ob) = None"
  shows "agree (O'(wo_id ob \<mapsto> ob)) (index_in (wo_type ob) (wo_id ob) bt)
    (fold (\<lambda>r. index_in (rf_provider r) (wo_id ob)) (wo_refs ob) bp)
    (case object_item ob of Some it \<Rightarrow> put_item it sp | None \<Rightarrow> sp)"
proof -
  have "hot.in_step (case object_item ob of Some it \<Rightarrow> put_item it sp | None \<Rightarrow> sp)
      ((places O')(wo_id ob := object_item ob))"
  proof (cases "object_item ob")
    case None
    have "(places O')(wo_id ob := None) = places O'"
      using assms(2) by (auto simp: places_def fun_eq_iff)
    with None assms(1) show ?thesis by (simp add: agree_def)
  next
    case (Some it)
    then show ?thesis
      using assms(1) hot.in_step_put [of sp "places O'" it] by (simp add: agree_def object_item_id)
  qed
  then show ?thesis
    using assms unfolding agree_def places_upd fold_refs
    by (auto simp: set_ref_providers distinct_index)
qed

lemma agree_replace:
  assumes a: "agree O' bt bp sp" and o': "O' (wo_id nxt) = Some prev" and ty: "wo_type nxt = wo_type prev"
  shows "agree (O'(wo_id nxt \<mapsto> nxt)) bt
    (fold (\<lambda>p. index_in p (wo_id nxt)) (ref_providers nxt)
      (fold (\<lambda>p. unindex_in p (wo_id nxt))
        (filter (\<lambda>p. p \<notin> set (ref_providers nxt)) (ref_providers prev)) bp))
    (case object_item nxt of Some it \<Rightarrow> put_item it sp | None \<Rightarrow> snd (remove_item (wo_id nxt) sp))"
proof -
  have "hot.in_step (hot.follow (wo_id nxt) (object_item nxt) sp) ((places O')(wo_id nxt := object_item nxt))"
    using a by (intro hot.in_step_follow) (auto simp: agree_def object_item_id)
  moreover have "hot.follow (wo_id nxt) (object_item nxt) sp =
      (case object_item nxt of Some it \<Rightarrow> put_item it sp | None \<Rightarrow> snd (remove_item (wo_id nxt) sp))"
    by (simp add: hot.follow_def)
  ultimately show ?thesis
    using a o' ty unfolding agree_def places_upd by (auto simp: set_ref_providers)
qed

lemma agree_delete:
  assumes a: "agree O' bt bp sp" and o': "O' i = Some ob"
  shows "agree (O'(i := None)) (unindex_in (wo_type ob) i bt)
    (fold (\<lambda>r. unindex_in (rf_provider r) i) (wo_refs ob) bp) (snd (remove_item i sp))"
  using a o' hot.in_step_remove [of sp "places O'" i]
  unfolding agree_def places_upd fold_refs by (auto simp: set_ref_providers distinct_unindex)

section \<open>The pending changes are the difference since the last flush\<close>

text \<open>
  What a change of an object announces: everything but the list of supporting observations and
  the time of the change.
\<close>

definition told :: "world_object \<Rightarrow> world_object" where
  "told ob = ob\<lparr>wo_refs := [], wo_updated := []\<rparr>"

lemma told_refs [simp]: "told (ob\<lparr>wo_refs := rs\<rparr>) = told ob" "told (ob\<lparr>wo_updated := t\<rparr>) = told ob"
  by (simp_all add: told_def)

definition touched :: "pending_changes \<Rightarrow> jstring set" where
  "touched p = set (p_added p) \<union> set (p_updated p) \<union> set (p_refreshed p)"

definition diff_of :: "objects \<Rightarrow> objects \<Rightarrow> pending_changes \<Rightarrow> bool" where
  "diff_of B O' p \<longleftrightarrow>
     set (p_added p) \<inter> dom B = {} \<and> set (p_removed p) \<subseteq> dom B \<and>
     dom O' = (dom B - set (p_removed p)) \<union> set (p_added p) \<and>
     set (p_updated p) \<subseteq> dom O' \<and> set (p_refreshed p) \<subseteq> dom O' \<and>
     set (p_withdrawn p) \<subseteq> set (p_removed p) \<and>
     (\<forall>i \<in> dom O' - touched p. map_option told (B i) = map_option told (O' i))"

lemma diff_of_start [simp]: "diff_of B B no_changes"
  by (auto simp: diff_of_def no_changes_def touched_def)

lemma diff_ofI:
  assumes "set (p_added p) \<inter> dom B = {}" and "set (p_removed p) \<subseteq> dom B"
    and "dom O' = (dom B - set (p_removed p)) \<union> set (p_added p)"
    and "set (p_updated p) \<subseteq> dom O'" and "set (p_refreshed p) \<subseteq> dom O'"
    and "set (p_withdrawn p) \<subseteq> set (p_removed p)"
    and "\<And>i. i \<in> dom O' \<Longrightarrow> i \<notin> touched p \<Longrightarrow> map_option told (B i) = map_option told (O' i)"
  shows "diff_of B O' p"
  using assms unfolding diff_of_def by blast

lemma diff_ofD:
  assumes "diff_of B O' p"
  shows "set (p_added p) \<inter> dom B = {}" and "set (p_removed p) \<subseteq> dom B"
    and "dom O' = (dom B - set (p_removed p)) \<union> set (p_added p)"
    and "set (p_updated p) \<subseteq> dom O'" and "set (p_refreshed p) \<subseteq> dom O'"
    and "set (p_withdrawn p) \<subseteq> set (p_removed p)"
    and "i \<in> dom O' \<Longrightarrow> i \<notin> touched p \<Longrightarrow> map_option told (B i) = map_option told (O' i)"
  using assms unfolding diff_of_def by blast+

lemma diff_of_silent:
  assumes d: "diff_of B O' p" and o': "O' i = Some ob" and t: "told ob' = told ob"
  shows "diff_of B (O'(i \<mapsto> ob')) p"
proof -
  note D = diff_ofD [OF d]
  have dom: "dom (O'(i \<mapsto> ob')) = dom O'" using o' by auto
  have same: "map_option told ((O'(i \<mapsto> ob')) j) = map_option told (O' j)" for j
    using o' t by simp
  show ?thesis
  proof (rule diff_ofI, unfold dom)
    fix j assume "j \<in> dom O'" "j \<notin> touched p"
    then show "map_option told (B j) = map_option told ((O'(i \<mapsto> ob')) j)"
      unfolding same by (rule D(7))
  qed (fact D)+
qed

lemma diff_of_update:
  assumes d: "diff_of B O' p" and o': "O' i = Some ex"
  shows "diff_of B (O'(i \<mapsto> ob))
    (if i \<in> set (p_added p) then p else p\<lparr>p_updated := add_to i (p_updated p)\<rparr>)"
proof -
  note D = diff_ofD [OF d]
  have dom: "dom (O'(i \<mapsto> ob)) = dom O'" using o' by auto
  have i: "i \<in> dom O'" using o' by blast
  define q where "q = (if i \<in> set (p_added p) then p else p\<lparr>p_updated := add_to i (p_updated p)\<rparr>)"
  have q: "p_added q = p_added p" "p_removed q = p_removed p" "p_refreshed q = p_refreshed p"
    "p_withdrawn q = p_withdrawn p" "touched q = insert i (touched p)" "set (p_updated q) \<subseteq> insert i (set (p_updated p))"
    by (auto simp: q_def touched_def)
  have "diff_of B (O'(i \<mapsto> ob)) q"
  proof (rule diff_ofI, unfold dom q)
    show "set (p_updated q) \<subseteq> dom O'" using q(6) D(4) i by blast
    fix j assume "j \<in> dom O'" "j \<notin> insert i (touched p)"
    then show "map_option told (B j) = map_option told ((O'(i \<mapsto> ob)) j)" using D(7) [of j] by simp
  qed (fact D)+
  then show ?thesis by (simp only: q_def)
qed

lemma diff_of_add:
  assumes d: "diff_of B O' p" and o': "O' i = None"
  shows "diff_of B (O'(i \<mapsto> ob))
    (if i \<in> set (p_removed p)
     then p\<lparr>p_removed := removeAll i (p_removed p), p_withdrawn := removeAll i (p_withdrawn p),
            p_updated := add_to i (p_updated p)\<rparr>
     else p\<lparr>p_added := add_to i (p_added p)\<rparr>)"
proof -
  note D = diff_ofD [OF d]
  have dom: "dom (O'(i \<mapsto> ob)) = insert i (dom O')" by simp
  have i: "i \<notin> dom O'" using o' by blast
  have old: "map_option told (B j) = map_option told ((O'(i \<mapsto> ob)) j)"
    if "j \<in> insert i (dom O')" "j \<notin> insert i (touched p)" for j
    using that D(7) [of j] by auto
  show ?thesis
  proof (cases "i \<in> set (p_removed p)")
    case True
    let ?q = "p\<lparr>p_removed := removeAll i (p_removed p), p_withdrawn := removeAll i (p_withdrawn p),
            p_updated := add_to i (p_updated p)\<rparr>"
    have q: "set (p_added ?q) = set (p_added p)" "set (p_removed ?q) = set (p_removed p) - {i}"
      "set (p_refreshed ?q) = set (p_refreshed p)" "set (p_withdrawn ?q) = set (p_withdrawn p) - {i}"
      "touched ?q = insert i (touched p)" "set (p_updated ?q) = insert i (set (p_updated p))"
      by (auto simp: touched_def)
    have "diff_of B (O'(i \<mapsto> ob)) ?q"
    proof (rule diff_ofI, unfold dom q)
      show "insert i (dom O') = dom B - (set (p_removed p) - {i}) \<union> set (p_added p)"
        using D(2,3) True by blast
    qed (use D(1-6) old in blast)+
    with True show ?thesis by simp
  next
    case False
    let ?q = "p\<lparr>p_added := add_to i (p_added p)\<rparr>"
    have q: "set (p_added ?q) = insert i (set (p_added p))" "set (p_removed ?q) = set (p_removed p)"
      "set (p_refreshed ?q) = set (p_refreshed p)" "set (p_withdrawn ?q) = set (p_withdrawn p)"
      "touched ?q = insert i (touched p)" "set (p_updated ?q) = set (p_updated p)"
      by (auto simp: touched_def)
    have b: "i \<notin> dom B" using D(3) i False by blast
    have "diff_of B (O'(i \<mapsto> ob)) ?q"
      by (rule diff_ofI, unfold dom q) (use D(1-6) b old in blast)+
    with False show ?thesis by simp
  qed
qed

lemma diff_of_delete:
  assumes d: "diff_of B O' p" and o': "O' i = Some ob"
  shows "diff_of B (O'(i := None)) (forget_pending i p)"
proof -
  note D = diff_ofD [OF d]
  have dom: "dom (O'(i := None)) = dom O' - {i}" by simp
  have i: "i \<in> dom O'" using o' by blast
  let ?q = "forget_pending i p"
  have q: "set (p_updated ?q) = set (p_updated p) - {i}" "set (p_refreshed ?q) = set (p_refreshed p) - {i}"
    "set (p_withdrawn ?q) = set (p_withdrawn p)" "set (p_added ?q) = set (p_added p) - {i}"
    "set (p_removed ?q) = (if i \<in> set (p_added p) then set (p_removed p) else insert i (set (p_removed p)))"
    by (auto simp: forget_pending_def Let_def)
  have old: "map_option told (B j) = map_option told ((O'(i := None)) j)"
    if "j \<in> dom O' - {i}" "j \<notin> touched ?q" for j
    using that D(7) [of j] unfolding touched_def q by auto
  have dom': "dom O' - {i} = dom B - set (p_removed ?q) \<union> set (p_added ?q)"
    using D(1,2,3) i unfolding q by (cases "i \<in> set (p_added p)"; simp only: if_True if_False; blast)
  have rem: "set (p_removed ?q) \<subseteq> dom B"
    using D(2,3) i unfolding q by (cases "i \<in> set (p_added p)"; simp only: if_True if_False; blast)
  have wd: "set (p_withdrawn ?q) \<subseteq> set (p_removed ?q)"
    using D(6) unfolding q by (cases "i \<in> set (p_added p)"; simp only: if_True if_False; blast)
  show ?thesis
  proof (rule diff_ofI, unfold dom)
    show "set (p_added ?q) \<inter> dom B = {}" unfolding q using D(1) by blast
    show "set (p_updated ?q) \<subseteq> dom O' - {i}" "set (p_refreshed ?q) \<subseteq> dom O' - {i}"
      unfolding q using D(4,5) by blast+
  qed (fact rem wd dom' old)+
qed

lemma diff_of_withdraw:
  assumes d: "diff_of B O' p" and i: "i \<in> set (p_removed p)"
  shows "diff_of B O' (p\<lparr>p_withdrawn := add_to i (p_withdrawn p)\<rparr>)"
proof -
  have "touched (p\<lparr>p_withdrawn := add_to i (p_withdrawn p)\<rparr>) = touched p" by (simp add: touched_def)
  with diff_ofD [OF d] i show ?thesis by (intro diff_ofI) simp_all
qed

section \<open>Tracks and contributors\<close>

definition time_of :: "jstring \<Rightarrow> int" where
  "time_of s = (case date_parse s of Some t \<Rightarrow> t | None \<Rightarrow> 0)"

definition tracks_ok :: "nat \<Rightarrow> objects \<Rightarrow> (jstring \<times> track_point list) list \<Rightarrow> bool" where
  "tracks_ok cap O' tr \<longleftrightarrow>
     (\<forall>i. length (set_of tr i) \<le> cap \<and> sorted (map (\<lambda>p. time_of (tp_observed p)) (set_of tr i)) \<and>
        (\<forall>p \<in> set (set_of tr i). \<exists>ob. O' i = Some ob \<and> time_of (tp_observed p) \<le> time_of (wo_observed ob)))"

definition credited :: "objects \<Rightarrow> (jstring \<times> jstring list) list \<Rightarrow> bool" where
  "credited O' co \<longleftrightarrow>
     (\<forall>i. (set_of co i \<noteq> [] \<longrightarrow> i \<in> dom O') \<and>
       (\<forall>ob. O' i = Some ob \<longrightarrow> set (ref_providers ob) \<subseteq> set (set_of co i)))"

lemma set_of_update: "set_of (AList.update k v m) k' = (if k' = k then v else set_of m k')"
  by (simp add: set_of_def map_simps)

lemma set_of_delete: "set_of (AList.delete k m) k' = (if k' = k then [] else set_of m k')"
  by (simp add: set_of_def map_simps)

lemma length_keep_last [simp]: "length (keep_last n xs) = min n (length xs)"
  by (simp add: keep_last_def)

lemma set_keep_last: "set (keep_last n xs) \<subseteq> set xs"
  by (auto simp: keep_last_def dest: in_set_dropD)

lemma sorted_keep_last: "sorted (map f xs) \<Longrightarrow> sorted (map f (keep_last n xs))"
  by (simp add: keep_last_def drop_map [symmetric] sorted_wrt_drop)

lemma tracks_ok_upd:
  assumes "tracks_ok cap O' tr" and "\<And>ob. O' i = Some ob \<Longrightarrow> time_of (wo_observed ob) \<le> time_of (wo_observed ob')"
  shows "tracks_ok cap (O'(i \<mapsto> ob')) tr"
  using assms unfolding tracks_ok_def by (auto; meson order_trans)

lemma tracks_ok_delete: "tracks_ok cap O' tr \<Longrightarrow> tracks_ok cap (O'(i := None)) (AList.delete i tr)"
  by (auto simp: tracks_ok_def set_of_delete)

text \<open>Pushing a point no older than the object's last one.\<close>

lemma tracks_ok_push:
  assumes t: "tracks_ok (max_track (w_opts w)) O' (w_tracks w)"
    and o': "O' i = Some ob'" and eq: "wo_observed ob' = ob_observed ob"
  shows "tracks_ok (max_track (w_opts w)) O' (w_tracks (pushTrack i ob w))"
proof (cases "ob_position ob")
  case None
  then show ?thesis using t by (simp add: pushTrack_def)
next
  case (Some p)
  let ?t = "set_of (w_tracks w) i"
  have old: "\<forall>p \<in> set ?t. time_of (tp_observed p) \<le> time_of (ob_observed ob)"
    using t o' eq unfolding tracks_ok_def by fastforce
  show ?thesis
  proof (cases "?t \<noteq> [] \<and> tp_observed (last ?t) = ob_observed ob")
    case True
    then have "set_of (w_tracks (pushTrack i ob w)) j = set_of (w_tracks w) j" for j
      using Some by (simp add: pushTrack_def Let_def set_of_update)
    with t show ?thesis by (simp add: tracks_ok_def)
  next
    case False
    let ?u = "?t @ [track_point_of ob p]"
    have tr: "set_of (w_tracks (pushTrack i ob w)) j =
        (if j = i then keep_last (max_track (w_opts w)) ?u else set_of (w_tracks w) j)" for j
      using Some False by (auto simp: pushTrack_def Let_def set_of_update)
    have "sorted (map (\<lambda>p. time_of (tp_observed p)) ?u)"
      using t old unfolding tracks_ok_def by (auto simp: sorted_append track_point_of_def)
    then have "sorted (map (\<lambda>p. time_of (tp_observed p)) (keep_last (max_track (w_opts w)) ?u))"
      by (rule sorted_keep_last)
    moreover have "\<forall>p \<in> set (keep_last (max_track (w_opts w)) ?u).
        \<exists>ob. O' i = Some ob \<and> time_of (tp_observed p) \<le> time_of (wo_observed ob)"
      using old o' eq set_keep_last [of "max_track (w_opts w)" ?u]
      by (auto simp: track_point_of_def)
    ultimately show ?thesis using t unfolding tracks_ok_def tr by simp
  qed
qed

lemma credited_upd:
  assumes "credited O' co" and "set (ref_providers ob) \<subseteq> insert p (set (set_of co i))"
  shows "credited (O'(i \<mapsto> ob)) (index_in i p co)"
  using assms unfolding credited_def
  by (auto simp: set_empty [symmetric] simp del: set_empty split: if_splits)

lemma credited_silent:
  assumes "credited O' co" and "O' i = Some ex" and "set (ref_providers ob) \<subseteq> set (ref_providers ex)"
  shows "credited (O'(i \<mapsto> ob)) co"
  using assms unfolding credited_def by auto

lemma credited_delete: "credited O' co \<Longrightarrow> credited (O'(i := None)) (AList.delete i co)"
  by (auto simp: credited_def set_of_delete)

section \<open>The invariant of the state\<close>

abbreviation objs :: "world \<Rightarrow> objects" where
  "objs w \<equiv> map_of (w_objects w)"

definition readable :: "world_object \<Rightarrow> bool" where
  "readable ob \<longleftrightarrow> date_parse (wo_observed ob) \<noteq> None"

text \<open>\<open>B\<close> is the state's objects at the last flush.\<close>

definition world_ok :: "objects \<Rightarrow> world \<Rightarrow> bool" where
  "world_ok B w \<longleftrightarrow> distinct (map fst (w_objects w)) \<and>
     agree (objs w) (w_by_type w) (w_by_provider w) (w_spatial w) \<and>
     diff_of B (objs w) (w_pending w) \<and> tracks_ok (max_track (w_opts w)) (objs w) (w_tracks w) \<and>
     credited (objs w) (w_contributors w) \<and> (\<forall>i ob. objs w i = Some ob \<longrightarrow> readable ob)"

lemma world_okD:
  assumes "world_ok B w"
  shows "distinct (map fst (w_objects w))" and "agree (objs w) (w_by_type w) (w_by_provider w) (w_spatial w)"
    and "diff_of B (objs w) (w_pending w)" and "tracks_ok (max_track (w_opts w)) (objs w) (w_tracks w)"
    and "credited (objs w) (w_contributors w)" and "objs w i = Some ob \<Longrightarrow> readable ob"
    and "objs w i = Some ob \<Longrightarrow> wo_id ob = i"
  using assms unfolding world_ok_def agree_def by blast+

lemma world_ok_frame [simp]:
  "world_ok B (w\<lparr>w_timer := a\<rparr>) = world_ok B w" "world_ok B (w\<lparr>w_recent := b\<rparr>) = world_ok B w"
  "world_ok B (w\<lparr>w_listeners := c\<rparr>) = world_ok B w" "world_ok B (w\<lparr>w_admitted := d\<rparr>) = world_ok B w"
  "world_ok B (w\<lparr>w_provider_freshness := e\<rparr>) = world_ok B w"
  by (simp_all add: world_ok_def)

lemma world_ok_schedule [simp]: "world_ok B (scheduleFlush w) = world_ok B w"
  by (simp add: scheduleFlush_def)

lemma pushTrack_fields [simp]:
  "w_objects (pushTrack i ob w) = w_objects w" "w_by_type (pushTrack i ob w) = w_by_type w"
  "w_by_provider (pushTrack i ob w) = w_by_provider w" "w_spatial (pushTrack i ob w) = w_spatial w"
  "w_contributors (pushTrack i ob w) = w_contributors w" "w_pending (pushTrack i ob w) = w_pending w"
  "w_opts (pushTrack i ob w) = w_opts w" "w_recent (pushTrack i ob w) = w_recent w"
  by (simp_all add: pushTrack_def Let_def split: option.splits)

lemma admit_fields [simp]:
  "w_objects (admit i ob w) = w_objects w" "w_by_type (admit i ob w) = w_by_type w"
  "w_by_provider (admit i ob w) = w_by_provider w" "w_spatial (admit i ob w) = w_spatial w"
  "w_contributors (admit i ob w) = index_in i (ob_provider ob) (w_contributors w)"
  "w_pending (admit i ob w) = w_pending w" "w_opts (admit i ob w) = w_opts w" "w_tracks (admit i ob w) = w_tracks w"
  by (simp_all add: admit_def pushRecent_def Let_def)

lemma world_ok_delete:
  assumes w: "world_ok B w"
  shows "world_ok B (delete_object i w)"
proof (cases "objs w i")
  case (Some ob)
  note D = world_okD [OF w]
  have "objs (delete_object i w) = (objs w)(i := None)"
    using Some by (simp add: delete_object_def map_simps del: map_of_eq_Some_iff)
  with Some D show ?thesis
    unfolding world_ok_def
    by (simp add: delete_object_def agree_delete diff_of_delete tracks_ok_delete credited_delete
        distinct_delete del: map_of_eq_Some_iff)
qed (use w in \<open>simp add: delete_object_def\<close>)

lemma world_ok_add:
  assumes w: "world_ok B w" and n: "objs w i = None" and new: "wo_id new = i" "wo_refs new = [ref_of ob]"
    "wo_observed new = ob_observed ob" "readable new"
  shows "world_ok B (add_new i ob new (admit i ob w))"
proof -
  note D = world_okD [OF w]
  let ?w = "insert_object new (admit i ob w)"
  have fields: "objs ?w = (objs w)(i \<mapsto> new)" "w_tracks ?w = w_tracks w" "w_opts ?w = w_opts w"
    using new by (simp_all add: insert_object_def map_simps)
  have a: "agree (objs ?w) (w_by_type ?w) (w_by_provider ?w) (w_spatial ?w)"
    using agree_insert [OF D(2), of new] n new by (simp add: insert_object_def map_simps cong: option.case_cong)
  have "tracks_ok (max_track (w_opts ?w)) (objs ?w) (w_tracks ?w)"
    unfolding fields by (rule tracks_ok_upd [OF D(4)]) (use n in simp)
  then have t: "tracks_ok (max_track (w_opts ?w)) (objs ?w) (w_tracks (pushTrack i ob ?w))"
    by (rule tracks_ok_push) (use new fields in simp_all)
  have c: "credited (objs ?w) (index_in i (ob_provider ob) (w_contributors w))"
    unfolding fields by (rule credited_upd [OF D(5)]) (simp add: set_ref_providers new ref_of_def)
  note d = diff_of_add [OF D(3) n, of new]
  show ?thesis
    using a t c d D(1,6) new fields
    unfolding world_ok_def add_new_def Let_def
    by (simp add: insert_object_def distinct_update del: map_of_eq_Some_iff split: if_splits)
qed

lemma world_ok_merge:
  assumes w: "world_ok B w" and ex: "objs w i = Some ex" and upd: "wo_id upd = i" "wo_type upd = wo_type ex"
    "set (ref_providers upd) \<subseteq> insert (ob_provider ob) (set (ref_providers ex))" "readable upd"
    and time: "time_of (wo_observed ex) \<le> time_of (wo_observed upd)" "newer \<Longrightarrow> wo_observed upd = ob_observed ob"
  shows "world_ok B (merge_into i ob ex upd newer (admit i ob w))"
proof -
  note D = world_okD [OF w]
  let ?w = "replace_object ex upd (admit i ob w)"
  have fields: "objs ?w = (objs w)(i \<mapsto> upd)" "w_tracks ?w = w_tracks w" "w_opts ?w = w_opts w"
    "w_contributors ?w = index_in i (ob_provider ob) (w_contributors w)" "w_by_type ?w = w_by_type w"
    "w_pending ?w = w_pending w"
    using upd by (simp_all add: replace_object_def map_simps Let_def)
  have keys: "distinct (map fst (w_objects ?w))"
    using upd D(1) by (simp add: replace_object_def Let_def distinct_update)
  have a: "agree (objs ?w) (w_by_type ?w) (w_by_provider ?w) (w_spatial ?w)"
    using agree_replace [OF D(2), of upd ex] ex upd
    unfolding fields by (simp add: replace_object_def Let_def map_simps cong: option.case_cong)
  have t: "tracks_ok (max_track (w_opts ?w)) (objs ?w) (w_tracks ?w)"
    unfolding fields by (rule tracks_ok_upd [OF D(4)]) (use ex time in simp)
  have t': "newer \<Longrightarrow> tracks_ok (max_track (w_opts ?w)) (objs ?w) (w_tracks (pushTrack i ob ?w))"
    by (rule tracks_ok_push [OF t]) (use fields time in simp_all)
  have "set (ref_providers ex) \<subseteq> set (set_of (w_contributors w) i)"
    using D(5) ex unfolding credited_def by blast
  then have c: "credited (objs ?w) (w_contributors ?w)"
    unfolding fields by (intro credited_upd [OF D(5)]) (use upd in auto)
  note d = diff_of_update [OF D(3) ex, of upd]
  show ?thesis
    using a t t' c d D(6) upd fields keys
    unfolding world_ok_def merge_into_def Let_def
    by (simp add: distinct_update del: map_of_eq_Some_iff split: if_splits)
qed

lemma world_ok_drop:
  assumes w: "world_ok B w" and ex: "objs w i = Some ex" and upd: "wo_id upd = i" "wo_type upd = wo_type ex"
    "set (ref_providers upd) \<subseteq> set (ref_providers ex)" "wo_observed upd = wo_observed ex" "told upd = told ex"
  shows "world_ok B (replace_object ex upd w)"
proof -
  note D = world_okD [OF w]
  let ?w = "replace_object ex upd w"
  have fields: "objs ?w = (objs w)(i \<mapsto> upd)" "w_tracks ?w = w_tracks w" "w_opts ?w = w_opts w"
    "w_contributors ?w = w_contributors w" "w_by_type ?w = w_by_type w"
    "w_pending ?w = w_pending w"
    using upd by (simp_all add: replace_object_def map_simps Let_def)
  have keys: "distinct (map fst (w_objects ?w))"
    using upd D(1) by (simp add: replace_object_def Let_def distinct_update)
  have a: "agree (objs ?w) (w_by_type ?w) (w_by_provider ?w) (w_spatial ?w)"
    using agree_replace [OF D(2), of upd ex] ex upd
    unfolding fields by (simp add: replace_object_def Let_def map_simps cong: option.case_cong)
  have t: "tracks_ok (max_track (w_opts ?w)) (objs ?w) (w_tracks ?w)"
    unfolding fields by (rule tracks_ok_upd [OF D(4)]) (use ex upd in simp)
  have c: "credited (objs ?w) (w_contributors ?w)"
    unfolding fields by (rule credited_silent [OF D(5) ex upd(3)])
  have d: "diff_of B (objs ?w) (w_pending ?w)"
    unfolding fields by (rule diff_of_silent [OF D(3) ex upd(5)])
  have r: "readable upd" using D(6) [OF ex] upd by (simp add: readable_def)
  show ?thesis
    using a t c d D(6) r keys unfolding world_ok_def fields
    by (simp del: map_of_eq_Some_iff)
qed

lemma time_of_Some: "date_parse s = Some t \<Longrightarrow> time_of s = t"
  by (simp add: time_of_def)

lemma ref_providers_merged:
  "set (ref_providers (merged_object cap ex ob res p now t e)) \<subseteq> insert (ob_provider ob) (set (ref_providers ex))"
  unfolding set_ref_providers merged_object_def Let_def
  by (auto dest!: in_set_takeD simp: ref_of_def)

lemma world_ok_apply:
  assumes w: "world_ok B w" and t: "date_parse (ob_observed ob) = Some t"
    and a: "apply_observation now p ob res t w r = Inr (w', r')"
  shows "world_ok B w'"
proof (cases "objs w (rs_object res)")
  case None
  have "world_ok B (add_new (rs_object res) ob (first_object ob res p now t) (admit (rs_object res) ob w))"
    by (rule world_ok_add [OF w None]) (simp_all add: first_object_def Let_def readable_def t)
  with a None show ?thesis by (simp add: apply_observation_def Let_def)
next
  case (Some ex)
  note D = world_okD [OF w]
  from D(6) [OF Some] obtain e where e: "date_parse (wo_observed ex) = Some e"
    by (auto simp: readable_def)
  let ?upd = "merged_object (max_refs (w_opts w)) ex ob res p now t e"
  have "world_ok B (merge_into (rs_object res) ob ex ?upd (t \<ge> e) (admit (rs_object res) ob w))"
  proof (rule world_ok_merge [OF w Some])
    show "set (ref_providers ?upd) \<subseteq> insert (ob_provider ob) (set (ref_providers ex))"
      by (rule ref_providers_merged)
    show "time_of (wo_observed ex) \<le> time_of (wo_observed ?upd)"
      using e t by (simp add: merged_object_def Let_def time_of_def)
  qed (use D(7) [OF Some] e t in \<open>simp_all add: merged_object_def Let_def readable_def\<close>)
  with a Some e w show ?thesis
    by (simp add: apply_observation_def Let_def split: if_splits)
qed

lemma world_ok_ingest_one:
  assumes "world_ok B (fst s)"
  shows "world_ok B (fst (snd (ingest_one now meta ob s)))"
proof -
  obtain w r seen where s: "s = (w, r, seen)" by (cases s)
  show ?thesis
    using assms unfolding s ingest_one_def
    by (auto simp: Let_def dest: world_ok_apply split: sum.splits option.splits)
qed

lemma world_ok_ingest_all:
  "world_ok B (fst s) \<Longrightarrow> world_ok B (fst (snd (ingest_all now meta obs s)))"
proof (induction obs arbitrary: s)
  case (Cons ob obs)
  have "world_ok B (fst (snd (ingest_one now meta ob s)))"
    by (rule world_ok_ingest_one [OF Cons.prems])
  with Cons.IH show ?case by (auto split: prod.splits option.splits)
qed simp

lemma told_drop [simp]: "told (ob\<lparr>wo_refs := rs, wo_updated := t\<rparr>) = told ob"
  by (simp add: told_def)

lemma drop_refs_subset: "rf_provider ` set (drop_provider_refs p ob) \<subseteq> rf_provider ` set (wo_refs ob)"
  by (auto simp: drop_provider_refs_def)

lemma world_ok_withdraw:
  assumes "world_ok B w" and "i \<in> set (p_removed (w_pending w))"
  shows "world_ok B (w\<lparr>w_pending := (w_pending w)\<lparr>p_withdrawn := add_to i (p_withdrawn (w_pending w))\<rparr>\<rparr>)"
  using assms diff_of_withdraw unfolding world_ok_def by simp

lemma world_ok_leave_out:
  assumes "world_ok B (fst s)"
  shows "world_ok B (fst (leave_out now meta seen i s))"
proof -
  obtain w r where s: "s = (w, r)" by (cases s)
  with assms have w: "world_ok B w" by simp
  show ?thesis
  proof (cases "i \<in> set seen \<or> objs w i = None")
    case False
    then obtain ob where ob: "i \<notin> set seen" "objs w i = Some ob" by auto
    show ?thesis
    proof (cases "drop_provider_refs (im_provider meta) ob = []")
      case True
      have "world_ok B (delete_object i w)" by (rule world_ok_delete [OF w])
      with world_ok_withdraw [OF this] show ?thesis
        using ob True by (simp add: s leave_out_def Let_def)
    next
      case False
      have "world_ok B (replace_object ob
          (ob\<lparr>wo_refs := drop_provider_refs (im_provider meta) ob, wo_updated := to_iso now\<rparr>) w)"
        using world_okD(7) [OF w ob(2)] drop_refs_subset
        by (intro world_ok_drop [OF w ob(2)]) (simp_all add: set_ref_providers)
      with False ob show ?thesis by (simp add: s leave_out_def)
    qed
  qed (use w in \<open>auto simp: s leave_out_def\<close>)
qed

lemma fold_invariant:
  assumes "\<And>x s. P s \<Longrightarrow> P (f x s)" and "P s"
  shows "P (fold f xs s)"
  using assms(2) by (induction xs arbitrary: s) (auto intro: assms(1))

lemma world_ok_ingest:
  assumes w: "world_ok B w"
  shows "world_ok B (fst (ingest now obs meta w))"
proof -
  define w0 where "w0 = (case im_freshness meta of None \<Rightarrow> w
      | Some f \<Rightarrow> w\<lparr>w_provider_freshness := AList.update (im_provider meta) f (w_provider_freshness w)\<rparr>)"
  have "world_ok B w0" using w by (simp add: w0_def split: option.splits)
  obtain e w1 r seen where all: "ingest_all now meta obs (w0, no_result, []) = (e, w1, r, seen)"
    by (metis prod_cases4)
  have w1: "world_ok B w1"
    using world_ok_ingest_all [of B "(w0, no_result, [])" now meta obs] \<open>world_ok B w0\<close> all by simp
  have "world_ok B (fst (fold (leave_out now meta seen) ids (w1, r)))" for ids
    by (rule fold_invariant [where P = "\<lambda>s. world_ok B (fst s)"]) (use world_ok_leave_out w1 in auto)
  then show ?thesis
    using w1 unfolding ingest_def Let_def w0_def [symmetric] all
    by (auto split: option.splits prod.splits) (metis fst_conv)+
qed

lemma world_ok_removeProvider:
  assumes w: "world_ok B w"
  shows "world_ok B (fst (removeProvider p w))"
proof -
  have step: "world_ok B (fst (take_provider p i s))" if "world_ok B (fst s)" for i s
  proof -
    obtain v n where s: "s = (v, n)" by (cases s)
    with that have v: "world_ok B v" by simp
    show ?thesis
    proof (cases "objs v i")
      case (Some ob)
      have "drop_provider_refs p ob \<noteq> [] \<Longrightarrow>
          world_ok B (replace_object ob (ob\<lparr>wo_refs := drop_provider_refs p ob\<rparr>) v)"
        using world_okD(7) [OF v Some] drop_refs_subset
        by (intro world_ok_drop [OF v Some]) (simp_all add: set_ref_providers)
      with Some v world_ok_delete show ?thesis by (simp add: s take_provider_def)
    qed (use v in \<open>simp add: s take_provider_def\<close>)
  qed
  have "world_ok B (fst (fold (take_provider p) ids (w, 0)))" for ids
    by (rule fold_invariant [where P = "\<lambda>s. world_ok B (fst s)"]) (use step w in auto)
  then show ?thesis by (auto simp: removeProvider_def split: prod.splits) (metis fst_conv)
qed

lemma world_ok_clear:
  assumes w: "world_ok B w"
  shows "world_ok B (clear w)"
proof -
  have "world_ok B (fold delete_object ids w)" for ids
    by (rule fold_invariant) (use world_ok_delete w in auto)
  then show ?thesis by (simp add: clear_def)
qed

section \<open>The sweep\<close>

definition same_core :: "world_object \<Rightarrow> world_object \<Rightarrow> bool" where
  "same_core a b \<longleftrightarrow> wo_id b = wo_id a \<and> wo_type b = wo_type a \<and> wo_refs b = wo_refs a \<and>
     wo_position b = wo_position a \<and> wo_observed b = wo_observed a"

definition swept :: "objects \<Rightarrow> objects \<Rightarrow> jstring set \<Rightarrow> bool" where
  "swept A M R \<longleftrightarrow> dom M = dom A \<and> R \<subseteq> dom A \<and>
     (\<forall>i a b. A i = Some a \<longrightarrow> M i = Some b \<longrightarrow> same_core a b \<and> (i \<notin> R \<longrightarrow> b = a))"

lemma swept_one:
  assumes s: "swept A (map_of m) (set r)" and ob: "A (wo_id ob) = Some ob"
    and one: "sweep_one now w ob (m, e, r) = (m', e', r')"
  shows "swept A (map_of m') (set r') \<and> (distinct (map fst m) \<longrightarrow> distinct (map fst m')) \<and>
    (e' = e \<and> set r' \<subseteq> insert (wo_id ob) (set r) \<or> e' = e @ [wo_id ob] \<and> r' = r)"
proof (cases "m' = m \<and> r' = r")
  case True
  with s one show ?thesis by (auto simp: sweep_one_def Let_def split: if_splits)
next
  case False
  then obtain f where m': "m' = AList.update (wo_id ob) (reclassified ob f) m" "r' = r @ [wo_id ob]" "e' = e"
    using one by (auto simp: sweep_one_def Let_def split: if_splits)
  have "same_core ob (reclassified ob f)" by (simp add: same_core_def reclassified_def)
  moreover have "wo_id ob \<in> dom A" using ob by blast
  ultimately have "swept A (map_of m') (set r')"
    using s ob unfolding swept_def m' by (auto simp: map_simps simp del: map_of_eq_Some_iff split: if_splits)
  with m' show ?thesis by (simp add: distinct_update)
qed

lemma apart_grows:
  "E1 \<subseteq> insert x E \<Longrightarrow> R1 \<subseteq> insert x R \<Longrightarrow> x \<notin> I \<Longrightarrow> (E \<union> R) \<inter> insert x I = {} \<Longrightarrow> (E1 \<union> R1) \<inter> I = {}"
  by blast

lemma swept_all:
  assumes "\<forall>ob \<in> set obs. A (wo_id ob) = Some ob" and "distinct (map wo_id obs)"
    and "swept A (map_of m) (set r)" and "distinct (map fst m)"
    and "set e \<inter> set r = {}" and "(set e \<union> set r) \<inter> wo_id ` set obs = {}"
    and "fold (sweep_one now w) obs (m, e, r) = (m', e', r')"
  shows "swept A (map_of m') (set r') \<and> distinct (map fst m') \<and> set e' \<inter> set r' = {}"
  using assms
proof (induction obs arbitrary: m e r)
  case (Cons ob obs)
  obtain m1 e1 r1 where one: "sweep_one now w ob (m, e, r) = (m1, e1, r1)" by (metis prod_cases3)
  from swept_one [OF Cons.prems(3) _ one] Cons.prems(1)
  have o: "swept A (map_of m1) (set r1)" "distinct (map fst m) \<longrightarrow> distinct (map fst m1)"
    "e1 = e \<and> set r1 \<subseteq> insert (wo_id ob) (set r) \<or> e1 = e @ [wo_id ob] \<and> r1 = r"
    by auto
  have new: "wo_id ob \<notin> wo_id ` set obs" using Cons.prems(2) by simp
  have old: "(set e \<union> set r) \<inter> insert (wo_id ob) (wo_id ` set obs) = {}" using Cons.prems(6) by simp
  have e1: "set e1 \<subseteq> insert (wo_id ob) (set e)" "set r1 \<subseteq> insert (wo_id ob) (set r)"
    using o(3) by auto
  show ?case
  proof (rule Cons.IH)
    show "(set e1 \<union> set r1) \<inter> wo_id ` set obs = {}" by (rule apart_grows [OF e1 new old])
    show "set e1 \<inter> set r1 = {}"
      using o(3)
    proof (elim disjE conjE)
      assume "e1 = e" "set r1 \<subseteq> insert (wo_id ob) (set r)"
      then show ?thesis using old Cons.prems(5) by blast
    next
      assume "e1 = e @ [wo_id ob]" "r1 = r"
      moreover have "wo_id ob \<notin> set r" using old by blast
      ultimately show ?thesis using Cons.prems(5) by simp
    qed
    show "fold (sweep_one now w) obs (m1, e1, r1) = (m', e', r')"
      using Cons.prems(7) one by simp
  qed (use Cons.prems o in auto)
qed simp

text \<open>Marking what a sweep refreshed, before or after what it expired is deleted.\<close>

definition mark :: "jstring list \<Rightarrow> world \<Rightarrow> world" where
  "mark r w = w\<lparr>w_pending := (w_pending w)\<lparr>p_refreshed := fold add_to r (p_refreshed (w_pending w))\<rparr>\<rparr>"

lemma set_fold_add_to [simp]: "set (fold add_to r xs) = set r \<union> set xs"
  by (induction r arbitrary: xs) auto

lemma removeAll_fold_add_to:
  "i \<notin> set r \<Longrightarrow> removeAll i (fold add_to r xs) = fold add_to r (removeAll i xs)"
  by (induction r arbitrary: xs) (auto simp: add_to_def)

lemma delete_mark: "i \<notin> set r \<Longrightarrow> delete_object i (mark r w) = mark r (delete_object i w)"
  by (simp add: delete_object_def mark_def forget_pending_def Let_def removeAll_fold_add_to
      split: option.splits)

lemma fold_delete_mark:
  "set e \<inter> set r = {} \<Longrightarrow> fold delete_object e (mark r w) = mark r (fold delete_object e w)"
  by (induction e arbitrary: w) (auto simp: delete_mark)

lemma world_ok_swept:
  assumes w: "world_ok B w" and s: "swept (objs w) (map_of m) (set r)" and d: "distinct (map fst m)"
  shows "world_ok B (mark r (w\<lparr>w_objects := m\<rparr>))"
proof -
  note D = world_okD [OF w]
  have dom: "dom (map_of m) = dom (objs w)" and r: "set r \<subseteq> dom (objs w)"
    and core: "\<And>i a b. objs w i = Some a \<Longrightarrow> map_of m i = Some b \<Longrightarrow> same_core a b"
    and eq: "\<And>i a b. objs w i = Some a \<Longrightarrow> map_of m i = Some b \<Longrightarrow> i \<notin> set r \<Longrightarrow> b = a"
    using s unfolding swept_def by blast+
  have from_m: "\<exists>a. objs w i = Some a \<and> same_core a b" if "map_of m i = Some b" for i b
    using that dom core by (metis domD domI)
  have forth: "\<exists>b. map_of m i = Some b \<and> same_core a b" if "objs w i = Some a" for i a
    using that dom core by (metis domD domI)
  have "places (map_of m) i = places (objs w) i" for i
  proof (cases "objs w i")
    case None
    then have "map_of m i = None" using dom by (metis domIff)
    with None show ?thesis by (simp add: places_def)
  next
    case (Some a)
    with forth obtain b where "map_of m i = Some b" "same_core a b" by blast
    with Some show ?thesis by (simp add: places_def object_item_def same_core_def del: map_of_eq_Some_iff)
  qed
  then have p: "places (map_of m) = places (objs w)" by blast
  have ex: "(\<exists>b. map_of m i = Some b \<and> P b) \<longleftrightarrow> (\<exists>a. objs w i = Some a \<and> P a)"
    if "\<And>a b. same_core a b \<Longrightarrow> P b \<longleftrightarrow> P a" for P i
    using that from_m forth by blast
  have "wo_id b = i" if "map_of m i = Some b" for i b
    using from_m [OF that] D(7) unfolding same_core_def by metis
  moreover have "(\<exists>b. map_of m i = Some b \<and> wo_type b = t) \<longleftrightarrow> (\<exists>a. objs w i = Some a \<and> wo_type a = t)" for i t
    by (rule ex) (simp add: same_core_def)
  moreover have "(\<exists>b. map_of m i = Some b \<and> q \<in> set (ref_providers b)) \<longleftrightarrow>
      (\<exists>a. objs w i = Some a \<and> q \<in> set (ref_providers a))" for i q
    by (rule ex) (simp add: same_core_def ref_providers_def)
  ultimately have "agree (map_of m) (w_by_type w) (w_by_provider w) (w_spatial w)"
    using D(2) unfolding agree_def p by (simp del: map_of_eq_Some_iff)
  moreover have "tracks_ok (max_track (w_opts w)) (map_of m) (w_tracks w)"
    using D(4) forth unfolding tracks_ok_def same_core_def by metis
  moreover have "credited (map_of m) (w_contributors w)"
    using D(5) from_m unfolding credited_def dom same_core_def ref_providers_def by metis
  moreover have "diff_of B (map_of m) ((w_pending w)\<lparr>p_refreshed := fold add_to r (p_refreshed (w_pending w))\<rparr>)"
  proof -
    define q where "q = (w_pending w)\<lparr>p_refreshed := fold add_to r (p_refreshed (w_pending w))\<rparr>"
    have q: "p_added q = p_added (w_pending w)" "p_updated q = p_updated (w_pending w)"
      "p_removed q = p_removed (w_pending w)" "p_withdrawn q = p_withdrawn (w_pending w)"
      "set (p_refreshed q) = set r \<union> set (p_refreshed (w_pending w))"
      "touched q = set r \<union> touched (w_pending w)"
      by (auto simp: q_def touched_def)
    note P = diff_ofD [OF D(3)]
    have "diff_of B (map_of m) q"
    proof (rule diff_ofI, unfold dom q)
      show "set r \<union> set (p_refreshed (w_pending w)) \<subseteq> dom (objs w)" using r P(5) by blast
      fix i assume i: "i \<in> dom (objs w)" "i \<notin> set r \<union> touched (w_pending w)"
      then obtain a where a: "objs w i = Some a" by blast
      then obtain b where "map_of m i = Some b" using forth by blast
      with eq [OF a this] i a have "map_of m i = objs w i" by simp
      then show "map_option told (B i) = map_option told (map_of m i)"
        using P(7) [OF i(1)] i(2) by simp
    qed (fact P)+
    then show ?thesis by (simp only: q_def)
  qed
  moreover have "\<forall>i b. map_of m i = Some b \<longrightarrow> readable b"
    using from_m D(6) unfolding readable_def same_core_def by metis
  ultimately show ?thesis using d unfolding world_ok_def mark_def by simp
qed

lemma world_ok_sweep:
  assumes w: "world_ok B w"
  shows "world_ok B (fst (sweep now w))"
proof -
  note D = world_okD [OF w]
  obtain m e r where f: "fold (sweep_one now w) (map snd (w_objects w)) (w_objects w, [], []) = (m, e, r)"
    by (metis prod_cases3)
  have ids: "wo_id ob = i" "objs w i = Some ob" if "(i, ob) \<in> set (w_objects w)" for i ob
    using that D(1) D(7) by auto
  have "map wo_id (map snd (w_objects w)) = map fst (w_objects w)"
    using ids by (auto simp: comp_def)
  then have dist: "distinct (map wo_id (map snd (w_objects w)))" using D(1) by (simp only:)
  have "swept (objs w) (objs w) (set [])" using D(7) by (auto simp: swept_def same_core_def)
  moreover have "\<forall>ob \<in> set (map snd (w_objects w)). objs w (wo_id ob) = Some ob"
    using ids by (auto simp del: map_of_eq_Some_iff)
  ultimately have s: "swept (objs w) (map_of m) (set r)" "distinct (map fst m)" "set e \<inter> set r = {}"
    using swept_all [OF _ dist _ D(1) _ _ f] by auto
  have "world_ok B (fold delete_object e (mark r (w\<lparr>w_objects := m\<rparr>)))"
    by (rule fold_invariant) (use world_ok_delete world_ok_swept [OF w s(1,2)] in auto)
  then have "world_ok B (mark r (fold delete_object e (w\<lparr>w_objects := m\<rparr>)))"
    by (simp add: fold_delete_mark [OF s(3)])
  then have ok: "world_ok B (mark r (fold delete_object e (w\<lparr>w_objects := m\<rparr>)))" .
  have "fst (sweep now w) = (if e \<noteq> [] \<or> r \<noteq> []
      then scheduleFlush (mark r (fold delete_object e (w\<lparr>w_objects := m\<rparr>)))
      else mark r (fold delete_object e (w\<lparr>w_objects := m\<rparr>)))"
    unfolding sweep_def f by (simp add: Let_def mark_def)
  then show ?thesis using ok by (metis world_ok_schedule)
qed

section \<open>Runs\<close>

datatype world_call =
    Ingest int "observation list" ingest_meta
  | Sweep int
  | Remove_Provider jstring
  | Clear
  | Flush int
  | Subscribe nat
  | Unsubscribe nat
  | Dispose

fun world_step :: "world_call \<Rightarrow> world \<Rightarrow> world \<times> state_change option" where
  "world_step (Ingest now obs meta) w = (fst (ingest now obs meta w), None)"
| "world_step (Sweep now) w = (fst (sweep now w), None)"
| "world_step (Remove_Provider p) w = (fst (removeProvider p w), None)"
| "world_step Clear w = (clear w, None)"
| "world_step (Flush now) w = flush now w"
| "world_step (Subscribe l) w = (onChange l w, None)"
| "world_step (Unsubscribe l) w = (unsubscribe l w, None)"
| "world_step Dispose w = (dispose w, None)"

text \<open>A listener's mirror of the ids, kept by the changes alone.\<close>

definition apply_change :: "state_change \<Rightarrow> jstring set \<Rightarrow> jstring set" where
  "apply_change c K = (K - set (sc_removed c)) \<union> set (sc_added c)"

fun mirror_run :: "world_call list \<Rightarrow> world \<times> jstring set \<Rightarrow> world \<times> jstring set" where
  "mirror_run [] s = s"
| "mirror_run (c # cs) s =
     (case world_step c (fst s) of
        (w, None) \<Rightarrow> mirror_run cs (w, snd s)
      | (w, Some ch) \<Rightarrow> mirror_run cs (w, apply_change ch (snd s)))"

abbreviation ids :: "world \<Rightarrow> jstring set" where
  "ids w \<equiv> fst ` set (w_objects w)"

lemma ids_dom: "dom (objs w) = ids w"
  by (rule dom_map_of_conv_image_fst)

definition is_flush :: "world_call \<Rightarrow> bool" where
  "is_flush c = (case c of Flush now \<Rightarrow> True | _ \<Rightarrow> False)"

lemma flush_simps:
  "w_objects (fst (flush now w)) = w_objects w"
  by (simp add: flush_def Let_def)

lemma without_disjoint: "set xs \<inter> set ys = {} \<Longrightarrow> without xs ys = ys"
  by (auto simp: without_def filter_id_conv)

lemma world_ok_flush:
  assumes w: "world_ok B w" and f: "flush now w = (w', ch)"
  shows "case ch of
      None \<Rightarrow> w' = w\<lparr>w_timer := False\<rparr> \<and> dom (objs w) = dom B \<and>
        (\<forall>i \<in> dom B. map_option told (B i) = map_option told (objs w i))
    | Some c \<Rightarrow> world_ok (objs w) w' \<and> objs w' = objs w \<and> apply_change c (dom B) = dom (objs w) \<and>
        set (sc_removed c) = dom B - dom (objs w) \<and> set (sc_added c) = dom (objs w) - dom B \<and>
        (\<forall>i \<in> dom (objs w). i \<notin> set (sc_added c) \<union> set (sc_updated c) \<union> set (sc_refreshed c) \<longrightarrow>
           map_option told (B i) = map_option told (objs w i))"
proof (cases "hasPendingChanges w")
  case False
  note D = diff_ofD [OF world_okD(3) [OF w]]
  from False have e: "p_added (w_pending w) = []" "p_updated (w_pending w) = []" "p_removed (w_pending w) = []"
    "p_refreshed (w_pending w) = []"
    by (simp_all add: hasPendingChanges_def)
  then have "touched (w_pending w) = {}" by (simp add: touched_def)
  moreover have "dom (objs w) = dom B" using D(3) e by simp
  ultimately show ?thesis using f False D(7) by (auto simp: flush_def Let_def)
next
  case True
  let ?p = "w_pending w"
  note W = world_okD [OF w]
  note D = diff_ofD [OF W(3)]
  define c where "c = change_of now (length (w_objects w)) ?p"
  have ch: "ch = Some c" and w': "w' = w\<lparr>w_timer := False, w_pending := no_changes\<rparr>"
    using f True by (simp_all add: flush_def Let_def c_def)
  have ar: "set (p_removed ?p) \<inter> set (p_added ?p) = {}" using D(1,2) by blast
  have ur: "set (p_removed ?p) \<inter> set (p_updated ?p) = {}" "set (p_removed ?p) \<inter> set (p_refreshed ?p) = {}"
  proof -
    have "set (p_removed ?p) \<inter> dom (objs w) = {}" unfolding D(3) using ar by blast
    then show "set (p_removed ?p) \<inter> set (p_updated ?p) = {}" "set (p_removed ?p) \<inter> set (p_refreshed ?p) = {}"
      using D(4,5) by blast+
  qed
  have added: "sc_added c = p_added ?p" and removed: "sc_removed c = p_removed ?p"
    using ar by (simp_all add: c_def change_of_def Let_def without_disjoint)
  have touch: "set (sc_added c) \<union> set (sc_updated c) \<union> set (sc_refreshed c) = touched ?p"
    using ar ur by (auto simp: c_def change_of_def Let_def without_disjoint touched_def) (auto simp: without_def)
  have ok: "world_ok (objs w) w'"
    using w unfolding world_ok_def w' by simp
  have "apply_change c (dom B) = dom (objs w)" unfolding apply_change_def added removed using D(3) by blast
  moreover have "set (sc_removed c) = dom B - dom (objs w)" "set (sc_added c) = dom (objs w) - dom B"
    unfolding added removed using D(1-3) by blast+
  moreover have "map_option told (B i) = map_option told (objs w i)"
    if "i \<in> dom (objs w)" "i \<notin> set (sc_added c) \<union> set (sc_updated c) \<union> set (sc_refreshed c)" for i
    using that D(7) unfolding touch by blast
  moreover have "objs w' = objs w" by (simp add: w')
  ultimately show ?thesis using ok unfolding ch option.case by blast
qed

lemma world_ok_step:
  "world_ok B w \<Longrightarrow> \<not> is_flush c \<Longrightarrow> world_ok B (fst (world_step c w)) \<and> snd (world_step c w) = None"
  by (cases c) (simp_all add: is_flush_def world_ok_ingest world_ok_sweep world_ok_removeProvider
      world_ok_clear onChange_def unsubscribe_def dispose_def)

lemma mirror_step:
  assumes "world_ok B w" and "dom B = K"
  shows "\<exists>B'. world_ok B' (fst (mirror_run [c] (w, K))) \<and> dom B' = snd (mirror_run [c] (w, K))"
proof (cases "is_flush c")
  case False
  with world_ok_step [OF assms(1) False] assms(2) show ?thesis
    by (cases "world_step c w") auto
next
  case True
  then obtain now where c: "c = Flush now" by (cases c) (simp_all add: is_flush_def)
  obtain w' ch where f: "flush now w = (w', ch)" by fastforce
  from world_ok_flush [OF assms(1) f] assms c f show ?thesis
    by (cases ch) auto
qed

lemma mirror_run_append: "mirror_run (xs @ ys) s = mirror_run ys (mirror_run xs s)"
  by (induction xs arbitrary: s) (auto split: prod.splits option.splits)

lemma mirror_run_ok:
  "world_ok B w \<Longrightarrow> dom B = K \<Longrightarrow>
   \<exists>B'. world_ok B' (fst (mirror_run cs (w, K))) \<and> dom B' = snd (mirror_run cs (w, K))"
proof (induction cs rule: rev_induct)
  case (snoc c cs)
  obtain w1 K1 where "mirror_run cs (w, K) = (w1, K1)" by fastforce
  with snoc obtain B1 where "world_ok B1 w1" "dom B1 = K1" by fastforce
  from mirror_step [OF this, of c] show ?case
    using \<open>mirror_run cs (w, K) = (w1, K1)\<close> by (simp add: mirror_run_append)
qed auto

lemma new_world_ok:
  assumes "new_grid sz = Inr g"
  shows "world_ok Map.empty (new_world rs ps opts g)"
proof -
  have "get_item g = Map.empty"
    using assms by (auto simp: new_grid_def Let_def get_item_def split: if_splits)
  then show ?thesis
    using new_grid_ok [OF assms]
    by (simp add: world_ok_def new_world_def agree_def set_of_def tracks_ok_def credited_def
        hot.in_step_def places_def fun_eq_iff)
qed

definition start_world :: "resolver \<Rightarrow> policies \<Rightarrow> world_opts \<Rightarrow> world" where
  "start_world rs ps opts = new_world rs ps opts \<lparr>cell_size = 1, cells = [], items = []\<rparr>"

definition after :: "world \<Rightarrow> world_call list \<Rightarrow> world" where
  "after w cs = fst (mirror_run cs (w, {}))"

lemma start_world_ok: "world_ok Map.empty (start_world rs ps opts)"
proof -
  have "js_rem 180 1 = 0" by (simp add: js_rem_def)
  then have "new_grid None = Inr \<lparr>cell_size = 1, cells = [], items = []\<rparr>" by (simp add: new_grid_def)
  then show ?thesis unfolding start_world_def by (rule new_world_ok)
qed

lemma mirror_irrelevant: "fst (mirror_run cs (w, K)) = fst (mirror_run cs (w, K'))"
proof (induction cs arbitrary: w K K')
  case (Cons c cs)
  obtain w' ch where e: "world_step c w = (w', ch)" by fastforce
  show ?case
  proof (cases ch)
    case None
    with e Cons.IH [of w' K K'] show ?thesis by simp
  next
    case (Some d)
    with e Cons.IH [of w' "apply_change d K" "apply_change d K'"] show ?thesis by simp
  qed
qed simp

lemma in_map_filter: "y \<in> set (List.map_filter f xs) \<longleftrightarrow> (\<exists>x \<in> set xs. f x = Some y)"
  by (induction xs) (auto simp: map_filter_simps split: option.splits)

lemma mirror_run_fst: "fst (mirror_run cs (w, K)) = after w cs"
  unfolding after_def by (rule mirror_irrelevant)

lemma after_ok: "\<exists>B. world_ok B (after (start_world rs ps opts) cs)"
  using mirror_run_ok [OF start_world_ok, of "{}" cs rs ps opts] by (auto simp: mirror_run_fst)

lemma found_members:
  assumes "world_ok B w"
  shows "ob \<in> set (List.map_filter (objs w) xs) \<longleftrightarrow> objs w (wo_id ob) = Some ob \<and> wo_id ob \<in> set xs"
  unfolding in_map_filter using world_okD(7) [OF assms] by metis

lemma ofType_members:
  assumes w: "world_ok B w"
  shows "ob \<in> set (ofType w t) \<longleftrightarrow> objs w (wo_id ob) = Some ob \<and> wo_type ob = t"
proof -
  have "wo_id ob \<in> set (set_of (w_by_type w) t) \<longleftrightarrow> (\<exists>o'. objs w (wo_id ob) = Some o' \<and> wo_type o' = t)"
    using world_okD(2) [OF w] unfolding agree_def by blast
  then show ?thesis unfolding ofType_def found_members [OF w] by (metis option.inject)
qed

lemma spatial_places:
  assumes w: "world_ok B w"
  shows "get_item (w_spatial w) i = Option.bind (objs w i) object_item" "grid_ok (w_spatial w)"
  using world_okD(2) [OF w] by (simp_all add: agree_def hot.in_step_def places_def fun_eq_iff)

text \<open>
  C6: Whatever the calls so far, the reads by type and by provider give exactly the objects of
  the type and the objects the provider currently supports, and the spatial index holds exactly
  the places of the objects that have one.
\<close>
theorem reads_are_exact:
  "(ob \<in> set (ofType (after (start_world rs ps opts) cs) t) \<longleftrightarrow>
      objs (after (start_world rs ps opts) cs) (wo_id ob) = Some ob \<and> wo_type ob = t) \<and>
   (ob \<in> set (ofProvider (after (start_world rs ps opts) cs) p) \<longleftrightarrow>
      objs (after (start_world rs ps opts) cs) (wo_id ob) = Some ob \<and> p \<in> set (ref_providers ob)) \<and>
   get_item (w_spatial (after (start_world rs ps opts) cs)) i =
      Option.bind (objs (after (start_world rs ps opts) cs) i) object_item"
proof -
  define w where "w = after (start_world rs ps opts) cs"
  obtain B where w: "world_ok B w" using after_ok w_def by blast
  note W = world_okD [OF w]
  have "ob \<in> set (ofType w t) \<longleftrightarrow> objs w (wo_id ob) = Some ob \<and> wo_type ob = t" by (rule ofType_members [OF w])
  moreover have "ob \<in> set (ofProvider w p) \<longleftrightarrow> objs w (wo_id ob) = Some ob \<and> p \<in> set (ref_providers ob)"
  proof -
    have "wo_id ob \<in> set (set_of (w_by_provider w) p) \<longleftrightarrow>
        (\<exists>o'. objs w (wo_id ob) = Some o' \<and> p \<in> set (ref_providers o'))"
      using W(2) unfolding agree_def by blast
    then show ?thesis unfolding ofProvider_def found_members [OF w] by (metis option.inject)
  qed
  moreover note spatial_places(1) [OF w]
  ultimately show ?thesis unfolding w_def by blast
qed

text \<open>
  C15: A listener that applies nothing but the changes it is told keeps the set of objects
  exactly: after any calls and a flush its mirror is the set of ids in the state.
\<close>
theorem changes_mirror_the_world:
  "snd (mirror_run (cs @ [Flush now]) (start_world rs ps opts, {})) =
     ids (after (start_world rs ps opts) (cs @ [Flush now]))"
proof -
  obtain w K where r: "mirror_run cs (start_world rs ps opts, {}) = (w, K)" by fastforce
  with mirror_run_ok [OF start_world_ok, of "{}" cs rs ps opts] obtain B
    where B: "world_ok B w" "dom B = K" by auto
  obtain w' ch where f: "flush now w = (w', ch)" by fastforce
  have "w_objects w' = w_objects w" using flush_simps [of now w] f by simp
  with world_ok_flush [OF B(1) f] B(2) r f show ?thesis
    by (cases ch) (auto simp: mirror_run_append after_def ids_dom [symmetric])
qed

lemma told_trans:
  "map_option told a = map_option told b \<Longrightarrow> map_option told b = map_option told c \<Longrightarrow>
   map_option told a = map_option told c"
  by simp

lemma after_quiet:
  "world_ok B w \<Longrightarrow> \<forall>c \<in> set cs. \<not> is_flush c \<Longrightarrow> world_ok B (after w cs)"
proof (induction cs arbitrary: w)
  case (Cons c cs)
  from world_ok_step [OF Cons.prems(1), of c] Cons.prems(2)
  have "world_ok B (fst (world_step c w))" "snd (world_step c w) = None" by auto
  with Cons.IH [of "fst (world_step c w)"] Cons.prems(2) show ?case
    by (cases "world_step c w") (simp add: after_def)
qed (simp add: after_def)

text \<open>
  C1: What a flush reports is exactly the difference since the flush before it: the added ids
  are those that came, the removed ids those that went, and an object of both that it names
  nowhere has changed in nothing but its supporting observations and its time of change.
\<close>
theorem flush_is_the_difference:
  assumes w1: "w1 = after (start_world rs ps opts) (cs1 @ [Flush t1])" and w2: "w2 = after w1 cs2"
    and quiet: "\<forall>c \<in> set cs2. \<not> is_flush c" and f: "snd (flush t2 w2) = Some ch"
  shows "set (sc_added ch) = ids w2 - ids w1 \<and> set (sc_removed ch) = ids w1 - ids w2 \<and>
    (\<forall>i \<in> ids w1 \<inter> ids w2. i \<notin> set (sc_updated ch) \<union> set (sc_refreshed ch) \<longrightarrow>
       map_option told (objs w1 i) = map_option told (objs w2 i))"
proof -
  obtain w K where r: "mirror_run cs1 (start_world rs ps opts, {}) = (w, K)" by fastforce
  with mirror_run_ok [OF start_world_ok, of "{}" cs1 rs ps opts] obtain B where B: "world_ok B w" by auto
  obtain w' c1 where f1: "flush t1 w = (w', c1)" by fastforce
  have w1': "w1 = w'"
    using r f1 unfolding w1 after_def by (cases c1) (simp_all add: mirror_run_append)
  have "\<exists>B1. world_ok B1 w1 \<and> dom B1 = dom (objs w1) \<and>
      (\<forall>i \<in> dom (objs w1). map_option told (B1 i) = map_option told (objs w1 i))"
  proof (cases c1)
    case None
    with world_ok_flush [OF B f1] B show ?thesis by (intro exI [of _ B]) (auto simp: w1')
  next
    case (Some c)
    with world_ok_flush [OF B f1] show ?thesis
      by (intro exI [of _ "objs w1"]) (simp add: w1')
  qed
  then obtain B1 where B1: "world_ok B1 w1" "dom B1 = dom (objs w1)"
    "\<And>i. i \<in> dom (objs w1) \<Longrightarrow> map_option told (B1 i) = map_option told (objs w1 i)" by blast
  obtain w3 where f2: "flush t2 w2 = (w3, Some ch)" using f by (cases "flush t2 w2") simp
  note F = world_ok_flush [OF after_quiet [OF B1(1) quiet, folded w2] f2, unfolded option.case]
  have a: "set (sc_added ch) = ids w2 - ids w1" "set (sc_removed ch) = ids w1 - ids w2"
    using F B1(2) unfolding ids_dom by auto
  moreover have "map_option told (objs w1 i) = map_option told (objs w2 i)"
    if i: "i \<in> ids w1 \<inter> ids w2" "i \<notin> set (sc_updated ch) \<union> set (sc_refreshed ch)" for i
  proof -
    have "i \<in> dom (objs w1)" "i \<in> dom (objs w2)" using i(1) unfolding ids_dom by blast+
    moreover have "i \<notin> set (sc_added ch)" using i(1) a(1) by blast
    ultimately have "map_option told (B1 i) = map_option told (objs w2 i)" using F i(2) by blast
    with B1(3) [OF \<open>i \<in> dom (objs w1)\<close>] show ?thesis by simp
  qed
  ultimately show ?thesis by blast
qed

definition sample_reading :: observation where
  "sample_reading = sample_observation\<lparr>ob_observed := js ''1970-01-01T00:00:00Z''\<rparr>"

definition sample_meta :: ingest_meta where
  "sample_meta = \<lparr>im_snapshot = False, im_withdraws = False, im_provider = js ''buoys'', im_freshness = None\<rparr>"

definition sample_world :: world where
  "sample_world = start_world authoritativeRules []
     \<lparr>max_refs = 8, max_track = 240, max_recent = 5000, flush_delay = 100\<rparr>"

lemma sample_time: "date_parse (js ''1970-01-01T00:00:00Z'') = Some 0"
  by (simp add: date_parse_def iso_fields_def slice_def iso_fraction_def is_digit_def dec_value_def
      make_day_def days_before_def epoch_day_def)

lemma sample_resolves: "\<exists>r. resolve authoritativeRules sample_reading = Inr r"
proof -
  have "safe_part (js ''sensor'')" "safe_part (js ''buoys'')"
    by (simp_all add: safe_part_def is_lower_def is_digit_def)
  moreover have "ob_type sample_reading = js ''sensor''" "ob_provider sample_reading = js ''buoys''"
    by (simp_all add: sample_reading_def sample_observation_def)
  ultimately obtain i v where
    "(case makeObjectId (ob_type sample_reading) (ob_provider sample_reading)
        (case ob_external sample_reading of Some e \<Rightarrow> e | None \<Rightarrow> ob_id sample_reading) of Inr i \<Rightarrow> Inr i
      | Inl _ \<Rightarrow> makeObjectId (ob_type sample_reading) (ob_provider sample_reading)
          (encodeValue (case ob_external sample_reading of Some e \<Rightarrow> e | None \<Rightarrow> ob_id sample_reading))) = Inr i"
    by (metis make_fallback)
  moreover have "first_match (case map_of authoritativeRules (ob_type sample_reading) of Some l \<Rightarrow> l | None \<Rightarrow> [])
      sample_reading = Inr None"
    unfolding \<open>ob_type sample_reading = js ''sensor''\<close> by (rule no_rules)
  ultimately show ?thesis unfolding resolve_def by (simp add: Let_def)
qed

lemma sample_ingested:
  obtains r :: resolution and ob w where "wo_id ob = rs_object r" "w = add_new (rs_object r) sample_reading ob (admit (rs_object r) sample_reading sample_world)"
    "w_pending (after sample_world [Ingest 0 [sample_reading] sample_meta]) = w_pending w"
    "w_objects (after sample_world [Ingest 0 [sample_reading] sample_meta]) = w_objects w"
proof -
  obtain r where r: "resolve authoritativeRules sample_reading = Inr r" using sample_resolves by blast
  have fields: "ob_provider sample_reading = js ''buoys''" "ob_observed sample_reading = js ''1970-01-01T00:00:00Z''"
    by (simp_all add: sample_reading_def sample_observation_def)
  have w: "w_identity sample_world = authoritativeRules" "w_objects sample_world = []"
    by (simp_all add: sample_world_def start_world_def new_world_def)
  have "\<not> isExpired (Some 0) 0 p" if "p = policyFor sample_world (ob_type sample_reading) None" for p
    using that by (simp add: policyFor_def freshnessPolicyFor_def DEFAULT_FRESHNESS_POLICIES_def policy_def
        sample_reading_def sample_observation_def sample_world_def start_world_def new_world_def isExpired_def)
  then have one: "ingest_one 0 sample_meta sample_reading (sample_world, no_result, []) =
      (None, add_new (rs_object r) sample_reading (first_object sample_reading r
          (policyFor sample_world (ob_type sample_reading) None) 0 0) (admit (rs_object r) sample_reading sample_world),
        (accept no_result)\<lparr>ir_added := ir_added no_result + 1\<rparr>, [rs_object r])"
    using r sample_time
    by (simp add: ingest_one_def sample_meta_def fields w apply_observation_def Let_def add_to_def del: js_simps)
  have "im_freshness sample_meta = None" "im_snapshot sample_meta = False" by (simp_all add: sample_meta_def)
  with one show thesis
    by (intro that [OF _ refl, of _ r, of "first_object sample_reading r (policyFor sample_world (ob_type sample_reading) None) 0 0"])
      (simp_all add: after_def ingest_def Let_def scheduleFlush_def first_object_def)
qed

lemma sample_added:
  obtains r :: resolution where "w_pending (after sample_world [Ingest 0 [sample_reading] sample_meta]) =
    no_changes\<lparr>p_added := [rs_object r]\<rparr>"
    "map fst (w_objects (after sample_world [Ingest 0 [sample_reading] sample_meta])) = [rs_object r]"
proof -
  obtain r :: resolution and ob w where i: "wo_id ob = rs_object r"
    and w: "w = add_new (rs_object r) sample_reading ob (admit (rs_object r) sample_reading sample_world)"
    and eq: "w_pending (after sample_world [Ingest 0 [sample_reading] sample_meta]) = w_pending w"
      "w_objects (after sample_world [Ingest 0 [sample_reading] sample_meta]) = w_objects w"
    by (rule sample_ingested)
  have "w_pending w = no_changes\<lparr>p_added := [rs_object r]\<rparr>" "map fst (w_objects w) = [rs_object r]"
    by (simp_all add: w i add_new_def Let_def insert_object_def sample_world_def start_world_def new_world_def
        no_changes_def add_to_def)
  with eq show thesis by (intro that [of r]) simp_all
qed

lemma flush_reports: "p_added (w_pending w) = i # is \<Longrightarrow> \<exists>ch. snd (flush t w) = Some ch"
  by (simp add: flush_def Let_def hasPendingChanges_def)

theorem flush_is_the_difference_witness:
  "\<exists>ch. snd (flush 0 (after (after sample_world [Flush 0]) [Ingest 0 [sample_reading] sample_meta])) = Some ch \<and>
     set (sc_removed ch) = {}"
proof -
  have s: "after sample_world [Flush 0] = sample_world"
    by (simp add: after_def flush_def Let_def sample_world_def start_world_def new_world_def
        hasPendingChanges_def no_changes_def)
  let ?w = "after (after sample_world [Flush 0]) [Ingest 0 [sample_reading] sample_meta]"
  obtain r :: resolution where "w_pending ?w = no_changes\<lparr>p_added := [rs_object r]\<rparr>"
    using sample_added unfolding s by blast
  moreover have "p_added (no_changes\<lparr>p_added := xs\<rparr>) = xs" for xs by simp
  ultimately have "p_added (w_pending ?w) = [rs_object r]" by (simp only:)
  then obtain ch where f: "snd (flush 0 ?w) = Some ch" using flush_reports by blast
  have "ids (after sample_world [Flush 0]) = {}"
    unfolding s by (simp add: sample_world_def start_world_def new_world_def)
  moreover have "after sample_world [Flush 0] = after (start_world authoritativeRules []
      \<lparr>max_refs = 8, max_track = 240, max_recent = 5000, flush_delay = 100\<rparr>) ([] @ [Flush 0])"
    by (simp add: sample_world_def)
  note flush_is_the_difference [OF this refl _ f]
  ultimately have "set (sc_removed ch) = {}" by (simp add: is_flush_def)
  with f show ?thesis by blast
qed

section \<open>Tracks, credits and bounds\<close>

lemma opts_delete [simp]: "w_opts (delete_object i w) = w_opts w"
  by (simp add: delete_object_def split: option.splits)

lemma opts_replace [simp]: "w_opts (replace_object a b w) = w_opts w"
  by (simp add: replace_object_def Let_def)

lemma opts_schedule [simp]: "w_opts (scheduleFlush w) = w_opts w"
  by (simp add: scheduleFlush_def)

lemma opts_apply:
  "apply_observation now p ob res t w r = Inr (w', r') \<Longrightarrow> w_opts w' = w_opts w"
  by (auto simp: apply_observation_def Let_def add_new_def merge_into_def insert_object_def
      split: option.splits if_splits)

lemma opts_ingest_all: "w_opts (fst (snd (ingest_all now meta obs s))) = w_opts (fst s)"
proof (induction obs arbitrary: s)
  case (Cons ob obs)
  have "w_opts (fst (snd (ingest_one now meta ob s))) = w_opts (fst s)"
    by (cases s) (auto simp: ingest_one_def Let_def dest: opts_apply split: sum.splits option.splits)
  with Cons.IH show ?case by (auto split: prod.splits option.splits)
qed simp

lemma opts_fold:
  assumes "\<And>x s. w_opts (fst (f x s)) = w_opts (fst s)"
  shows "w_opts (fst (fold f xs s)) = w_opts (fst s)"
  using assms by (induction xs arbitrary: s) simp_all

lemma opts_step: "w_opts (fst (world_step c w)) = w_opts w"
proof (cases c)
  case (Ingest now obs meta)
  have leave: "w_opts (fst (leave_out now meta seen i s)) = w_opts (fst s)" for seen i s
    by (cases s) (auto simp: leave_out_def Let_def split: option.splits)
  define w0 where "w0 = (case im_freshness meta of None \<Rightarrow> w
      | Some f \<Rightarrow> w\<lparr>w_provider_freshness := AList.update (im_provider meta) f (w_provider_freshness w)\<rparr>)"
  have "w_opts w0 = w_opts w" by (simp add: w0_def split: option.splits)
  moreover obtain e w1 r seen where all: "ingest_all now meta obs (w0, no_result, []) = (e, w1, r, seen)"
    by (metis prod_cases4)
  moreover have "w_opts w1 = w_opts w0" using opts_ingest_all [of now meta obs "(w0, no_result, [])"] all by simp
  moreover have "w_opts (fst (fold (leave_out now meta seen) xs (w1, r))) = w_opts w1" for xs
    using opts_fold [of "leave_out now meta seen" xs "(w1, r)"] leave by simp
  ultimately show ?thesis
    unfolding Ingest world_step.simps ingest_def Let_def w0_def [symmetric] all
    by (auto split: option.splits prod.splits) (metis fst_conv)+
next
  case (Sweep now)
  have "w_opts (fold delete_object e v) = w_opts v" for e v
    by (induction e arbitrary: v) simp_all
  then show ?thesis unfolding Sweep by (simp add: sweep_def Let_def split: prod.splits)
next
  case (Remove_Provider p)
  have "w_opts (fst (take_provider p i s)) = w_opts (fst s)" for i s
    by (cases s) (auto simp: take_provider_def split: option.splits)
  from opts_fold [of "take_provider p", OF this] show ?thesis
    unfolding Remove_Provider by (auto simp: removeProvider_def split: prod.splits) (metis fst_conv)
next
  case Clear
  have "w_opts (fold delete_object e v) = w_opts v" for e v
    by (induction e arbitrary: v) simp_all
  then show ?thesis unfolding Clear by (simp add: clear_def)
qed (simp_all add: flush_def Let_def onChange_def unsubscribe_def dispose_def)

lemma opts_after: "w_opts (after w cs) = w_opts w"
  unfolding after_def
proof (induction cs arbitrary: w)
  case (Cons c cs)
  obtain w' ch where e: "world_step c w = (w', ch)" by fastforce
  with opts_step [of c w] have "w_opts w' = w_opts w" by simp
  with Cons.IH [of w'] mirror_irrelevant [of cs w' "apply_change (the ch) {}" "{}"] e show ?case by (cases ch) simp_all
qed simp

text \<open>
  C37: The track of an object is in the order of time, never longer than its bound and never
  ahead of the object's own time; tracks are kept only for objects in the state.
\<close>
theorem tracks_in_order:
  "length (track (after (start_world rs ps opts) cs) i) \<le> max_track opts \<and>
   sorted (map (\<lambda>p. time_of (tp_observed p)) (track (after (start_world rs ps opts) cs) i)) \<and>
   (\<forall>p \<in> set (track (after (start_world rs ps opts) cs) i). \<exists>ob.
      objs (after (start_world rs ps opts) cs) i = Some ob \<and> time_of (tp_observed p) \<le> time_of (wo_observed ob))"
proof -
  obtain B where w: "world_ok B (after (start_world rs ps opts) cs)" using after_ok by blast
  have "w_opts (after (start_world rs ps opts) cs) = opts"
    by (simp add: opts_after) (simp add: start_world_def new_world_def)
  with world_okD(4) [OF w] show ?thesis by (simp add: tracks_ok_def track_def)
qed

theorem tracks_in_order_witness:
  "length (track (after sample_world [Ingest 0 [sample_reading] sample_meta]) (js ''x'')) \<le> 240 \<and>
   sorted (map (\<lambda>p. time_of (tp_observed p)) (track (after sample_world [Ingest 0 [sample_reading] sample_meta]) (js ''x'')))"
  using tracks_in_order [of authoritativeRules "[]"
      "\<lparr>max_refs = 8, max_track = 240, max_recent = 5000, flush_delay = 100\<rparr>"
      "[Ingest 0 [sample_reading] sample_meta]" "js ''x''"]
  unfolding sample_world_def world_opts.select_convs by blast

text \<open>
  Whoever reads an object can name everyone who fed it: each provider that still supports
  an object is among its contributors, and there are contributors only of objects in the state.
\<close>
theorem supporters_are_credited:
  "(objs (after (start_world rs ps opts) cs) i = Some ob \<longrightarrow>
      set (ref_providers ob) \<subseteq> set (set_of (w_contributors (after (start_world rs ps opts) cs)) i)) \<and>
   (set_of (w_contributors (after (start_world rs ps opts) cs)) i \<noteq> [] \<longrightarrow>
      i \<in> ids (after (start_world rs ps opts) cs))"
proof -
  obtain B where w: "world_ok B (after (start_world rs ps opts) cs)" using after_ok by blast
  show ?thesis using world_okD(5) [OF w] unfolding credited_def ids_dom by blast
qed

theorem supporters_are_credited_witness:
  "set_of (w_contributors (after sample_world [])) (js ''sensor:buoys:a'') = []"
  using supporters_are_credited [of authoritativeRules "[]"
      "\<lparr>max_refs = 8, max_track = 240, max_recent = 5000, flush_delay = 100\<rparr>" "[]" "js ''sensor:buoys:a''"]
  by (simp add: after_def sample_world_def start_world_def new_world_def set_of_def)

section \<open>What a listener is not told\<close>

text \<open>
  A provider that leaves an object which another still supports changes the object's
  observations, and no change is announced.
\<close>

lemma shared_object_changes_silently:
  assumes "objs w i = Some ob" and "drop_provider_refs p ob \<noteq> []" and "wo_id ob = i"
  shows "w_pending (fst (take_provider p i (w, n))) = w_pending w \<and>
    objs (fst (take_provider p i (w, n))) i = Some (ob\<lparr>wo_refs := drop_provider_refs p ob\<rparr>)"
  using assms by (simp add: take_provider_def replace_object_def Let_def map_simps)

text \<open>
  The sweep scores every object as if its source were authoritative, so the confidence of a
  crowd-sourced object rises when its data ages.
\<close>

lemma confidence_rises_with_age:
  "computeConfidence \<lparr>ci_quality = Crowdsourced, ci_freshness = LIVE, ci_accuracy = None, ci_providers = 1,
     ci_authoritative = False\<rparr> <
   computeConfidence \<lparr>ci_quality = Authoritative, ci_freshness = RECENT, ci_accuracy = None, ci_providers = 1,
     ci_authoritative = True\<rparr>"
  by (simp add: computeConfidence_def Let_def precisionFactor_def)

end
