(* ===== verification/Events.thy ===== *)
theory Events
  imports Identity "HOL-Library.List_Lexorder" "HOL-Library.Product_Lexorder"
begin

text \<open>
  Events and the store that keeps them (\<^verbatim>\<open>packages/world-model/src/event.ts\<close> and
  \<^verbatim>\<open>packages/event-engine/src\<close>: \<^verbatim>\<open>severity.ts\<close>, \<^verbatim>\<open>store.ts\<close>), with the stable
  rendering of JSON that the store compares events by.

  The store keeps its events by id, by type and by object, and in one list from the newest to
  the oldest, into which an event is put at the place a binary search finds. Its contract is
  \<open>spec_step\<close>: the list is the sorted list of the events, cut to the newest \<open>maxEvents\<close>; the
  other indexes say the same. A start that is no time compares as nothing
  (\<open>compareEvents\<close> is then \<open>NaN\<close>, here \<open>None\<close>), so the contract is about events whose start
  can be read, which is what the type of the source promises.
\<close>

section \<open>Severities\<close>

datatype severity_class = INFO | MINOR | MODERATE | SEVERE | EXTREME

fun SEVERITY_ORDER :: "severity_class \<Rightarrow> nat" where
  "SEVERITY_ORDER INFO = 0"
| "SEVERITY_ORDER MINOR = 1"
| "SEVERITY_ORDER MODERATE = 2"
| "SEVERITY_ORDER SEVERE = 3"
| "SEVERITY_ORDER EXTREME = 4"

text \<open>The severities are ordered as their numbers are.\<close>

instantiation severity_class :: linorder
begin

definition less_eq_severity_class :: "severity_class \<Rightarrow> severity_class \<Rightarrow> bool" where
  "less_eq_severity_class a b \<longleftrightarrow> SEVERITY_ORDER a \<le> SEVERITY_ORDER b"

definition less_severity_class :: "severity_class \<Rightarrow> severity_class \<Rightarrow> bool" where
  "less_severity_class a b \<longleftrightarrow> SEVERITY_ORDER a < SEVERITY_ORDER b"

instance
proof
  fix a b :: severity_class
  show "a \<le> b \<Longrightarrow> b \<le> a \<Longrightarrow> a = b"
    by (cases a; cases b) (simp_all add: less_eq_severity_class_def)
qed (auto simp: less_eq_severity_class_def less_severity_class_def)

end

definition severity_or_info :: "severity_class option \<Rightarrow> severity_class" where
  "severity_or_info s = (case s of Some c \<Rightarrow> c | None \<Rightarrow> INFO)"

lemma severity_or_info_simps [simp]: "severity_or_info None = INFO" "severity_or_info (Some c) = c"
  by (simp_all add: severity_or_info_def)

definition severityAtLeast :: "severity_class option \<Rightarrow> severity_class option \<Rightarrow> bool" where
  "severityAtLeast s m =
     (case m of None \<Rightarrow> True
      | Some c \<Rightarrow> SEVERITY_ORDER (severity_or_info s) \<ge> SEVERITY_ORDER c)"

definition maxSeverity :: "severity_class \<Rightarrow> severity_class \<Rightarrow> severity_class" where
  "maxSeverity a b = (if SEVERITY_ORDER a \<ge> SEVERITY_ORDER b then a else b)"

definition magnitudeSeverity :: "real option \<Rightarrow> severity_class" where
  "magnitudeSeverity m =
     (case m of None \<Rightarrow> INFO
      | Some x \<Rightarrow> if x < 3 then INFO else if x < 45 / 10 then MINOR else if x < 55 / 10 then MODERATE
                  else if x < 7 then SEVERE else EXTREME)"

definition payloadSeverity :: "json option \<Rightarrow> severity_class" where
  "payloadSeverity v =
     (case v of
        Some (JNum x) \<Rightarrow> if x \<ge> 4 then EXTREME else if x \<ge> 3 then SEVERE else if x \<ge> 2 then MODERATE
                         else if x \<ge> 1 then MINOR else INFO
      | Some (JStr s) \<Rightarrow>
          let u = map upper (trim s)
          in if u = js ''EXTREME'' then EXTREME else if u = js ''SEVERE'' then SEVERE
             else if u = js ''MODERATE'' then MODERATE else if u = js ''MINOR'' then MINOR else INFO
      | _ \<Rightarrow> INFO)"

definition confidenceOf :: "world_object list \<Rightarrow> confidence_class" where
  "confidenceOf os =
     (if os = [] then UNKNOWN_CONFIDENCE
      else classifyConfidence (foldl (\<lambda>sum ob. sum + wo_confidence ob) 0 os / of_nat (length os)))"

lemma severityAtLeast_le: "severityAtLeast s (Some c) \<longleftrightarrow> c \<le> severity_or_info s"
  by (simp add: severityAtLeast_def less_eq_severity_class_def)

lemma maxSeverity_max: "maxSeverity a b = max b a"
  by (auto simp: maxSeverity_def max_def less_eq_severity_class_def)

section \<open>Events\<close>

record world_event =
  ev_id :: jstring
  ev_type :: jstring
  ev_title :: jstring
  ev_start :: jstring
  ev_end :: "jstring option"
  ev_geometry :: "world_geometry option"
  ev_objects :: "jstring list"
  ev_refs :: "observation_ref list"
  ev_confidence :: confidence_class
  ev_severity :: "severity_class option"
  ev_summary :: jstring
  ev_properties :: "payload option"
  ev_provenance :: provenance

definition makeEventId :: "jstring \<Rightarrow> jstring \<Rightarrow> jstring \<Rightarrow> jstring" where
  "makeEventId ty ns v = js ''event:'' @ ty @ js '':'' @ ns @ js '':'' @ v"

definition ev_prop :: "world_event \<Rightarrow> jstring \<Rightarrow> json option" where
  "ev_prop e k = Option.bind (ev_properties e) (\<lambda>p. map_of p k)"

section \<open>Stable rendering of JSON\<close>

text \<open>
  \<open>JSON.stringify\<close> of a text: quotation marks, backslashes and control characters are escaped,
  and so is half of a surrogate pair that stands alone.
\<close>

definition hex4 :: "nat \<Rightarrow> jstring" where
  "hex4 n = js [CHR 0x5C, CHR ''u''] @
     map (\<lambda>i. let d = n div 16 ^ i mod 16 in if d < 10 then 48 + d else 87 + d) [3, 2, 1, 0]"

definition is_lead :: "jchar \<Rightarrow> bool" where
  "is_lead c \<longleftrightarrow> 0xD800 \<le> c \<and> c < 0xDC00"

definition is_trail :: "jchar \<Rightarrow> bool" where
  "is_trail c \<longleftrightarrow> 0xDC00 \<le> c \<and> c < 0xE000"

definition json_char :: "jchar \<Rightarrow> jstring" where
  "json_char c =
     (if c = 34 then [92, 34] else if c = 92 then [92, 92]
      else if c = 8 then [92, 98] else if c = 9 then [92, 116] else if c = 10 then [92, 110]
      else if c = 12 then [92, 102] else if c = 13 then [92, 114]
      else if c < 32 \<or> is_lead c \<or> is_trail c then hex4 c else [c])"

fun json_chars :: "jstring \<Rightarrow> jstring" where
  "json_chars [] = []"
| "json_chars [c] = json_char c"
| "json_chars (c # d # s) =
     (if is_lead c \<and> is_trail d then c # d # json_chars s else json_char c @ json_chars (d # s))"

definition json_text :: "jstring \<Rightarrow> jstring" where
  "json_text s = 34 # json_chars s @ [34]"

text \<open>The keys of an object differ, and they are written in the order of their code units.\<close>

fun stableStringify :: "json \<Rightarrow> jstring" where
  "stableStringify JNull = js ''null''"
| "stableStringify (JBool b) = (if b then js ''true'' else js ''false'')"
| "stableStringify (JNum x) = number_text x"
| "stableStringify (JStr s) = json_text s"
| "stableStringify (JArr vs) = js ''['' @ join_with 44 (map stableStringify vs) @ js '']''"
| "stableStringify (JObj kvs) =
     js ''{'' @ join_with 44 (map (\<lambda>(k, t). json_text k @ 58 # t)
        (sort_key fst (map (\<lambda>(k, v). (k, stableStringify v)) kvs))) @ js ''}''"

text \<open>An object whose absent properties are left out.\<close>

definition obj_of :: "(string \<times> json option) list \<Rightarrow> json" where
  "obj_of kvs = JObj (concat (map (\<lambda>(k, v). case v of Some j \<Rightarrow> [(js k, j)] | None \<Rightarrow> []) kvs))"

definition coord_json :: "coord \<Rightarrow> json" where
  "coord_json c = JArr ([JNum (fst c), JNum (fst (snd c))] @
     (case snd (snd c) of Some h \<Rightarrow> [JNum h] | None \<Rightarrow> []))"

definition geometry_json :: "world_geometry \<Rightarrow> json" where
  "geometry_json g =
     (let line = (\<lambda>cs. JArr (map coord_json cs)); rings = (\<lambda>rs. JArr (map line rs));
          make = (\<lambda>k c. obj_of [(''type'', Some (JStr (js k))), (''coordinates'', Some c)])
      in case g of
        Point c \<Rightarrow> make ''Point'' (coord_json c)
      | MultiPoint cs \<Rightarrow> make ''MultiPoint'' (line cs)
      | LineString cs \<Rightarrow> make ''LineString'' (line cs)
      | MultiLineString rs \<Rightarrow> make ''MultiLineString'' (rings rs)
      | Polygon rs \<Rightarrow> make ''Polygon'' (rings rs)
      | MultiPolygon ps \<Rightarrow> make ''MultiPolygon'' (JArr (map rings ps)))"

definition ref_json :: "observation_ref \<Rightarrow> json" where
  "ref_json r = obj_of [(''observationId'', Some (JStr (rf_observation r))),
     (''providerId'', Some (JStr (rf_provider r))), (''observedAt'', Some (JStr (rf_observed r)))]"

fun origin_name :: "provenance_origin \<Rightarrow> string" where
  "origin_name Live = ''live''"
| "origin_name Cached = ''cached''"
| "origin_name Historical = ''historical''"
| "origin_name Recorded = ''recorded''"
| "origin_name Local_Origin = ''local''"
| "origin_name Derived_Origin = ''derived''"
| "origin_name User = ''user''"

fun confidence_name :: "confidence_class \<Rightarrow> string" where
  "confidence_name HIGH = ''HIGH''"
| "confidence_name MEDIUM = ''MEDIUM''"
| "confidence_name LOW = ''LOW''"
| "confidence_name UNKNOWN_CONFIDENCE = ''UNKNOWN''"

fun severity_name :: "severity_class \<Rightarrow> string" where
  "severity_name INFO = ''INFO''"
| "severity_name MINOR = ''MINOR''"
| "severity_name MODERATE = ''MODERATE''"
| "severity_name SEVERE = ''SEVERE''"
| "severity_name EXTREME = ''EXTREME''"

text \<open>The provenance without the time it was received.\<close>

definition provenance_json :: "provenance \<Rightarrow> json" where
  "provenance_json p = obj_of [
     (''providerId'', Some (JStr (pv_provider p))),
     (''sourceName'', Some (JStr (pv_source p))),
     (''origin'', Some (JStr (js (origin_name (pv_origin p))))),
     (''sourceRef'', map_option JStr (pv_ref p)),
     (''attribution'', map_option JStr (pv_attribution p)),
     (''licenseId'', map_option JStr (pv_license p)),
     (''termsUrl'', map_option JStr (pv_terms p)),
     (''derivedFrom'', map_option (\<lambda>rs. JArr (map ref_json rs)) (pv_derived p))]"

definition fingerprint :: "world_event \<Rightarrow> jstring" where
  "fingerprint e = stableStringify (obj_of [
     (''id'', Some (JStr (ev_id e))),
     (''type'', Some (JStr (ev_type e))),
     (''title'', Some (JStr (ev_title e))),
     (''startAt'', Some (JStr (ev_start e))),
     (''endAt'', map_option JStr (ev_end e)),
     (''geometry'', map_option geometry_json (ev_geometry e)),
     (''objectIds'', Some (JArr (map JStr (ev_objects e)))),
     (''observationRefs'', Some (JArr (map ref_json (ev_refs e)))),
     (''confidence'', Some (JStr (js (confidence_name (ev_confidence e))))),
     (''severity'', map_option (\<lambda>s. JStr (js (severity_name s))) (ev_severity e)),
     (''summary'', Some (JStr (ev_summary e))),
     (''properties'', map_option JObj (ev_properties e)),
     (''provenance'', Some (provenance_json (ev_provenance e)))])"

section \<open>The store\<close>

record event_store =
  st_byId :: "(jstring \<times> world_event) list"
  st_byType :: "(jstring \<times> jstring list) list"
  st_byObject :: "(jstring \<times> jstring list) list"
  st_ordered :: "world_event list"
  st_max :: nat

datatype upsert_outcome = Added | Updated | Unchanged

definition new_store :: "int option \<Rightarrow> event_store" where
  "new_store n = \<lparr>st_byId = [], st_byType = [], st_byObject = [], st_ordered = [],
     st_max = nat (max 1 (case n of Some k \<Rightarrow> k | None \<Rightarrow> 20000))\<rparr>"

text \<open>The comparison; \<open>None\<close> is \<open>NaN\<close>.\<close>

definition compareEvents :: "world_event \<Rightarrow> world_event \<Rightarrow> int option" where
  "compareEvents a b =
     (case (date_parse (ev_start a), date_parse (ev_start b)) of
        (Some ta, Some tb) \<Rightarrow>
          if ta \<noteq> tb then Some (tb - ta)
          else Some (if ev_id a < ev_id b then -1 else if ev_id a > ev_id b then 1 else 0)
      | _ \<Rightarrow> None)"

definition comes_before :: "world_event \<Rightarrow> world_event \<Rightarrow> bool" where
  "comes_before a b \<longleftrightarrow> (case compareEvents a b of Some c \<Rightarrow> c < 0 | None \<Rightarrow> False)"

function bisect :: "world_event list \<Rightarrow> world_event \<Rightarrow> nat \<Rightarrow> nat \<Rightarrow> nat" where
  "bisect xs e lo hi =
     (if lo < hi
      then let mid = (lo + hi) div 2
           in if comes_before (xs ! mid) e then bisect xs e (mid + 1) hi else bisect xs e lo mid
      else lo)"
  by pat_completeness auto
termination
  by (relation "measure (\<lambda>(xs, e, lo, hi). hi - lo)") auto

declare bisect.simps [simp del]

definition insertionIndex :: "world_event list \<Rightarrow> world_event \<Rightarrow> nat" where
  "insertionIndex xs e = bisect xs e 0 (length xs)"

definition ids_at :: "(jstring \<times> jstring list) list \<Rightarrow> jstring \<Rightarrow> world_event list \<Rightarrow> world_event list" where
  "ids_at m k xs = (case map_of m k of None \<Rightarrow> [] | Some ids \<Rightarrow> filter (\<lambda>e. ev_id e \<in> set ids) xs)"

definition events_of_type :: "event_store \<Rightarrow> jstring \<Rightarrow> world_event list" where
  "events_of_type s ty = ids_at (st_byType s) ty (st_ordered s)"

definition forObject :: "event_store \<Rightarrow> jstring \<Rightarrow> world_event list" where
  "forObject s i = ids_at (st_byObject s) i (st_ordered s)"

definition link_event :: "world_event \<Rightarrow> event_store \<Rightarrow> event_store" where
  "link_event e s =
     (let at_index = insertionIndex (st_ordered s) e
      in s\<lparr>st_byId := AList.update (ev_id e) e (st_byId s),
           st_byType := index_in (ev_type e) (ev_id e) (st_byType s),
           st_byObject := fold (\<lambda>i. index_in i (ev_id e)) (ev_objects e) (st_byObject s),
           st_ordered := take at_index (st_ordered s) @ e # drop at_index (st_ordered s)\<rparr>)"

fun cut_first :: "jstring \<Rightarrow> world_event list \<Rightarrow> world_event list" where
  "cut_first i [] = []"
| "cut_first i (e # es) = (if ev_id e = i then es else e # cut_first i es)"

definition unlink_event :: "world_event \<Rightarrow> event_store \<Rightarrow> event_store" where
  "unlink_event e s = s\<lparr>st_byId := AList.delete (ev_id e) (st_byId s),
     st_byType := unindex_in (ev_type e) (ev_id e) (st_byType s),
     st_byObject := fold (\<lambda>i. unindex_in i (ev_id e)) (ev_objects e) (st_byObject s),
     st_ordered := cut_first (ev_id e) (st_ordered s)\<rparr>"

lemma cut_first_length [simp]: "length (cut_first i xs) = length xs - (if i \<in> ev_id ` set xs then 1 else 0)"
proof (induction xs)
  case (Cons e es)
  have "es \<noteq> []" if "i \<in> ev_id ` set es" using that by auto
  then have "0 < length es" if "i \<in> ev_id ` set es" using that by blast
  with Cons show ?case by auto
qed simp

function evict_events :: "event_store \<Rightarrow> event_store" where
  "evict_events s =
     (if length (st_ordered s) > st_max s then evict_events (unlink_event (last (st_ordered s)) s) else s)"
  by pat_completeness auto
termination
  by (relation "measure (\<lambda>s. length (st_ordered s))") (auto simp: unlink_event_def intro!: imageI last_in_set)

declare evict_events.simps [simp del]

definition upsert_event :: "world_event \<Rightarrow> event_store \<Rightarrow> event_store \<times> upsert_outcome" where
  "upsert_event e s =
     (case map_of (st_byId s) (ev_id e) of
        Some prev \<Rightarrow>
          if fingerprint prev = fingerprint e then (s, Unchanged)
          else (evict_events (link_event e (unlink_event prev s)), Updated)
      | None \<Rightarrow> (evict_events (link_event e s), Added))"

definition remove_event :: "jstring \<Rightarrow> event_store \<Rightarrow> event_store \<times> bool" where
  "remove_event i s =
     (case map_of (st_byId s) i of None \<Rightarrow> (s, False) | Some prev \<Rightarrow> (unlink_event prev s, True))"

definition clear_events :: "event_store \<Rightarrow> event_store" where
  "clear_events s = s\<lparr>st_byId := [], st_byType := [], st_byObject := [], st_ordered := []\<rparr>"

definition sort_events :: "world_event list \<Rightarrow> world_event list" where
  "sort_events xs = sort_with comes_before xs"

definition related :: "event_store \<Rightarrow> jstring option \<Rightarrow> jstring option \<Rightarrow> world_event list" where
  "related s obj evt =
     (let put = (\<lambda>e out. AList.update (ev_id e) e out);
          links = [js ''mainshockEventId'', js ''mergedInto''];
          out0 = (case obj of Some i \<Rightarrow> if i \<noteq> [] then fold put (forObject s i) [] else [] | None \<Rightarrow> []);
          out1 = (case Option.bind evt (\<lambda>i. if i \<noteq> [] then map_of (st_byId s) i else None) of
             None \<Rightarrow> out0
           | Some e \<Rightarrow>
               let sharing = concat (map (\<lambda>i. filter (\<lambda>e'. ev_id e' \<noteq> ev_id e) (forObject s i)) (ev_objects e));
                   targets = concat (map (\<lambda>k. case ev_prop e k of
                       Some (JStr t) \<Rightarrow> (case map_of (st_byId s) t of Some e' \<Rightarrow> [e'] | None \<Rightarrow> [])
                     | _ \<Rightarrow> []) links);
                   pointing = filter (\<lambda>e'. ev_id e' \<noteq> ev_id e \<and>
                     (\<exists>k\<in>set links. ev_prop e' k = Some (JStr (ev_id e)))) (st_ordered s)
               in fold put (sharing @ targets @ pointing) out0)
      in sort_events (map snd out1))"

section \<open>The store is the sorted list of its newest events\<close>

definition readable_event :: "world_event \<Rightarrow> bool" where
  "readable_event e \<longleftrightarrow> date_parse (ev_start e) \<noteq> None"

definition event_key :: "world_event \<Rightarrow> int \<times> jstring" where
  "event_key e = (- the (date_parse (ev_start e)), ev_id e)"

lemma comes_before_key:
  "readable_event a \<Longrightarrow> readable_event b \<Longrightarrow> comes_before a b \<longleftrightarrow> event_key a < event_key b"
  by (auto simp: readable_event_def comes_before_def compareEvents_def event_key_def
    split: option.splits if_splits)

lemma event_key_id: "event_key a = event_key b \<Longrightarrow> ev_id a = ev_id b"
  by (simp add: event_key_def)

lemma bisect_bounds:
  assumes "lo \<le> hi" "hi \<le> length xs"
    and "\<And>i j. i \<le> j \<Longrightarrow> j < length xs \<Longrightarrow> comes_before (xs ! j) e \<Longrightarrow> comes_before (xs ! i) e"
    and "\<And>i. i < lo \<Longrightarrow> comes_before (xs ! i) e"
    and "\<And>i. hi \<le> i \<Longrightarrow> i < length xs \<Longrightarrow> \<not> comes_before (xs ! i) e"
  shows "bisect xs e lo hi \<le> length xs \<and> (\<forall>i < bisect xs e lo hi. comes_before (xs ! i) e) \<and>
    (\<forall>i. bisect xs e lo hi \<le> i \<longrightarrow> i < length xs \<longrightarrow> \<not> comes_before (xs ! i) e)"
  using assms
proof (induction xs e lo hi rule: bisect.induct)
  case (1 xs e lo hi)
  show ?case
  proof (cases "lo < hi")
    case False
    then have "bisect xs e lo hi = lo" by (subst bisect.simps) simp
    with 1(3-7) False show ?thesis by auto
  next
    case True
    define mid where "mid = (lo + hi) div 2"
    have mid: "lo \<le> mid" "mid < hi" using True by (auto simp: mid_def)
    have step: "bisect xs e lo hi =
        (if comes_before (xs ! mid) e then bisect xs e (mid + 1) hi else bisect xs e lo mid)"
      using True by (subst bisect.simps) (simp add: mid_def Let_def)
    show ?thesis
    proof (cases "comes_before (xs ! mid) e")
      case yes: True
      have "comes_before (xs ! i) e" if "i < mid + 1" for i
        using that mid 1(4) yes 1(5) by (metis Suc_eq_plus1 less_Suc_eq_le less_le_trans)
      with 1(1) [OF True mid_def yes] yes mid 1(3-7) show ?thesis unfolding step by simp
    next
      case no: False
      have "\<not> comes_before (xs ! i) e" if "mid \<le> i" "i < length xs" for i
        using that 1(5) no by blast
      with 1(2) [OF True mid_def no] mid 1(3-7) no show ?thesis unfolding step by simp
    qed
  qed
qed

lemma split_at_index:
  "n \<le> length xs \<Longrightarrow> (\<forall>i < n. P (xs ! i)) \<Longrightarrow> (\<forall>i. n \<le> i \<longrightarrow> i < length xs \<longrightarrow> \<not> P (xs ! i)) \<Longrightarrow>
    take n xs = takeWhile P xs \<and> drop n xs = dropWhile P xs"
proof (induction n arbitrary: xs)
  case 0
  then show ?case by (cases xs) auto
next
  case (Suc n)
  then obtain y ys where xs: "xs = y # ys" by (cases xs) auto
  have "\<forall>i<n. P (ys ! i)" "P y" using Suc.prems(2) unfolding xs by fastforce+
  moreover have "\<forall>i. n \<le> i \<longrightarrow> i < length ys \<longrightarrow> \<not> P (ys ! i)"
    using Suc.prems(3) unfolding xs by fastforce
  ultimately show ?case using Suc.IH [of ys] Suc.prems(1) unfolding xs by simp
qed

lemma inserted_insort:
  assumes "sorted (map event_key xs)" "\<forall>x\<in>set xs. readable_event x" "readable_event e"
  shows "take (insertionIndex xs e) xs @ e # drop (insertionIndex xs e) xs = insort_key event_key e xs"
proof -
  have mono: "comes_before (xs ! i) e" if "i \<le> j" "j < length xs" "comes_before (xs ! j) e" for i j
  proof -
    have "event_key (xs ! i) \<le> event_key (xs ! j)"
      using assms(1) that by (auto dest: sorted_nth_mono)
    with that assms(2,3) show ?thesis by (auto simp: comes_before_key)
  qed
  have "insertionIndex xs e \<le> length xs \<and> (\<forall>i < insertionIndex xs e. comes_before (xs ! i) e) \<and>
      (\<forall>i. insertionIndex xs e \<le> i \<longrightarrow> i < length xs \<longrightarrow> \<not> comes_before (xs ! i) e)"
    unfolding insertionIndex_def by (rule bisect_bounds) (use mono in auto)
  then have "take (insertionIndex xs e) xs @ e # drop (insertionIndex xs e) xs = place_in comes_before e xs"
    using split_at_index [of "insertionIndex xs e" xs "\<lambda>y. comes_before y e"] by (simp add: place_in_def)
  then show ?thesis
    using assms(2,3) by (simp add: place_in_insort [where key = event_key] comes_before_key)
qed

text \<open>What each index says of the list.\<close>

definition store_ok :: "event_store \<Rightarrow> bool" where
  "store_ok s \<longleftrightarrow>
     distinct (map ev_id (st_ordered s)) \<and>
     sorted (map event_key (st_ordered s)) \<and>
     (\<forall>e\<in>set (st_ordered s). readable_event e) \<and>
     distinct (map fst (st_byId s)) \<and>
     (\<forall>i e. map_of (st_byId s) i = Some e \<longleftrightarrow> e \<in> set (st_ordered s) \<and> ev_id e = i) \<and>
     (\<forall>ty i. i \<in> set (set_of (st_byType s) ty) \<longleftrightarrow> (\<exists>e\<in>set (st_ordered s). ev_id e = i \<and> ev_type e = ty)) \<and>
     (\<forall>ob i. i \<in> set (set_of (st_byObject s) ob) \<longleftrightarrow>
        (\<exists>e\<in>set (st_ordered s). ev_id e = i \<and> ob \<in> set (ev_objects e)))"

lemma store_okD:
  assumes "store_ok s"
  shows "distinct (map ev_id (st_ordered s))" "sorted (map event_key (st_ordered s))"
    "\<And>e. e \<in> set (st_ordered s) \<Longrightarrow> readable_event e" "distinct (map fst (st_byId s))"
    "\<And>i e. map_of (st_byId s) i = Some e \<longleftrightarrow> e \<in> set (st_ordered s) \<and> ev_id e = i"
    "\<And>ty i. i \<in> set (set_of (st_byType s) ty) \<longleftrightarrow> (\<exists>e\<in>set (st_ordered s). ev_id e = i \<and> ev_type e = ty)"
    "\<And>ob i. i \<in> set (set_of (st_byObject s) ob) \<longleftrightarrow>
        (\<exists>e\<in>set (st_ordered s). ev_id e = i \<and> ob \<in> set (ev_objects e))"
  using assms unfolding store_ok_def by blast+

lemma same_id:
  "store_ok s \<Longrightarrow> a \<in> set (st_ordered s) \<Longrightarrow> b \<in> set (st_ordered s) \<Longrightarrow> ev_id a = ev_id b \<Longrightarrow> a = b"
  using store_okD(1) [of s] by (auto simp: distinct_map dest: inj_onD)

lemma cut_first_filter:
  "distinct (map ev_id xs) \<Longrightarrow> cut_first i xs = filter (\<lambda>e. ev_id e \<noteq> i) xs"
proof (induction xs)
  case (Cons e es)
  then have "ev_id a \<noteq> ev_id e" if "a \<in> set es" for a using that by (metis distinct.simps(2) image_eqI list.map(2) list.set_map)
  then have "filter (\<lambda>a. ev_id a \<noteq> ev_id e) es = es" by (simp add: filter_id_conv)
  with Cons show ?case by auto
qed simp

lemma store_ok_new: "store_ok (new_store n)"
  by (simp add: store_ok_def new_store_def set_of_def)

lemma store_ok_clear: "store_ok s \<Longrightarrow> store_ok (clear_events s)"
  by (simp add: store_ok_def clear_events_def set_of_def)

lemma link_ordered:
  assumes "store_ok s" "readable_event e"
  shows "st_ordered (link_event e s) = insort_key event_key e (st_ordered s)"
  using inserted_insort [of "st_ordered s" e] assms store_okD(2,3) [OF assms(1)]
  by (simp add: link_event_def Let_def)

lemma distinct_map_insort:
  "distinct (map f (insort_key g x xs)) \<longleftrightarrow> f x \<notin> f ` set xs \<and> distinct (map f xs)"
  by (induction xs) (auto simp: set_insort_key)

lemma store_ok_link:
  assumes s: "store_ok s" and e: "readable_event e" and new: "ev_id e \<notin> ev_id ` set (st_ordered s)"
  shows "store_ok (link_event e s)"
proof -
  note d = store_okD [OF s]
  have set': "set (st_ordered (link_event e s)) = insert e (set (st_ordered s))"
    unfolding link_ordered [OF s e] by (rule set_insort_key)
  have "distinct (map ev_id (st_ordered (link_event e s)))"
    using d(1) new unfolding link_ordered [OF s e] by (simp add: distinct_map_insort)
  moreover have "sorted (map event_key (st_ordered (link_event e s)))"
    unfolding link_ordered [OF s e] using d(2) by (simp add: sorted_insort_key)
  moreover have "\<forall>a\<in>set (st_ordered (link_event e s)). readable_event a"
    unfolding set' using d(3) e by blast
  moreover have "distinct (map fst (st_byId (link_event e s)))"
    using d(4) by (simp add: link_event_def Let_def distinct_update)
  moreover have "map_of (st_byId (link_event e s)) i = Some a \<longleftrightarrow>
      a \<in> set (st_ordered (link_event e s)) \<and> ev_id a = i" for i a
  proof -
    have "map_of (st_byId (link_event e s)) i = (if i = ev_id e then Some e else map_of (st_byId s) i)"
      by (simp add: link_event_def Let_def map_simps)
    moreover have "a \<in> set (st_ordered s) \<Longrightarrow> ev_id a \<noteq> ev_id e" using new by (metis image_eqI)
    ultimately show ?thesis unfolding set' using d(5) [of i a] by auto
  qed
  moreover have "i \<in> set (set_of (st_byType (link_event e s)) ty) \<longleftrightarrow>
      (\<exists>a\<in>set (st_ordered (link_event e s)). ev_id a = i \<and> ev_type a = ty)" for ty i
  proof -
    have "set (set_of (st_byType (link_event e s)) ty) =
        (if ty = ev_type e then insert (ev_id e) (set (set_of (st_byType s) (ev_type e))) else set (set_of (st_byType s) ty))"
      by (simp add: link_event_def Let_def)
    then show ?thesis unfolding set' using d(6) by auto
  qed
  moreover have "i \<in> set (set_of (st_byObject (link_event e s)) ob) \<longleftrightarrow>
      (\<exists>a\<in>set (st_ordered (link_event e s)). ev_id a = i \<and> ob \<in> set (ev_objects a))" for ob i
  proof -
    have "set (set_of (st_byObject (link_event e s)) ob) =
        (if ob \<in> set (ev_objects e) then insert (ev_id e) (set (set_of (st_byObject s) ob))
         else set (set_of (st_byObject s) ob))"
      by (simp add: link_event_def Let_def)
    then show ?thesis unfolding set' using d(7) by auto
  qed
  ultimately show ?thesis unfolding store_ok_def by blast
qed

lemma unlink_ordered:
  "store_ok s \<Longrightarrow> st_ordered (unlink_event p s) = filter (\<lambda>e. ev_id e \<noteq> ev_id p) (st_ordered s)"
  using store_okD(1) [of s] by (simp add: unlink_event_def cut_first_filter)

lemma store_ok_unlink:
  assumes s: "store_ok s" and p: "p \<in> set (st_ordered s)"
  shows "store_ok (unlink_event p s)"
proof -
  note d = store_okD [OF s]
  have set': "set (st_ordered (unlink_event p s)) = set (st_ordered s) - {p}"
    unfolding unlink_ordered [OF s] using same_id [OF s _ p] by auto
  have only: "ev_id a = ev_id p \<longleftrightarrow> a = p" if "a \<in> set (st_ordered s)" for a
    using same_id [OF s that p] by auto
  have "distinct (map ev_id (st_ordered (unlink_event p s)))"
    unfolding unlink_ordered [OF s] using d(1) by (simp add: distinct_map_filter)
  moreover have "sorted (map event_key (st_ordered (unlink_event p s)))"
    unfolding unlink_ordered [OF s] using d(2) by (rule sorted_filter)
  moreover have "\<forall>a\<in>set (st_ordered (unlink_event p s)). readable_event a"
    unfolding set' using d(3) by blast
  moreover have "distinct (map fst (st_byId (unlink_event p s)))"
    using d(4) by (simp add: unlink_event_def distinct_delete)
  moreover have "map_of (st_byId (unlink_event p s)) i = Some a \<longleftrightarrow>
      a \<in> set (st_ordered (unlink_event p s)) \<and> ev_id a = i" for i a
  proof -
    have "map_of (st_byId (unlink_event p s)) i = (if i = ev_id p then None else map_of (st_byId s) i)"
      by (simp add: unlink_event_def map_simps)
    then show ?thesis unfolding set' using d(5) [of i a] only by auto
  qed
  moreover have "i \<in> set (set_of (st_byType (unlink_event p s)) ty) \<longleftrightarrow>
      (\<exists>a\<in>set (st_ordered (unlink_event p s)). ev_id a = i \<and> ev_type a = ty)" for ty i
  proof -
    have "set (set_of (st_byType (unlink_event p s)) ty) =
        (if ty = ev_type p then set (set_of (st_byType s) (ev_type p)) - {ev_id p} else set (set_of (st_byType s) ty))"
      by (simp add: unlink_event_def)
    then show ?thesis unfolding set' using d(6) only by auto
  qed
  moreover have "i \<in> set (set_of (st_byObject (unlink_event p s)) ob) \<longleftrightarrow>
      (\<exists>a\<in>set (st_ordered (unlink_event p s)). ev_id a = i \<and> ob \<in> set (ev_objects a))" for ob i
  proof -
    have "set (set_of (st_byObject (unlink_event p s)) ob) =
        (if ob \<in> set (ev_objects p) then set (set_of (st_byObject s) ob) - {ev_id p}
         else set (set_of (st_byObject s) ob))"
      by (simp add: unlink_event_def)
    then show ?thesis unfolding set' using d(7) only by auto
  qed
  ultimately show ?thesis unfolding store_ok_def by blast
qed

lemma link_simps [simp]: "st_max (link_event e s) = st_max s" "st_max (unlink_event e s) = st_max s"
  by (simp_all add: link_event_def unlink_event_def Let_def)

lemma filter_last:
  assumes "distinct (map ev_id xs)" "xs \<noteq> []"
  shows "filter (\<lambda>e. ev_id e \<noteq> ev_id (last xs)) xs = butlast xs"
proof -
  obtain ys y where xs: "xs = ys @ [y]" using assms(2) by (metis append_butlast_last_id)
  with assms(1) have "ev_id a \<noteq> ev_id y" if "a \<in> set ys" for a using that by (auto simp: image_iff)
  then show ?thesis by (simp add: xs filter_id_conv)
qed

lemma evict_newest:
  "store_ok s \<Longrightarrow> store_ok (evict_events s) \<and> st_ordered (evict_events s) = take (st_max s) (st_ordered s) \<and>
     st_max (evict_events s) = st_max s"
proof (induction s rule: evict_events.induct)
  case (1 s)
  show ?case
  proof (cases "length (st_ordered s) > st_max s")
    case False
    with 1 show ?thesis by (simp add: evict_events.simps [of s])
  next
    case True
    define s' where "s' = unlink_event (last (st_ordered s)) s"
    have ne: "st_ordered s \<noteq> []" using True by auto
    have ok: "store_ok s'"
      unfolding s'_def using 1(2) by (rule store_ok_unlink) (simp add: ne)
    have ord: "st_ordered s' = butlast (st_ordered s)"
      unfolding s'_def unlink_ordered [OF 1(2)] by (rule filter_last [OF store_okD(1) [OF 1(2)] ne])
    have ev: "evict_events s = evict_events s'"
      using True by (simp add: evict_events.simps [of s] s'_def)
    have "st_max s' = st_max s" by (simp add: s'_def)
    with 1(1) [OF True] ok ord True show ?thesis
      unfolding ev s'_def [symmetric] by (auto simp: take_butlast)
  qed
qed

text \<open>The contract, over the list of the events alone.\<close>

datatype store_call = Upsert world_event | Remove jstring | Clear_All

fun store_step :: "store_call \<Rightarrow> event_store \<Rightarrow> event_store" where
  "store_step (Upsert e) s = fst (upsert_event e s)"
| "store_step (Remove i) s = fst (remove_event i s)"
| "store_step Clear_All s = clear_events s"

fun spec_step :: "nat \<Rightarrow> store_call \<Rightarrow> world_event list \<Rightarrow> world_event list" where
  "spec_step m (Upsert e) xs =
     (if \<exists>p\<in>set xs. ev_id p = ev_id e \<and> fingerprint p = fingerprint e then xs
      else take m (insort_key event_key e (filter (\<lambda>p. ev_id p \<noteq> ev_id e) xs)))"
| "spec_step m (Remove i) xs = filter (\<lambda>p. ev_id p \<noteq> i) xs"
| "spec_step m Clear_All xs = []"

fun readable_call :: "store_call \<Rightarrow> bool" where
  "readable_call (Upsert e) = readable_event e"
| "readable_call c = True"

lemma upsert_step:
  assumes s: "store_ok s" and e: "readable_event e"
  shows "store_ok (fst (upsert_event e s)) \<and> st_max (fst (upsert_event e s)) = st_max s \<and>
    st_ordered (fst (upsert_event e s)) = spec_step (st_max s) (Upsert e) (st_ordered s)"
proof (cases "map_of (st_byId s) (ev_id e)")
  case None
  then have new: "ev_id e \<notin> ev_id ` set (st_ordered s)"
    using store_okD(5) [OF s, of "ev_id e"] by (auto simp: image_iff) (metis option.distinct(1))
  then have same: "filter (\<lambda>p. ev_id p \<noteq> ev_id e) (st_ordered s) = st_ordered s"
    by (auto simp: filter_id_conv image_iff)
  have "fst (upsert_event e s) = evict_events (link_event e s)" using None by (simp add: upsert_event_def)
  then show ?thesis
    using evict_newest [OF store_ok_link [OF s e new]] new same by (auto simp: link_ordered [OF s e] image_iff)
next
  case (Some prev)
  then have prev: "prev \<in> set (st_ordered s)" "ev_id prev = ev_id e" using store_okD(5) [OF s] by blast+
  have only: "p = prev" if "p \<in> set (st_ordered s)" "ev_id p = ev_id e" for p
    using same_id [OF s that(1) prev(1)] that(2) prev(2) by simp
  show ?thesis
  proof (cases "fingerprint prev = fingerprint e")
    case True
    with Some prev show ?thesis using s by (auto simp: upsert_event_def)
  next
    case False
    let ?s = "unlink_event prev s"
    have ok: "store_ok ?s" by (rule store_ok_unlink [OF s prev(1)])
    have new: "ev_id e \<notin> ev_id ` set (st_ordered ?s)" by (auto simp: unlink_ordered [OF s] prev(2))
    have "fst (upsert_event e s) = evict_events (link_event e ?s)" using Some False by (simp add: upsert_event_def)
    moreover have "\<not> (\<exists>p\<in>set (st_ordered s). ev_id p = ev_id e \<and> fingerprint p = fingerprint e)"
      using only False by blast
    ultimately show ?thesis
      using evict_newest [OF store_ok_link [OF ok e new]]
      unfolding link_ordered [OF ok e] unlink_ordered [OF s] prev(2) by auto
  qed
qed

lemma store_step_ok:
  assumes s: "store_ok s" and c: "readable_call c"
  shows "store_ok (store_step c s) \<and> st_max (store_step c s) = st_max s \<and>
    st_ordered (store_step c s) = spec_step (st_max s) c (st_ordered s)"
proof (cases c)
  case (Upsert e)
  with assms upsert_step [of s e] show ?thesis by simp
next
  case (Remove i)
  show ?thesis
  proof (cases "map_of (st_byId s) i")
    case None
    then have "\<forall>p\<in>set (st_ordered s). ev_id p \<noteq> i" using store_okD(5) [OF s, of i] by auto
    with None s Remove show ?thesis by (simp add: remove_event_def filter_id_conv)
  next
    case (Some p)
    then have "p \<in> set (st_ordered s)" "ev_id p = i" using store_okD(5) [OF s] by blast+
    with Some Remove show ?thesis
      using store_ok_unlink [OF s] unlink_ordered [OF s, of p] by (simp add: remove_event_def)
  qed
next
  case Clear_All
  with store_ok_clear [OF s] show ?thesis by (simp add: clear_events_def)
qed

lemma store_run_ok:
  "store_ok s \<Longrightarrow> \<forall>c\<in>set cs. readable_call c \<Longrightarrow>
    store_ok (fold store_step cs s) \<and> st_max (fold store_step cs s) = st_max s \<and>
    st_ordered (fold store_step cs s) = fold (spec_step (st_max s)) cs (st_ordered s)"
proof (induction cs arbitrary: s)
  case (Cons c cs)
  then show ?case using store_step_ok [of s c] Cons.IH [of "store_step c s"] by simp
qed simp

lemma ids_at_filter:
  assumes "\<And>i. i \<in> set (set_of m k) \<longleftrightarrow> (\<exists>e\<in>set xs. ev_id e = i \<and> P e)" "distinct (map ev_id xs)"
  shows "ids_at m k xs = filter P xs"
proof -
  have "ids_at m k xs = filter (\<lambda>e. ev_id e \<in> set (set_of m k)) xs"
    by (simp add: ids_at_def set_of_def split: option.split)
  also have "\<dots> = filter P xs"
    using assms by (intro filter_cong refl) (auto simp: distinct_map dest: inj_onD)
  finally show ?thesis .
qed

lemma store_reads:
  assumes s: "store_ok s"
  shows "events_of_type s ty = filter (\<lambda>e. ev_type e = ty) (st_ordered s)"
    and "forObject s ob = filter (\<lambda>e. ob \<in> set (ev_objects e)) (st_ordered s)"
  using store_okD(6,7) [OF s] store_okD(1) [OF s]
  by (simp_all add: events_of_type_def forObject_def ids_at_filter)

lemma key_sorted:
  "sorted (map event_key xs) \<Longrightarrow> distinct (map ev_id xs) \<Longrightarrow>
    sorted_wrt (\<lambda>a b. event_key a \<le> event_key b \<and> ev_id a \<noteq> ev_id b) xs"
  by (induction xs) (auto simp: image_iff)

lemma store_sorted:
  assumes s: "store_ok s"
  shows "sorted_wrt comes_before (st_ordered s)"
proof (rule sorted_wrt_mono_rel [OF _ key_sorted [OF store_okD(2,1) [OF s]]])
  fix a b
  assume ab: "a \<in> set (st_ordered s)" "b \<in> set (st_ordered s)"
    "event_key a \<le> event_key b \<and> ev_id a \<noteq> ev_id b"
  then have "event_key a \<noteq> event_key b" using event_key_id by blast
  with ab(3) have "event_key a < event_key b" by (blast intro: le_neq_trans)
  then show "comes_before a b" using comes_before_key store_okD(3) [OF s] ab(1,2) by blast
qed

lemma spec_length: "length xs \<le> m \<Longrightarrow> length (spec_step m c xs) \<le> m"
  by (cases c) (auto intro: le_trans [OF length_filter_le])

lemma spec_run_length: "length xs \<le> m \<Longrightarrow> length (fold (spec_step m) cs xs) \<le> m"
  by (induction cs arbitrary: xs) (simp_all add: spec_length)

text \<open>
  C18: After any calls of the store, its list is what the reference keeps: each event
  once, as last put in, from the newest to the oldest, cut to the \<open>maxEvents\<close> newest; and reading
  by id, by type and by object gives exactly the events of the list that match.
\<close>
theorem store_is_the_newest:
  assumes "\<forall>c\<in>set cs. readable_call c"
  shows "let s = fold store_step cs (new_store n)
    in st_ordered s = fold (spec_step (st_max (new_store n))) cs [] \<and>
       length (st_ordered s) \<le> st_max (new_store n) \<and> sorted_wrt comes_before (st_ordered s) \<and>
       distinct (map ev_id (st_ordered s)) \<and>
       (\<forall>i e. map_of (st_byId s) i = Some e \<longleftrightarrow> e \<in> set (st_ordered s) \<and> ev_id e = i) \<and>
       (\<forall>ty. events_of_type s ty = filter (\<lambda>e. ev_type e = ty) (st_ordered s)) \<and>
       (\<forall>ob. forObject s ob = filter (\<lambda>e. ob \<in> set (ev_objects e)) (st_ordered s))"
proof -
  define s where "s = fold store_step cs (new_store n)"
  have "st_ordered (new_store n) = []" by (simp add: new_store_def)
  with store_run_ok [OF store_ok_new [of n] assms]
  have ok: "store_ok s" and ord: "st_ordered s = fold (spec_step (st_max (new_store n))) cs []"
    by (simp_all add: s_def)
  have "length (st_ordered s) \<le> st_max (new_store n)" unfolding ord by (simp add: spec_run_length)
  with ord store_sorted [OF ok] store_okD(1,5) [OF ok] store_reads [OF ok] show ?thesis
    unfolding s_def [symmetric] Let_def by blast
qed

definition sample_event :: world_event where
  "sample_event = \<lparr>ev_id = js ''e1'', ev_type = js ''earthquake'', ev_title = [], ev_start = js ''1970-01-01T00:00:00Z'',
     ev_end = None, ev_geometry = None, ev_objects = [js ''o1''], ev_refs = [], ev_confidence = HIGH,
     ev_severity = None, ev_summary = [], ev_properties = None,
     ev_provenance = \<lparr>pv_provider = [], pv_source = [], pv_origin = Live, pv_ref = None, pv_attribution = None,
       pv_license = None, pv_terms = None, pv_received = [], pv_derived = None\<rparr>\<rparr>"

lemma epoch_readable: "date_parse (js ''1970-01-01T00:00:00Z'') = Some 0"
  by (simp add: date_parse_def iso_fields_def slice_def iso_fraction_def is_digit_def dec_value_def
      make_day_def days_before_def epoch_day_def)

lemma sample_event_readable: "readable_event sample_event"
  using epoch_readable by (simp add: readable_event_def sample_event_def del: js_simps)

theorem store_is_the_newest_witness:
  "let s = fold store_step [Upsert sample_event] (new_store None)
   in st_ordered s = [sample_event] \<and> map_of (st_byId s) (js ''e1'') = Some sample_event \<and>
      forObject s (js ''o1'') = [sample_event]"
proof -
  have r: "\<forall>c\<in>set [Upsert sample_event]. readable_call c" using sample_event_readable by simp
  have m: "st_max (new_store None) = 20000" by (simp add: new_store_def)
  have i: "ev_id sample_event = js ''e1''" "ev_objects sample_event = [js ''o1'']" by (simp_all add: sample_event_def)
  define s where "s = fold store_step [Upsert sample_event] (new_store None)"
  note t = store_is_the_newest [OF r, of None, folded s_def, unfolded Let_def m]
  have "st_ordered s = fold (spec_step 20000) [Upsert sample_event] []" using t by (rule conjunct1)
  then have ord: "st_ordered s = [sample_event]" by simp
  have "map_of (st_byId s) (js ''e1'') = Some sample_event \<longleftrightarrow>
      sample_event \<in> set (st_ordered s) \<and> ev_id sample_event = js ''e1''" using t by blast
  then have "map_of (st_byId s) (js ''e1'') = Some sample_event" using ord i(1) by simp
  moreover have "forObject s (js ''o1'') = filter (\<lambda>e. js ''o1'' \<in> set (ev_objects e)) (st_ordered s)" using t by blast
  then have "forObject s (js ''o1'') = [sample_event]" using ord i(2) by simp
  moreover note ord
  ultimately show ?thesis unfolding s_def [symmetric] Let_def by blast
qed

text \<open>
  A full store that is given an event older than all it has keeps nothing of it and still answers
  \<open>Added\<close>, so whoever hands in the same event again and again is told each time that it is new.
\<close>
lemma full_store_always_adds:
  assumes s: "store_ok s" and e: "readable_event e" and full: "length (st_ordered s) = st_max s"
    and old: "\<forall>p\<in>set (st_ordered s). event_key p < event_key e" and new: "ev_id e \<notin> ev_id ` set (st_ordered s)"
  shows "snd (upsert_event e s) = Added \<and> st_ordered (fst (upsert_event e s)) = st_ordered s \<and>
    snd (upsert_event e (fst (upsert_event e s))) = Added"
proof -
  have none: "map_of (st_byId t) (ev_id e) = None" if "store_ok t" "st_ordered t = st_ordered s" for t
    using store_okD(5) [OF that(1), of "ev_id e"] new that(2) by (metis image_eqI option.exhaust)
  have last_place: "insort_key event_key e xs = xs @ [e]" if "\<forall>p\<in>set xs. event_key p < event_key e" for xs
    using that by (induction xs) auto
  have keep: "filter (\<lambda>p. ev_id p \<noteq> ev_id e) (st_ordered s) = st_ordered s"
    using new by (auto simp: filter_id_conv image_iff)
  have fresh: "\<not> (\<exists>p\<in>set (st_ordered s). ev_id p = ev_id e \<and> fingerprint p = fingerprint e)"
    using new by (metis image_eqI)
  have after: "store_ok (fst (upsert_event e s))" "st_ordered (fst (upsert_event e s)) = st_ordered s"
    using upsert_step [OF s e] fresh full last_place [OF old] keep by auto
  then show ?thesis
    using none [OF s refl] none [OF after] by (simp add: upsert_event_def)
qed

end
