(* ===== verification/Watch_Zones.thy ===== *)
theory Watch_Zones
  imports Events
begin

text \<open>
  Watch zones (\<^verbatim>\<open>packages/event-engine/src/watch-zones.ts\<close>), the test of a geometry against a
  region they use (\<^verbatim>\<open>packages/query-engine/src/geometry.ts\<close>) and the zone itself
  (\<^verbatim>\<open>packages/ipc-contract/src/index.ts\<close>).

  The evaluator is a record passed through its operations; every operation that looks at the
  clock takes the time as its first argument. A hit is told to the listeners as it is made and
  is then in the result, so the results, in order, are what the listeners hear.
\<close>

section \<open>Geometries and regions\<close>

definition flat :: "coord \<Rightarrow> real \<times> real" where
  "flat c = (fst c, fst (snd c))"

definition geometryBounds :: "world_geometry \<Rightarrow> geo_bounds option" where
  "geometryBounds g =
     (let pts = map flat (geometry_points g)
      in if pts = [] then None
         else Some (foldl (\<lambda>b (lon, lat).
           \<lparr>west = (if lon < west b then lon else west b),
            south = (if lat < south b then lat else south b),
            east = (if lon > east b then lon else east b),
            north = (if lat > north b then lat else north b)\<rparr>)
           \<lparr>west = 180, south = 90, east = -180, north = -90\<rparr> pts))"

fun outerRings :: "world_geometry \<Rightarrow> (real \<times> real) list list" where
  "outerRings (Polygon (r # rs)) = [map flat r]"
| "outerRings (MultiPolygon ps) = map (\<lambda>p. map flat (hd p)) (filter (\<lambda>p. p \<noteq> []) ps)"
| "outerRings g = []"

definition mid_longitude :: "geo_bounds \<Rightarrow> real" where
  "mid_longitude b =
     (if west b \<le> east b then (west b + east b) / 2
      else js_rem ((west b + east b + 360) / 2 + 180) 360 - 180)"

definition boundsSamples :: "geo_bounds \<Rightarrow> latlon list" where
  "boundsSamples b = [(south b, west b), (south b, east b), (north b, east b), (north b, west b),
     ((south b + north b) / 2, mid_longitude b)]"

fun regionSamplePoints :: "geo_region \<Rightarrow> latlon list" where
  "regionSamplePoints (Circle_Region c r) = [place c]"
| "regionSamplePoints (Polygon_Region ring) = map (\<lambda>(lon, lat). (lat, lon)) ring"
| "regionSamplePoints (Bounds_Region b) = boundsSamples b"
| "regionSamplePoints (Admin_Region i b) = (case b of Some b \<Rightarrow> boundsSamples b | None \<Rightarrow> [])"

definition regionCenter :: "geo_region \<Rightarrow> latlon option" where
  "regionCenter region =
     (case region of
        Circle_Region c r \<Rightarrow> Some (place c)
      | _ \<Rightarrow> map_option (\<lambda>b. ((south b + north b) / 2, mid_longitude b)) (regionBounds region))"

definition geometryIntersectsRegion :: "world_geometry \<Rightarrow> geo_region \<Rightarrow> bool" where
  "geometryIntersectsRegion g region =
     (case (geometryBounds g, regionBounds region) of
        (Some gb, Some rb) \<Rightarrow>
          if \<not> boundsIntersect gb rb then False
          else if \<exists>c\<in>set (geometry_points g). regionContains region (fst (snd c), fst c) then True
          else if outerRings g = [] then False
          else if \<exists>p\<in>set (regionSamplePoints region). \<exists>ring\<in>set (outerRings g). pointInPolygon p ring then True
          else (case region of
                  Circle_Region c r \<Rightarrow>
                    \<exists>ring\<in>set (outerRings g). pointInPolygon (place c) ring \<and> boundsIntersect (circleBounds (place c) r) gb
                | _ \<Rightarrow> False)
      | _ \<Rightarrow> False)"

definition geometryRepresentativePoint :: "world_geometry \<Rightarrow> geo_position option" where
  "geometryRepresentativePoint g =
     (case g of
        Point c \<Rightarrow> Some \<lparr>latitude = fst (snd c), longitude = fst c, altitudeM = None, altitudeDatum = None,
                      accuracyM = None\<rparr>
      | _ \<Rightarrow> geometryCentroid g)"

section \<open>Zones\<close>

record quiet_hours =
  qh_start :: jstring
  qh_end :: jstring

record watch_zone =
  wz_id :: jstring
  wz_name :: jstring
  wz_geometry :: geo_region
  wz_types :: "jstring list"
  wz_minimum :: "severity_class option"
  wz_in_app :: bool
  wz_desktop :: bool
  wz_desktop_minimum :: "severity_class option"
  wz_quiet :: "quiet_hours option"
  wz_enabled :: bool
  wz_created :: jstring

text \<open>The regular expression \<open>HH:MM\<close>, from \<open>00:00\<close> to \<open>23:59\<close>.\<close>

definition clockMinutes :: "jstring \<Rightarrow> int option" where
  "clockMinutes s =
     (case s of
        [h1, h2, c, m1, m2] \<Rightarrow>
          if ((h1 = 48 \<or> h1 = 49) \<and> is_digit h2 \<or> h1 = 50 \<and> 48 \<le> h2 \<and> h2 \<le> 51) \<and>
             c = jc CHR '':'' \<and> 48 \<le> m1 \<and> m1 \<le> 53 \<and> is_digit m2
          then Some (int (dec_value [h1, h2]) * 60 + int (dec_value [m1, m2])) else None
      | _ \<Rightarrow> None)"

definition inQuietHours :: "quiet_hours option \<Rightarrow> int \<Rightarrow> bool" where
  "inQuietHours quiet m =
     (case quiet of None \<Rightarrow> False
      | Some q \<Rightarrow>
          (case (clockMinutes (qh_start q), clockMinutes (qh_end q)) of
             (Some a, Some b) \<Rightarrow>
               if a = b then False else if a < b then m \<ge> a \<and> m < b else m \<ge> a \<or> m < b
           | _ \<Rightarrow> False))"

definition mayInterrupt :: "watch_zone \<Rightarrow> severity_class option \<Rightarrow> int \<Rightarrow> bool" where
  "mayInterrupt z s m =
     (if \<not> inQuietHours (wz_quiet z) m then True
      else severityAtLeast (Some (severity_or_info s)) (Some SEVERE))"

definition WATCH_ZONE_ENTRY :: jstring where
  "WATCH_ZONE_ENTRY = js ''watch-zone-entry''"

definition zoneAccepts :: "watch_zone \<Rightarrow> jstring \<Rightarrow> bool" where
  "zoneAccepts z ty =
     (if wz_types z = [] then True else ty \<in> set (wz_types z) \<or> js ''*'' \<in> set (wz_types z))"

definition watches_entries :: "watch_zone \<Rightarrow> bool" where
  "watches_entries z \<longleftrightarrow> wz_enabled z \<and> WATCH_ZONE_ENTRY \<in> set (wz_types z)"

section \<open>Entry events and hits\<close>

datatype subject_kind = Event_Subject | Object_Subject

record notification =
  nt_id :: jstring
  nt_title :: jstring
  nt_body :: jstring
  nt_severity :: severity_class
  nt_event :: "jstring option"
  nt_zone :: "jstring option"

record zone_hit =
  zh_zone :: watch_zone
  zh_kind :: subject_kind
  zh_subject :: jstring
  zh_event :: world_event
  zh_notification :: notification

definition WATCH_ZONE_DEDUPE_MS :: int where
  "WATCH_ZONE_DEDUPE_MS = 6 * 3600000"

definition WATCH_ZONE_ENTRY_BASELINE_MS :: int where
  "WATCH_ZONE_ENTRY_BASELINE_MS = 60000"

definition OBJECT_ENTRY_SEVERITY :: severity_class where
  "OBJECT_ENTRY_SEVERITY = MINOR"

definition int_text :: "int \<Rightarrow> jstring" where
  "int_text n = (if n < 0 then js ''-'' else []) @ decimal (nat \<bar>n\<bar>)"

definition entryId :: "watch_zone \<Rightarrow> jstring \<Rightarrow> int \<Rightarrow> jstring" where
  "entryId z subject now =
     js ''event:'' @ WATCH_ZONE_ENTRY @ js '':'' @ wz_id z @ js '':'' @ subject @ js ''@'' @ int_text (now div 1000)"

definition severityWord :: "severity_class \<Rightarrow> jstring" where
  "severityWord s =
     (let w = js (severity_name s) in take 1 w @ map lower (drop 1 w))"

definition engine_provenance :: "int \<Rightarrow> provenance_origin \<Rightarrow> observation_ref list \<Rightarrow> provenance" where
  "engine_provenance now origin refs =
     \<lparr>pv_provider = js ''worldview'', pv_source = js ''OP-CB event engine'',
      pv_origin = (if origin = Recorded then Recorded else Derived_Origin), pv_ref = None, pv_attribution = None,
      pv_license = None, pv_terms = None, pv_received = to_iso now, pv_derived = Some refs\<rparr>"

text \<open>The dash in a title is the code unit 8212.\<close>

definition entryFromEvent :: "watch_zone \<Rightarrow> world_event \<Rightarrow> int \<Rightarrow> severity_class option \<Rightarrow> world_event" where
  "entryFromEvent z e now rose =
     (let s = severity_or_info (ev_severity e); q = js [CHR 0x22]
      in \<lparr>ev_id = entryId z (ev_id e) now,
          ev_type = WATCH_ZONE_ENTRY,
          ev_title = (case rose of
              Some _ \<Rightarrow> wz_name z @ js '': '' @ ev_title e @ [32, 8212, 32] @ js ''now '' @ severityWord s
            | None \<Rightarrow> wz_name z @ js '': '' @ ev_title e),
          ev_start = to_iso now, ev_end = None, ev_geometry = ev_geometry e,
          ev_objects = ev_objects e, ev_refs = ev_refs e, ev_confidence = ev_confidence e,
          ev_severity = Some s,
          ev_summary = (case rose of
              Some r \<Rightarrow> ev_title e @ js '' intersects watch zone '' @ q @ wz_name z @ q @ js '' and has risen from '' @
                 severityWord r @ js '' to '' @ severityWord s @ js ''.''
            | None \<Rightarrow> ev_title e @ js '' intersects watch zone '' @ q @ wz_name z @ q @ js ''.''),
          ev_properties = Some ([(js ''watchZoneId'', JStr (wz_id z)), (js ''watchZoneName'', JStr (wz_name z)),
              (js ''subjectEventId'', JStr (ev_id e)), (js ''subjectType'', JStr (ev_type e))] @
            (case rose of Some r \<Rightarrow> [(js ''escalatedFrom'', JStr (js (severity_name r)))] | None \<Rightarrow> [])),
          ev_provenance = engine_provenance now (pv_origin (ev_provenance e)) (ev_refs e)\<rparr>)"

definition capitalize :: "jstring \<Rightarrow> jstring" where
  "capitalize s = map upper (take 1 s) @ drop 1 s"

definition after_last_colon :: "jstring \<Rightarrow> jstring" where
  "after_last_colon s = rev (takeWhile (\<lambda>c. c \<noteq> jc CHR '':'') (rev s))"

definition object_label :: "world_object \<Rightarrow> jstring" where
  "object_label ob =
     (case map_of (wo_labels ob) (js ''callsign'') of Some l \<Rightarrow> l | None \<Rightarrow>
       (case map_of (wo_labels ob) (js ''name'') of Some l \<Rightarrow> l | None \<Rightarrow>
         (case map_of (wo_labels ob) (js ''registration'') of Some l \<Rightarrow> l | None \<Rightarrow> after_last_colon (wo_id ob))))"

text \<open>\<open>replace('T', ' ')\<close> replaces the first one.\<close>

fun first_T :: "jstring \<Rightarrow> jstring" where
  "first_T [] = []"
| "first_T (c # s) = (if c = jc CHR ''T'' then 32 # s else c # first_T s)"

definition entryFromObject :: "watch_zone \<Rightarrow> world_object \<Rightarrow> int \<Rightarrow> world_event" where
  "entryFromObject z ob now =
     (let q = js [CHR 0x22]; label = object_label ob
      in \<lparr>ev_id = entryId z (wo_id ob) now,
          ev_type = WATCH_ZONE_ENTRY,
          ev_title = wz_name z @ js '': '' @ wo_type ob @ js '' '' @ label @ js '' entered'',
          ev_start = to_iso now, ev_end = None, ev_geometry = map_option positionToGeometry (wo_position ob),
          ev_objects = [wo_id ob], ev_refs = wo_refs ob, ev_confidence = classifyConfidence (wo_confidence ob),
          ev_severity = Some OBJECT_ENTRY_SEVERITY,
          ev_summary = capitalize (wo_type ob) @ js '' '' @ label @ js '' entered watch zone '' @ q @ wz_name z @ q @
            js '' (observed '' @ first_T (take 16 (wo_observed ob)) @ js '' UTC).'',
          ev_properties = Some [(js ''watchZoneId'', JStr (wz_id z)), (js ''watchZoneName'', JStr (wz_name z)),
              (js ''subjectObjectId'', JStr (wo_id ob)), (js ''subjectType'', JStr (wo_type ob))],
          ev_provenance = engine_provenance now (pv_origin (wo_provenance ob)) (wo_refs ob)\<rparr>)"

definition make_hit :: "watch_zone \<Rightarrow> subject_kind \<Rightarrow> jstring \<Rightarrow> world_event \<Rightarrow> zone_hit" where
  "make_hit z kind subject e =
     \<lparr>zh_zone = z, zh_kind = kind, zh_subject = subject, zh_event = e,
      zh_notification = \<lparr>nt_id = ev_id e, nt_title = ev_title e, nt_body = ev_summary e,
        nt_severity = severity_or_info (ev_severity e),
        nt_event = Some (if kind = Event_Subject then subject else ev_id e), nt_zone = Some (wz_id z)\<rparr>\<rparr>"

section \<open>The evaluator\<close>

text \<open>
  What the evaluator knows of a subject in a zone is kept under one text, the zone's id, a bar
  and the subject's id; the zone is read back from it as what stands before the first bar.
\<close>

definition pair_key :: "jstring \<Rightarrow> jstring \<Rightarrow> jstring" where
  "pair_key z s = z @ jc CHR ''|'' # s"

definition key_zone :: "jstring \<Rightarrow> jstring" where
  "key_zone k = (case index_of (jc CHR ''|'') k of Some i \<Rightarrow> take i k | None \<Rightarrow> butlast k)"

record evaluator =
  we_dedupe :: int
  we_entry_types :: "jstring list"
  we_zones :: "watch_zone list"
  we_last_emit :: "(jstring \<times> int) list"
  we_last_severity :: "(jstring \<times> severity_class) list"
  we_inside :: "jstring list"
  we_since :: "(jstring \<times> int) list"

definition new_evaluator :: "int option \<Rightarrow> jstring list option \<Rightarrow> evaluator" where
  "new_evaluator d types =
     \<lparr>we_dedupe = (case d of Some n \<Rightarrow> n | None \<Rightarrow> WATCH_ZONE_DEDUPE_MS),
      we_entry_types = (case types of Some ts \<Rightarrow> ts | None \<Rightarrow> [js ''aircraft'', js ''vessel'']),
      we_zones = [], we_last_emit = [], we_last_severity = [], we_inside = [], we_since = []\<rparr>"

definition note_watching :: "int \<Rightarrow> watch_zone \<Rightarrow> (jstring \<times> int) list \<Rightarrow> (jstring \<times> int) list" where
  "note_watching now z m =
     (if \<not> watches_entries z then AList.delete (wz_id z) m
      else if map_of m (wz_id z) = None then AList.update (wz_id z) now m else m)"

definition setZones :: "int \<Rightarrow> watch_zone list \<Rightarrow> evaluator \<Rightarrow> evaluator" where
  "setZones now zones w =
     (let sorted_zones = sort_with (\<lambda>a b. wz_id a < wz_id b) zones;
          since = fold (note_watching now) sorted_zones (we_since w);
          known = (\<lambda>i. i \<in> set (map wz_id sorted_zones));
          gone = filter (\<lambda>k. \<not> known (key_zone k)) (map fst (we_last_emit w))
      in w\<lparr>we_zones := sorted_zones,
           we_last_emit := filter (\<lambda>(k, _). k \<notin> set gone) (we_last_emit w),
           we_last_severity := filter (\<lambda>(k, _). k \<notin> set gone) (we_last_severity w),
           we_inside := filter (\<lambda>k. known (key_zone k)) (we_inside w),
           we_since := filter (\<lambda>(i, _). known i) since\<rparr>)"

definition escalation :: "jstring \<Rightarrow> severity_class option \<Rightarrow> evaluator \<Rightarrow> severity_class option" where
  "escalation k s w =
     (case (map_of (we_last_severity w) k, s) of
        (Some l, Some c) \<Rightarrow> if severityAtLeast (Some c) (Some l) \<and> c \<noteq> l then Some l else None
      | _ \<Rightarrow> None)"

definition noteSeverity :: "jstring \<Rightarrow> severity_class option \<Rightarrow> int \<Rightarrow> evaluator \<Rightarrow> evaluator" where
  "noteSeverity k s now w =
     w\<lparr>we_last_emit := AList.update k now (we_last_emit w),
       we_last_severity := AList.update k (severity_or_info s) (we_last_severity w)\<rparr>"

definition allow_repeat :: "jstring \<Rightarrow> int \<Rightarrow> evaluator \<Rightarrow> evaluator \<times> bool" where
  "allow_repeat k now w =
     (case map_of (we_last_emit w) k of
        Some t \<Rightarrow> if now - t < we_dedupe w then (w, False)
                  else (w\<lparr>we_last_emit := AList.update k now (we_last_emit w)\<rparr>, True)
      | None \<Rightarrow> (w\<lparr>we_last_emit := AList.update k now (we_last_emit w)\<rparr>, True))"

definition consider_zone ::
  "int \<Rightarrow> world_event \<Rightarrow> world_geometry \<Rightarrow> watch_zone \<Rightarrow> evaluator \<times> zone_hit list \<Rightarrow> evaluator \<times> zone_hit list" where
  "consider_zone now e g z = (\<lambda>(w, hits).
     if \<not> wz_enabled z \<or> \<not> zoneAccepts z (ev_type e) then (w, hits)
     else if \<not> severityAtLeast (ev_severity e) (wz_minimum z) then (w, hits)
     else if \<not> geometryIntersectsRegion g (wz_geometry z) then (w, hits)
     else let k = pair_key (wz_id z) (ev_id e);
              rose = escalation k (ev_severity e) w;
              (w', ok) = (if rose = None then allow_repeat k now w else (w, True))
          in if \<not> ok then (w', hits)
             else (noteSeverity k (ev_severity e) now w',
                   hits @ [make_hit z Event_Subject (ev_id e) (entryFromEvent z e now rose)]))"

definition evaluateEvent :: "int \<Rightarrow> world_event \<Rightarrow> evaluator \<Rightarrow> evaluator \<times> zone_hit list" where
  "evaluateEvent now e w =
     (case ev_geometry e of
        None \<Rightarrow> (w, [])
      | Some g \<Rightarrow>
          if ev_type e = WATCH_ZONE_ENTRY then (w, [])
          else if (case ev_end e of
                     Some t \<Rightarrow> t \<noteq> [] \<and> (case date_parse t of Some ms \<Rightarrow> ms \<le> now | None \<Rightarrow> False)
                   | None \<Rightarrow> False) then (w, [])
          else if ev_prop e (js ''withdrawnAt'') \<noteq> None then (w, [])
          else fold (consider_zone now e g) (we_zones w) (w, []))"

definition look_at ::
  "int \<Rightarrow> world_object \<Rightarrow> geo_position \<Rightarrow> watch_zone \<Rightarrow> evaluator \<times> zone_hit list \<Rightarrow> evaluator \<times> zone_hit list" where
  "look_at now ob p z = (\<lambda>(w, hits).
     let k = pair_key (wz_id z) (wo_id ob);
         was_inside = k \<in> set (we_inside w)
     in if \<not> regionContains (wz_geometry z) (place p) then (w\<lparr>we_inside := removeAll k (we_inside w)\<rparr>, hits)
        else let w1 = w\<lparr>we_inside := add_to k (we_inside w)\<rparr>
             in if was_inside then (w1, hits)
                else if (case map_of (we_since w1) (wz_id z) of
                           None \<Rightarrow> True | Some t \<Rightarrow> now - t < WATCH_ZONE_ENTRY_BASELINE_MS) then (w1, hits)
                else if \<not> severityAtLeast (Some OBJECT_ENTRY_SEVERITY) (wz_minimum z) then (w1, hits)
                else (case allow_repeat k now w1 of (w2, ok) \<Rightarrow>
                        if \<not> ok then (w2, hits)
                        else (w2, hits @ [make_hit z Object_Subject (wo_id ob) (entryFromObject z ob now)])))"

definition look_in_zones ::
  "int \<Rightarrow> watch_zone list \<Rightarrow> world_object \<Rightarrow> evaluator \<times> zone_hit list \<Rightarrow> evaluator \<times> zone_hit list" where
  "look_in_zones now zones ob s =
     (case wo_position ob of
        None \<Rightarrow> s
      | Some p \<Rightarrow> if wo_type ob \<notin> set (we_entry_types (fst s)) then s else fold (look_at now ob p) zones s)"

definition evaluateObjects :: "int \<Rightarrow> world_object list \<Rightarrow> evaluator \<Rightarrow> evaluator \<times> zone_hit list" where
  "evaluateObjects now obs w =
     (let zones = filter watches_entries (we_zones w)
      in if zones = [] then (w, []) else fold (look_in_zones now zones) obs (w, []))"

definition ends_with :: "jstring \<Rightarrow> jstring \<Rightarrow> bool" where
  "ends_with e s \<longleftrightarrow> length e \<le> length s \<and> drop (length s - length e) s = e"

definition forgetObject :: "jstring \<Rightarrow> evaluator \<Rightarrow> evaluator" where
  "forgetObject i w = w\<lparr>we_inside := filter (\<lambda>k. \<not> ends_with (jc CHR ''|'' # i) k) (we_inside w)\<rparr>"

section \<open>What geometries touch\<close>

lemma geometryBounds_polygon:
  "geometryBounds g = (if geometry_points g = [] then None else Some (polygonBounds (map flat (geometry_points g))))"
  by (simp add: geometryBounds_def polygonBounds_def Let_def)

definition not_circle :: "geo_region \<Rightarrow> bool" where
  "not_circle region \<longleftrightarrow> (case region of Circle_Region c r \<Rightarrow> False | _ \<Rightarrow> True)"

lemma region_has_bounds:
  assumes "regionContains region p" "not_circle region"
  obtains rb where "regionBounds region = Some rb" "boundsContain rb p"
  using assms polygon_in_bounds
  by (cases region) (auto simp: not_circle_def split: option.splits)

lemma vertex_found:
  assumes c: "c \<in> set (geometry_points g)" and r: "regionContains region (fst (snd c), fst c)" "not_circle region"
  shows "geometryIntersectsRegion g region"
proof -
  obtain rb where rb: "regionBounds region = Some rb" "boundsContain rb (fst (snd c), fst c)"
    using region_has_bounds [OF r] .
  let ?gb = "polygonBounds (map flat (geometry_points g))"
  have "(fst c, fst (snd c)) \<in> set (map flat (geometry_points g))"
    using c by (auto simp: flat_def)
  from polygonBounds_vertices [OF this] have "boundsContain ?gb (fst (snd c), fst c)"
    by (auto simp: boundsContain_def)
  from boundsIntersect_common [OF this rb(2)] have meet: "boundsIntersect ?gb rb" .
  have gb: "geometryBounds g = Some ?gb" using c by (auto simp: geometryBounds_polygon)
  have "\<exists>c\<in>set (geometry_points g). regionContains region (fst (snd c), fst c)" using c r(1) by blast
  then show ?thesis using meet by (simp add: geometryIntersectsRegion_def gb rb(1))
qed

text \<open>
  A geometry with a vertex in a region that is no circle is found to touch it, and a single
  point is found exactly when it lies in the region.
\<close>
lemma intersects_exact:
  assumes "not_circle region"
  shows "(\<exists>c\<in>set (geometry_points g). regionContains region (fst (snd c), fst c)) \<Longrightarrow> geometryIntersectsRegion g region"
    and "geometryIntersectsRegion (Point c) region \<longleftrightarrow> regionContains region (fst (snd c), fst c)"
proof -
  show "(\<exists>c\<in>set (geometry_points g). regionContains region (fst (snd c), fst c)) \<Longrightarrow> geometryIntersectsRegion g region"
    using vertex_found [OF _ _ assms] by blast
  have "geometryIntersectsRegion (Point c) region \<Longrightarrow> regionContains region (fst (snd c), fst c)"
    using assms by (cases region)
      (auto simp: not_circle_def geometryIntersectsRegion_def split: option.splits if_splits)
  then show "geometryIntersectsRegion (Point c) region \<longleftrightarrow> regionContains region (fst (snd c), fst c)"
    using vertex_found [of c "Point c" region] assms by auto
qed

text \<open>A point over the pole is in a circle that reaches over it, and is not found there.\<close>

lemma over_the_pole_not_found:
  "regionContains (Circle_Region \<lparr>latitude = 60, longitude = 0, altitudeM = None, altitudeDatum = None, accuracyM = None\<rparr>
      (EARTH_RADIUS_M * (pi / 3))) (60, 180) \<and>
   \<not> geometryIntersectsRegion (Point (180, 60, None))
      (Circle_Region \<lparr>latitude = 60, longitude = 0, altitudeM = None, altitudeDatum = None, accuracyM = None\<rparr>
      (EARTH_RADIUS_M * (pi / 3)))"
proof -
  let ?b = "circleBounds (60, 0) (EARTH_RADIUS_M * (pi / 3))"
  have box: "geometryBounds (Point (180, 60, None)) = Some \<lparr>west = 180, south = 60, east = 180, north = 60\<rparr>"
    by (simp add: geometryBounds_polygon polygonBounds_def flat_def)
  have "\<not> boundsIntersect \<lparr>west = 180, south = 60, east = 180, north = 60\<rparr> ?b"
  proof
    assume meet: "boundsIntersect \<lparr>west = 180, south = 60, east = 180, north = 60\<rparr> ?b"
    have "south ?b \<le> 60" "60 \<le> north ?b"
      by (auto simp: circleBounds_def Let_def EARTH_RADIUS_M_def DEG_def)
    with meet have "boundsContain ?b (60, 180)"
      by (auto simp: boundsIntersect_def boundsContain_def Let_def split: if_splits)
    with circle_over_pole show False by blast
  qed
  then show ?thesis
    using circle_over_pole by (simp add: geometryIntersectsRegion_def box)
qed

section \<open>Runs\<close>

datatype zone_call =
    Set_Zones int "watch_zone list"
  | Evaluate_Event int world_event
  | Evaluate_Objects int "world_object list"
  | Forget_Object jstring

fun call_time :: "zone_call \<Rightarrow> int option" where
  "call_time (Set_Zones now zs) = Some now"
| "call_time (Evaluate_Event now e) = Some now"
| "call_time (Evaluate_Objects now obs) = Some now"
| "call_time (Forget_Object i) = None"

fun zone_step :: "zone_call \<Rightarrow> evaluator \<Rightarrow> evaluator \<times> zone_hit list" where
  "zone_step (Set_Zones now zs) w = (setZones now zs w, [])"
| "zone_step (Evaluate_Event now e) w = evaluateEvent now e w"
| "zone_step (Evaluate_Objects now obs) w = evaluateObjects now obs w"
| "zone_step (Forget_Object i) w = (forgetObject i w, [])"

text \<open>The hits of a run with the times they were made.\<close>

fun zone_log :: "zone_call list \<Rightarrow> evaluator \<Rightarrow> (int \<times> zone_hit) list" where
  "zone_log [] w = []"
| "zone_log (c # cs) w =
     (case zone_step c w of (w', hits) \<Rightarrow>
        map (\<lambda>h. (case call_time c of Some t \<Rightarrow> t | None \<Rightarrow> 0, h)) hits @ zone_log cs w')"

text \<open>The clock does not run backwards.\<close>

fun in_time :: "int \<Rightarrow> zone_call list \<Rightarrow> bool" where
  "in_time t [] \<longleftrightarrow> True"
| "in_time t (c # cs) \<longleftrightarrow>
     (case call_time c of Some now \<Rightarrow> t \<le> now \<and> in_time now cs | None \<Rightarrow> in_time t cs)"

text \<open>Zone \<open>z\<close> stays: no list of zones that is set leaves it out, and the ids hold no bar.\<close>

definition plain_id :: "jstring \<Rightarrow> bool" where
  "plain_id i \<longleftrightarrow> jc CHR ''|'' \<notin> set i"

fun zone_stays :: "jstring \<Rightarrow> zone_call \<Rightarrow> bool" where
  "zone_stays z (Set_Zones now zs) \<longleftrightarrow> z \<in> wz_id ` set zs \<and> (\<forall>y\<in>set zs. plain_id (wz_id y))"
| "zone_stays z c \<longleftrightarrow> True"

definition about :: "jstring \<Rightarrow> jstring \<Rightarrow> (int \<times> zone_hit) list \<Rightarrow> (int \<times> zone_hit) list" where
  "about z s L = filter (\<lambda>(t, h). zh_kind h = Event_Subject \<and> wz_id (zh_zone h) = z \<and> zh_subject h = s) L"

abbreviation hit_severity :: "zone_hit \<Rightarrow> severity_class" where
  "hit_severity h \<equiv> nt_severity (zh_notification h)"

text \<open>A later hit comes after the window, or is more severe.\<close>

definition news_after :: "int \<Rightarrow> int \<times> zone_hit \<Rightarrow> int \<times> zone_hit \<Rightarrow> bool" where
  "news_after D a b \<longleftrightarrow> D \<le> fst b - fst a \<or> hit_severity (snd a) < hit_severity (snd b)"

definition remembers :: "int \<Rightarrow> jstring \<Rightarrow> jstring \<Rightarrow> int \<Rightarrow> evaluator \<Rightarrow> (int \<times> zone_hit) list \<Rightarrow> bool" where
  "remembers D z s clock w L \<longleftrightarrow>
     we_dedupe w = D \<and> (\<forall>y\<in>set (we_zones w). plain_id (wz_id y)) \<and>
     sorted_wrt (news_after D) (about z s L) \<and>
     (about z s L \<noteq> [] \<longrightarrow>
       (\<exists>sev te. map_of (we_last_severity w) (pair_key z s) = Some sev \<and>
          map_of (we_last_emit w) (pair_key z s) = Some te \<and> te \<le> clock \<and>
          (\<forall>a\<in>set (about z s L). fst a \<le> te \<and> (hit_severity (snd a) \<le> sev \<or> D \<le> te - fst a))))"

lemma pair_key_inj:
  assumes "plain_id a" "plain_id b"
  shows "pair_key a s = pair_key b t \<longleftrightarrow> a = b \<and> s = t"
proof
  assume eq: "pair_key a s = pair_key b t"
  have "takeWhile (\<lambda>c. c \<noteq> jc CHR ''|'') (x @ jc CHR ''|'' # y) = x" if "plain_id x" for x y :: jstring
    using that by (simp add: plain_id_def takeWhile_append2 takeWhile_tail) (metis takeWhile_eq_all_conv takeWhile_tail)
  with eq assms have "a = b" unfolding pair_key_def by metis
  with eq show "a = b \<and> s = t" by (simp add: pair_key_def)
qed simp

lemma key_zone_pair: "plain_id z \<Longrightarrow> key_zone (pair_key z s) = z"
  by (simp add: key_zone_def pair_key_def plain_id_def)

lemma about_append: "about z s (L @ M) = about z s L @ about z s M"
  by (simp add: about_def)

lemma allow_repeat_cases:
  assumes "allow_repeat k now w = (w', ok)"
  shows "(\<not> ok \<and> w' = w \<and> (\<exists>t. map_of (we_last_emit w) k = Some t \<and> now - t < we_dedupe w)) \<or>
    (ok \<and> w' = w\<lparr>we_last_emit := AList.update k now (we_last_emit w)\<rparr> \<and>
      (\<forall>t. map_of (we_last_emit w) k = Some t \<longrightarrow> we_dedupe w \<le> now - t))"
  using assms by (auto simp: allow_repeat_def split: option.splits if_splits)

lemma escalation_Some:
  "escalation k s w = Some l \<Longrightarrow> map_of (we_last_severity w) k = Some l \<and> l < severity_or_info s"
  by (auto simp: escalation_def severityAtLeast_le severity_or_info_def split: option.splits if_splits)

lemma remembers_frame:
  assumes r: "remembers D z s clock w L" and later: "clock \<le> now"
    and same: "we_dedupe w' = we_dedupe w" "\<forall>y\<in>set (we_zones w'). plain_id (wz_id y)"
      "map_of (we_last_severity w') (pair_key z s) = map_of (we_last_severity w) (pair_key z s)"
    and emit: "map_of (we_last_emit w') (pair_key z s) = map_of (we_last_emit w) (pair_key z s) \<or>
      map_of (we_last_emit w') (pair_key z s) = Some now"
    and L: "about z s L' = about z s L"
  shows "remembers D z s now w' L'"
proof -
  have base: "we_dedupe w' = D" "sorted_wrt (news_after D) (about z s L')"
    using r same(1) by (simp_all add: remembers_def L)
  moreover have "\<exists>sev te. map_of (we_last_severity w') (pair_key z s) = Some sev \<and>
      map_of (we_last_emit w') (pair_key z s) = Some te \<and> te \<le> now \<and>
      (\<forall>a\<in>set (about z s L). fst a \<le> te \<and> (hit_severity (snd a) \<le> sev \<or> D \<le> te - fst a))"
    if "about z s L \<noteq> []"
  proof -
    obtain sev te where k: "map_of (we_last_severity w) (pair_key z s) = Some sev"
      "map_of (we_last_emit w) (pair_key z s) = Some te" "te \<le> clock"
      and a: "\<forall>a\<in>set (about z s L). fst a \<le> te \<and> (hit_severity (snd a) \<le> sev \<or> D \<le> te - fst a)"
      using r \<open>about z s L \<noteq> []\<close> unfolding remembers_def by blast
    have a': "\<forall>a\<in>set (about z s L). fst a \<le> now \<and> (hit_severity (snd a) \<le> sev \<or> D \<le> now - fst a)"
      using a k(3) later by fastforce
    from emit show ?thesis
    proof
      assume "map_of (we_last_emit w') (pair_key z s) = map_of (we_last_emit w) (pair_key z s)"
      with k a later same(3) show ?thesis by fastforce
    next
      assume "map_of (we_last_emit w') (pair_key z s) = Some now"
      with k a' same(3) show ?thesis by fastforce
    qed
  qed
  ultimately show ?thesis unfolding remembers_def L using same(2) by blast
qed

lemma remembers_hit:
  assumes r: "remembers D z s now w L"
    and news: "(\<exists>l. map_of (we_last_severity w) (pair_key z s) = Some l \<and> l < hit_severity h) \<or>
      (\<forall>t. map_of (we_last_emit w) (pair_key z s) = Some t \<longrightarrow> D \<le> now - t)"
    and h: "about z s [(now, h)] = [(now, h)]"
    and w': "we_dedupe w' = we_dedupe w" "we_zones w' = we_zones w"
      "map_of (we_last_emit w') (pair_key z s) = Some now"
      "map_of (we_last_severity w') (pair_key z s) = Some (hit_severity h)"
  shows "remembers D z s now w' (L @ [(now, h)])"
proof -
  have before: "fst a \<le> now \<and> news_after D a (now, h)" if a: "a \<in> set (about z s L)" for a
  proof -
    have "about z s L \<noteq> []" using a by auto
    then obtain sev te where k: "map_of (we_last_severity w) (pair_key z s) = Some sev"
      "map_of (we_last_emit w) (pair_key z s) = Some te" "te \<le> now"
      and all: "\<forall>a\<in>set (about z s L). fst a \<le> te \<and> (hit_severity (snd a) \<le> sev \<or> D \<le> te - fst a)"
      using r unfolding remembers_def by blast
    have a': "fst a \<le> te" "hit_severity (snd a) \<le> sev \<or> D \<le> te - fst a" using all a by blast+
    from news show ?thesis
    proof
      assume "\<exists>l. map_of (we_last_severity w) (pair_key z s) = Some l \<and> l < hit_severity h"
      then have "sev < hit_severity h" using k(1) by simp
      with a' k(3) show ?thesis by (auto simp: news_after_def)
    next
      assume "\<forall>t. map_of (we_last_emit w) (pair_key z s) = Some t \<longrightarrow> D \<le> now - t"
      then have "D \<le> now - te" using k(2) by blast
      with a' k(3) show ?thesis by (auto simp: news_after_def)
    qed
  qed
  have L': "about z s (L @ [(now, h)]) = about z s L @ [(now, h)]" by (simp add: about_append h)
  have "sorted_wrt (news_after D) (about z s L)" "we_dedupe w = D" "\<forall>y\<in>set (we_zones w). plain_id (wz_id y)"
    using r by (simp_all add: remembers_def)
  moreover have "\<forall>a\<in>set (about z s L @ [(now, h)]).
      fst a \<le> now \<and> (hit_severity (snd a) \<le> hit_severity h \<or> D \<le> now - fst a)"
    using before by (fastforce simp: news_after_def intro: less_imp_le)
  ultimately show ?thesis
    unfolding remembers_def L' using before w' by (auto simp: sorted_wrt_append)
qed

lemma make_hit_simps [simp]:
  "zh_kind (make_hit z k s e) = k" "zh_zone (make_hit z k s e) = z" "zh_subject (make_hit z k s e) = s"
  "hit_severity (make_hit z k s e) = severity_or_info (ev_severity e)"
  by (simp_all add: make_hit_def)

lemma severity_entry [simp]: "severity_or_info (ev_severity (entryFromEvent z e now r)) = severity_or_info (ev_severity e)"
  by (simp add: entryFromEvent_def Let_def severity_or_info_def)

lemma consider_zone_cases:
  assumes "consider_zone now e g y (w, hits) = (w', hits')"
  obtains "w' = w" "hits' = hits"
  | h where "hits' = hits @ [h]" "zh_kind h = Event_Subject" "zh_zone h = y" "zh_subject h = ev_id e"
      "hit_severity h = severity_or_info (ev_severity e)"
      "w' = noteSeverity (pair_key (wz_id y) (ev_id e)) (ev_severity e) now w"
      "(\<exists>l. map_of (we_last_severity w) (pair_key (wz_id y) (ev_id e)) = Some l \<and> l < hit_severity h) \<or>
       (\<forall>t. map_of (we_last_emit w) (pair_key (wz_id y) (ev_id e)) = Some t \<longrightarrow> we_dedupe w \<le> now - t)"
      "wz_enabled y" "zoneAccepts y (ev_type e)" "severityAtLeast (ev_severity e) (wz_minimum y)"
      "geometryIntersectsRegion g (wz_geometry y)"
proof (cases "wz_enabled y \<and> zoneAccepts y (ev_type e) \<and> severityAtLeast (ev_severity e) (wz_minimum y) \<and>
    geometryIntersectsRegion g (wz_geometry y)")
  case False
  with assms have "w' = w" "hits' = hits" by (auto simp: consider_zone_def split: if_splits)
  with that(1) show thesis by blast
next
  case True
  let ?k = "pair_key (wz_id y) (ev_id e)"
  define rose where "rose = escalation ?k (ev_severity e) w"
  let ?h = "make_hit y Event_Subject (ev_id e) (entryFromEvent y e now rose)"
  show thesis
  proof (cases rose)
    case (Some l)
    then have "w' = noteSeverity ?k (ev_severity e) now w" "hits' = hits @ [?h]"
      using assms True by (simp_all add: consider_zone_def Let_def rose_def [symmetric])
    moreover have "map_of (we_last_severity w) ?k = Some l \<and> l < hit_severity ?h"
      using escalation_Some [of ?k "ev_severity e" w l] Some by (simp add: rose_def)
    ultimately show thesis using that(2) [of ?h] True by auto
  next
    case None
    obtain w1 ok where al: "allow_repeat ?k now w = (w1, ok)" by fastforce
    show thesis
    proof (cases ok)
      case False
      with allow_repeat_cases [OF al] have "w1 = w" by blast
      with False None al assms True that(1) show thesis
        by (simp add: consider_zone_def Let_def rose_def [symmetric])
    next
      case ok: True
      with allow_repeat_cases [OF al] have w1: "w1 = w\<lparr>we_last_emit := AList.update ?k now (we_last_emit w)\<rparr>"
        and t: "\<forall>t. map_of (we_last_emit w) ?k = Some t \<longrightarrow> we_dedupe w \<le> now - t" by blast+
      have "AList.update ?k now (AList.update ?k now m) = AList.update ?k now m" for m :: "(jstring \<times> int) list"
        by (induction m) auto
      then have "noteSeverity ?k (ev_severity e) now w1 = noteSeverity ?k (ev_severity e) now w"
        by (simp add: w1 noteSeverity_def)
      then have "w' = noteSeverity ?k (ev_severity e) now w" "hits' = hits @ [?h]"
        using assms True ok None al by (simp_all add: consider_zone_def Let_def rose_def [symmetric])
      with t show thesis using that(2) [of ?h] True by auto
    qed
  qed
qed

lemma remembers_consider:
  assumes r: "remembers D z s now w (L @ map (Pair now) hits)" and z: "plain_id z" and y: "plain_id (wz_id y)"
    and c: "consider_zone now e g y (w, hits) = (w', hits')"
  shows "remembers D z s now w' (L @ map (Pair now) hits') \<and> we_zones w' = we_zones w"
  using c
proof (cases rule: consider_zone_cases)
  case 1
  with r show ?thesis by simp
next
  case (2 h)
  note zones = r [unfolded remembers_def, THEN conjunct2, THEN conjunct1]
  have D: "we_dedupe w = D" using r by (simp add: remembers_def)
  have zs: "we_zones w' = we_zones w" "we_dedupe w' = we_dedupe w" using 2(6) by (simp_all add: noteSeverity_def)
  show ?thesis
  proof (cases "wz_id y = z \<and> ev_id e = s")
    case True
    then have "about z s [(now, h)] = [(now, h)]" using 2(2-4) by (simp add: about_def)
    moreover have "map_of (we_last_emit w') (pair_key z s) = Some now"
      "map_of (we_last_severity w') (pair_key z s) = Some (hit_severity h)"
      using True 2(5,6) by (simp_all add: noteSeverity_def map_simps)
    ultimately have "remembers D z s now w' ((L @ map (Pair now) hits) @ [(now, h)])"
      using 2(7) True D zs by (intro remembers_hit [OF r]) auto
    then show ?thesis using 2(1) zs by simp
  next
    case False
    then have k: "pair_key z s \<noteq> pair_key (wz_id y) (ev_id e)" using pair_key_inj [OF z y] by auto
    have "remembers D z s now w' (L @ map (Pair now) hits')"
    proof (rule remembers_frame [OF r order_refl zs(2)])
      show "\<forall>y\<in>set (we_zones w'). plain_id (wz_id y)" using zones zs by simp
      show "map_of (we_last_severity w') (pair_key z s) = map_of (we_last_severity w) (pair_key z s)"
        "map_of (we_last_emit w') (pair_key z s) = map_of (we_last_emit w) (pair_key z s) \<or>
         map_of (we_last_emit w') (pair_key z s) = Some now"
        using k 2(6) by (simp_all add: noteSeverity_def map_simps)
      show "about z s (L @ map (Pair now) hits') = about z s (L @ map (Pair now) hits)"
        using False 2(1,3,4) by (auto simp: about_def)
    qed
    with zs show ?thesis by simp
  qed
qed

lemma remembers_zones:
  "remembers D z s now w (L @ map (Pair now) hits) \<Longrightarrow> plain_id z \<Longrightarrow> \<forall>y\<in>set ys. plain_id (wz_id y) \<Longrightarrow>
    fold (consider_zone now e g) ys (w, hits) = (w', hits') \<Longrightarrow> remembers D z s now w' (L @ map (Pair now) hits')"
proof (induction ys arbitrary: w hits)
  case (Cons y ys)
  obtain w1 h1 where c: "consider_zone now e g y (w, hits) = (w1, h1)" by fastforce
  with Cons.prems remembers_consider [OF Cons.prems(1,2) _ c] Cons.IH [of w1 h1] show ?case by simp
qed simp

lemma remembers_event:
  assumes r: "remembers D z s clock w L" and "clock \<le> now" "plain_id z" "evaluateEvent now e w = (w', hits)"
  shows "remembers D z s now w' (L @ map (Pair now) hits)"
proof -
  have zs: "\<forall>y\<in>set (we_zones w). plain_id (wz_id y)" using r by (simp add: remembers_def)
  have r': "remembers D z s now w (L @ map (Pair now) [])"
    by (rule remembers_frame [OF r assms(2) refl]) (use zs in simp_all)
  have "(w', hits) = (w, []) \<or> (\<exists>g. fold (consider_zone now e g) (we_zones w) (w, []) = (w', hits))"
    using assms(4) by (auto simp: evaluateEvent_def split: option.splits if_splits)
  then show ?thesis using r' remembers_zones [OF r' assms(3) zs] by blast
qed

text \<open>Objects change what is remembered only by putting off the end of a window.\<close>

lemma look_at_frame:
  assumes "look_at now ob p y (w, hits) = (w', hits')"
  shows "we_dedupe w' = we_dedupe w \<and> we_zones w' = we_zones w \<and> we_last_severity w' = we_last_severity w \<and>
    we_entry_types w' = we_entry_types w \<and>
    (\<forall>k. map_of (we_last_emit w') k = map_of (we_last_emit w) k \<or> map_of (we_last_emit w') k = Some now) \<and>
    (\<exists>hs. hits' = hits @ hs \<and> (\<forall>h\<in>set hs. zh_kind h = Object_Subject))"
  using assms
  by (auto simp: look_at_def Let_def allow_repeat_def map_simps split: if_splits option.splits)

definition only_puts_off :: "int \<Rightarrow> evaluator \<times> zone_hit list \<Rightarrow> evaluator \<times> zone_hit list \<Rightarrow> bool" where
  "only_puts_off now a b \<longleftrightarrow>
     we_dedupe (fst b) = we_dedupe (fst a) \<and> we_zones (fst b) = we_zones (fst a) \<and>
     we_last_severity (fst b) = we_last_severity (fst a) \<and>
     (\<forall>k. map_of (we_last_emit (fst b)) k = map_of (we_last_emit (fst a)) k \<or> map_of (we_last_emit (fst b)) k = Some now) \<and>
     (\<exists>hs. snd b = snd a @ hs \<and> (\<forall>h\<in>set hs. zh_kind h = Object_Subject))"

lemma only_puts_off_refl: "only_puts_off now a a"
  by (simp add: only_puts_off_def)

lemma only_puts_off_trans:
  assumes ab: "only_puts_off now a b" and bc: "only_puts_off now b c"
  shows "only_puts_off now a c"
proof -
  obtain h1 h2 where "snd b = snd a @ h1" "snd c = snd b @ h2"
    "\<forall>h\<in>set h1. zh_kind h = Object_Subject" "\<forall>h\<in>set h2. zh_kind h = Object_Subject"
    using ab bc unfolding only_puts_off_def by blast
  then have "snd c = snd a @ (h1 @ h2) \<and> (\<forall>h\<in>set (h1 @ h2). zh_kind h = Object_Subject)" by auto
  moreover have "map_of (we_last_emit (fst c)) k = map_of (we_last_emit (fst a)) k \<or>
      map_of (we_last_emit (fst c)) k = Some now" for k
    using ab bc unfolding only_puts_off_def by metis
  ultimately show ?thesis using ab bc unfolding only_puts_off_def by metis
qed

lemma only_puts_off_fold:
  assumes step: "\<And>x a. only_puts_off now a (f x a)"
  shows "only_puts_off now a (fold f xs a)"
proof (induction xs arbitrary: a)
  case (Cons x xs)
  show ?case using only_puts_off_trans [OF step Cons.IH] by simp
qed (simp add: only_puts_off_refl)

lemma only_puts_off_look: "only_puts_off now a (look_at now ob p y a)"
  using look_at_frame [of now ob p y "fst a" "snd a" "fst (look_at now ob p y a)" "snd (look_at now ob p y a)"]
  by (simp add: only_puts_off_def)

lemma only_puts_off_objects: "only_puts_off now (w, []) (evaluateObjects now obs w)"
proof -
  have "only_puts_off now a (look_in_zones now zones ob a)" for zones ob a
    by (auto simp: look_in_zones_def only_puts_off_refl split: option.split
        intro: only_puts_off_fold only_puts_off_look)
  then show ?thesis
    by (simp add: evaluateObjects_def Let_def only_puts_off_refl only_puts_off_fold)
qed

lemma about_objects: "(\<forall>h\<in>set hs. zh_kind h = Object_Subject) \<Longrightarrow> about z s (L @ map (Pair now) hs) = about z s L"
  by (auto simp: about_def filter_empty_conv)

lemma map_of_keep: "P k \<Longrightarrow> map_of (filter (\<lambda>(k, _). P k) m) k = map_of m k"
  by (induction m) auto

lemma remembers_set:
  assumes r: "remembers D z s clock w L" and "clock \<le> now" and z: "plain_id z"
    and stays: "zone_stays z (Set_Zones now zs)"
  shows "remembers D z s now (setZones now zs w) L"
proof (rule remembers_frame [OF r \<open>clock \<le> now\<close> _ _ _ _ refl])
  let ?gone = "filter (\<lambda>k. \<not> key_zone k \<in> set (map wz_id (sort_with (\<lambda>a b. wz_id a < wz_id b) zs)))
    (map fst (we_last_emit w))"
  have keep: "pair_key z s \<notin> set ?gone" using stays by (simp add: key_zone_pair [OF z])
  show "we_dedupe (setZones now zs w) = we_dedupe w" by (simp add: setZones_def Let_def)
  show "\<forall>y\<in>set (we_zones (setZones now zs w)). plain_id (wz_id y)"
    using stays by (simp add: setZones_def Let_def)
  show "map_of (we_last_severity (setZones now zs w)) (pair_key z s) = map_of (we_last_severity w) (pair_key z s)"
    using map_of_keep [of "\<lambda>k. k \<notin> set ?gone", OF keep] by (simp add: setZones_def Let_def)
  show "map_of (we_last_emit (setZones now zs w)) (pair_key z s) = map_of (we_last_emit w) (pair_key z s) \<or>
      map_of (we_last_emit (setZones now zs w)) (pair_key z s) = Some now"
    using map_of_keep [of "\<lambda>k. k \<notin> set ?gone" _ "we_last_emit w", OF keep] by (simp add: setZones_def Let_def)
qed

lemma remembers_objects:
  assumes r: "remembers D z s clock w L" and "clock \<le> now" and "evaluateObjects now obs w = (w', hits)"
  shows "remembers D z s now w' (L @ map (Pair now) hits)"
proof (rule remembers_frame [OF r \<open>clock \<le> now\<close>])
  have p: "only_puts_off now (w, []) (w', hits)" using only_puts_off_objects [of now w obs] assms(3) by simp
  show "we_dedupe w' = we_dedupe w" using p by (simp add: only_puts_off_def)
  show "\<forall>y\<in>set (we_zones w'). plain_id (wz_id y)" using p r by (simp add: only_puts_off_def remembers_def)
  show "map_of (we_last_severity w') (pair_key z s) = map_of (we_last_severity w) (pair_key z s)"
    using p by (simp add: only_puts_off_def)
  show "map_of (we_last_emit w') (pair_key z s) = map_of (we_last_emit w) (pair_key z s) \<or>
      map_of (we_last_emit w') (pair_key z s) = Some now"
    using p unfolding only_puts_off_def by simp
  show "about z s (L @ map (Pair now) hits) = about z s L"
    using p by (simp add: only_puts_off_def about_objects)
qed

lemma remembers_forget: "remembers D z s clock w L \<Longrightarrow> remembers D z s clock (forgetObject i w) L"
  by (simp add: remembers_def forgetObject_def)

lemma remembers_run:
  "remembers D z s clock w L \<Longrightarrow> in_time clock cs \<Longrightarrow> \<forall>c\<in>set cs. zone_stays z c \<Longrightarrow> plain_id z \<Longrightarrow>
    \<exists>w' clock'. remembers D z s clock' w' (L @ zone_log cs w)"
proof (induction cs arbitrary: clock w L)
  case (Cons c cs)
  obtain w1 hits where st: "zone_step c w = (w1, hits)" by fastforce
  show ?case
  proof (cases "call_time c")
    case None
    then obtain i where c: "c = Forget_Object i" by (cases c) auto
    with Cons.prems st Cons.IH [OF remembers_forget [OF Cons.prems(1)]] show ?thesis by auto
  next
    case (Some now)
    then have le: "clock \<le> now" "in_time now cs" using Cons.prems(2) by simp_all
    have "remembers D z s now w1 (L @ map (Pair now) hits)"
    proof (cases c)
      case (Set_Zones n zs)
      then show ?thesis using st Some remembers_set [OF Cons.prems(1) le(1) Cons.prems(4)] Cons.prems(3) by auto
    next
      case (Evaluate_Event n e)
      then show ?thesis using st Some remembers_event [OF Cons.prems(1) le(1) Cons.prems(4)] by auto
    next
      case (Evaluate_Objects n obs)
      then show ?thesis using st Some remembers_objects [OF Cons.prems(1) le(1)] by auto
    qed (use Some in simp)
    from Cons.IH [OF this le(2)] Cons.prems(3,4) show ?thesis using st Some by simp
  qed
qed auto

lemma five_severities:
  assumes "sorted_wrt (\<lambda>a b. hit_severity (snd a) < hit_severity (snd b)) L"
  shows "length L \<le> 5"
proof -
  let ?f = "\<lambda>a. SEVERITY_ORDER (hit_severity (snd a))"
  have "sorted_wrt (<) (map ?f L)"
    using assms by (simp add: sorted_wrt_map less_severity_class_def)
  then have d: "distinct (map ?f L)" by (simp add: strict_sorted_iff)
  have five: "SEVERITY_ORDER x < 5" for x by (cases x) simp_all
  then have "set (map ?f L) \<subseteq> {..<5}" by auto
  from card_mono [OF _ this] distinct_card [OF d] show ?thesis by simp
qed

text \<open>
  C16: While a zone stays, two hits of it about the same event are a whole dedupe window
  apart or the later one is more severe, whatever else is evaluated or set in between; so no
  stretch of time as long as the window holds more than five of them.
\<close>
theorem repeats_are_news:
  fixes D :: int
  assumes "plain_id z" and "in_time t0 cs" and "\<forall>c\<in>set cs. zone_stays z c"
  shows "sorted_wrt (news_after D) (about z s (zone_log cs (new_evaluator (Some D) types))) \<and>
    length (filter (\<lambda>(t, h). T \<le> t \<and> t < T + D) (about z s (zone_log cs (new_evaluator (Some D) types)))) \<le> 5"
proof -
  define L where "L = about z s (zone_log cs (new_evaluator (Some D) types))"
  have "remembers D z s t0 (new_evaluator (Some D) types) []"
    by (simp add: remembers_def new_evaluator_def about_def)
  from remembers_run [OF this assms(2,3,1)] have sorted: "sorted_wrt (news_after D) L"
    by (auto simp: remembers_def L_def)
  then have "sorted_wrt (news_after D) (filter (\<lambda>(t, h). T \<le> t \<and> t < T + D) L)"
    by (rule sorted_wrt_filter)
  then have "sorted_wrt (\<lambda>a b. hit_severity (snd a) < hit_severity (snd b)) (filter (\<lambda>(t, h). T \<le> t \<and> t < T + D) L)"
    by (rule sorted_wrt_mono_rel [rotated]) (auto simp: news_after_def)
  then have "length (filter (\<lambda>(t, h). T \<le> t \<and> t < T + D) L) \<le> 5" by (rule five_severities)
  with sorted show ?thesis unfolding L_def by blast
qed

section \<open>Entries\<close>

text \<open>When a zone announces an object it has in its area.\<close>

definition announces :: "int \<Rightarrow> world_object \<Rightarrow> geo_position \<Rightarrow> evaluator \<Rightarrow> watch_zone \<Rightarrow> bool" where
  "announces now ob p w z \<longleftrightarrow>
     (let k = pair_key (wz_id z) (wo_id ob)
      in regionContains (wz_geometry z) (place p) \<and> k \<notin> set (we_inside w) \<and>
         (\<exists>t. map_of (we_since w) (wz_id z) = Some t \<and> WATCH_ZONE_ENTRY_BASELINE_MS \<le> now - t) \<and>
         severityAtLeast (Some MINOR) (wz_minimum z) \<and>
         (\<forall>t. map_of (we_last_emit w) k = Some t \<longrightarrow> we_dedupe w \<le> now - t))"

definition same_for :: "jstring \<Rightarrow> evaluator \<Rightarrow> evaluator \<Rightarrow> bool" where
  "same_for k a b \<longleftrightarrow> we_dedupe a = we_dedupe b \<and> we_since a = we_since b \<and> (k \<in> set (we_inside a) \<longleftrightarrow> k \<in> set (we_inside b)) \<and>
     map_of (we_last_emit a) k = map_of (we_last_emit b) k"

lemma look_at_result:
  assumes "look_at now ob p z (w, hits) = (w', hits')"
  shows "map zh_zone hits' = map zh_zone hits @ (if announces now ob p w z then [z] else [])"
    and "pair_key (wz_id z) (wo_id ob) \<in> set (we_inside w') \<longleftrightarrow> regionContains (wz_geometry z) (place p)"
    and "k \<noteq> pair_key (wz_id z) (wo_id ob) \<Longrightarrow> same_for k w' w"
  using assms
  by (auto simp: look_at_def Let_def announces_def allow_repeat_def same_for_def map_simps OBJECT_ENTRY_SEVERITY_def
      split: if_splits option.splits)

lemma announces_same:
  "same_for (pair_key (wz_id z) (wo_id ob)) w' w \<Longrightarrow> announces now ob p w' z \<longleftrightarrow> announces now ob p w z"
  by (simp add: announces_def same_for_def Let_def)

lemma look_at_zones:
  "fold (look_at now ob p) zs (w, hits) = (w', hits') \<Longrightarrow> distinct (map wz_id zs) \<Longrightarrow>
    \<forall>z\<in>set zs. plain_id (wz_id z) \<Longrightarrow>
    map zh_zone hits' = map zh_zone hits @ filter (announces now ob p w) zs \<and>
    (\<forall>z\<in>set zs. pair_key (wz_id z) (wo_id ob) \<in> set (we_inside w') \<longleftrightarrow> regionContains (wz_geometry z) (place p)) \<and>
    (\<forall>k. k \<notin> (\<lambda>z. pair_key (wz_id z) (wo_id ob)) ` set zs \<longrightarrow> same_for k w' w)"
proof (induction zs arbitrary: w hits)
  case Nil
  then show ?case by (simp add: same_for_def)
next
  case (Cons z zs)
  obtain w1 h1 where l: "look_at now ob p z (w, hits) = (w1, h1)" by fastforce
  note r = look_at_result [OF l]
  have "fold (look_at now ob p) zs (w1, h1) = (w', hits')" using Cons.prems(1) l by simp
  note ih = Cons.IH [OF this]
  have other: "pair_key (wz_id y) (wo_id ob) \<noteq> pair_key (wz_id z) (wo_id ob)" if "y \<in> set zs" for y
    using that Cons.prems(2,3) pair_key_inj by (metis distinct.simps(2) image_eqI list.map(2) list.set_map list.set_intros)
  have "announces now ob p w1 y \<longleftrightarrow> announces now ob p w y" if "y \<in> set zs" for y
    by (rule announces_same [OF r(3) [OF other [OF that]]])
  then have eq: "filter (announces now ob p w1) zs = filter (announces now ob p w) zs"
    by (intro filter_cong) simp_all
  have mine: "pair_key (wz_id z) (wo_id ob) \<notin> (\<lambda>z. pair_key (wz_id z) (wo_id ob)) ` set zs"
    using other by fastforce
  from ih Cons.prems(2,3) have tail: "map zh_zone hits' = map zh_zone h1 @ filter (announces now ob p w1) zs"
    "\<forall>y\<in>set zs. pair_key (wz_id y) (wo_id ob) \<in> set (we_inside w') \<longleftrightarrow> regionContains (wz_geometry y) (place p)"
    "\<forall>k. k \<notin> (\<lambda>z. pair_key (wz_id z) (wo_id ob)) ` set zs \<longrightarrow> same_for k w' w1"
    by simp_all
  have "pair_key (wz_id z) (wo_id ob) \<in> set (we_inside w') \<longleftrightarrow> regionContains (wz_geometry z) (place p)"
    using tail(3) mine r(2) by (auto simp: same_for_def)
  moreover have "same_for k w' w" if "k \<notin> (\<lambda>z. pair_key (wz_id z) (wo_id ob)) ` set (z # zs)" for k
  proof -
    have "same_for k w' w1" "same_for k w1 w" using that tail(3) r(3) by auto
    then show ?thesis by (simp add: same_for_def)
  qed
  moreover have "map zh_zone hits' = map zh_zone hits @ filter (announces now ob p w) (z # zs)"
    using tail(1) r(1) eq by simp
  ultimately show ?case using tail(2) by simp
qed

text \<open>
  C22: Looking at an object announces it exactly in the watching zones that contain it, did
  not contain it when it was last looked at, have been watching for a minute, admit minor events
  and have not announced it within the dedupe window; and then it counts as inside exactly the
  zones that contain it.
\<close>
theorem entries_are_transitions:
  assumes "evaluateObjects now [ob] w = (w', hits)"
    and "wo_position ob = Some p" and "wo_type ob \<in> set (we_entry_types w)"
    and "distinct (map wz_id (we_zones w))" and "\<forall>z\<in>set (we_zones w). plain_id (wz_id z)"
  shows "map zh_zone hits = filter (\<lambda>z. watches_entries z \<and> announces now ob p w z) (we_zones w) \<and>
    (\<forall>z\<in>set (we_zones w). watches_entries z \<longrightarrow>
      (pair_key (wz_id z) (wo_id ob) \<in> set (we_inside w') \<longleftrightarrow> regionContains (wz_geometry z) (place p)))"
proof (cases "filter watches_entries (we_zones w) = []")
  case True
  with assms(1) show ?thesis by (auto simp: evaluateObjects_def filter_empty_conv)
next
  case False
  with assms(1-3) have "fold (look_at now ob p) (filter watches_entries (we_zones w)) (w, []) = (w', hits)"
    by (simp add: evaluateObjects_def Let_def look_in_zones_def)
  from look_at_zones [OF this] assms(4,5) show ?thesis
    by (auto simp: distinct_map_filter conj_commute)
qed

section \<open>Examples\<close>

definition sample_zone :: watch_zone where
  "sample_zone = \<lparr>wz_id = js ''z'', wz_name = js ''North'',
     wz_geometry = Bounds_Region \<lparr>west = -10, south = -10, east = 10, north = 10\<rparr>,
     wz_types = [], wz_minimum = None, wz_in_app = True, wz_desktop = True, wz_desktop_minimum = None,
     wz_quiet = None, wz_enabled = True, wz_created = []\<rparr>"

definition watched_event :: "severity_class \<Rightarrow> world_event" where
  "watched_event s = sample_event\<lparr>ev_geometry := Some (Point (0, 0, None)), ev_severity := Some s\<rparr>"

lemma watched_event_simps [simp]:
  "ev_geometry (watched_event s) = Some (Point (0, 0, None))" "ev_severity (watched_event s) = Some s"
  "ev_end (watched_event s) = None" "ev_properties (watched_event s) = None" "ev_id (watched_event s) = js ''e1''"
  "ev_type (watched_event s) \<noteq> WATCH_ZONE_ENTRY"
  by (simp_all add: watched_event_def sample_event_def WATCH_ZONE_ENTRY_def)

lemma sample_zone_simps [simp]:
  "wz_id sample_zone = js ''z''" "wz_enabled sample_zone" "wz_minimum sample_zone = None"
  "zoneAccepts sample_zone ty" "geometryIntersectsRegion (Point (0, 0, None)) (wz_geometry sample_zone)"
  by (simp_all add: sample_zone_def zoneAccepts_def intersects_exact not_circle_def boundsContain_def)

definition sample_run :: "zone_call list" where
  "sample_run = [Set_Zones 0 [sample_zone], Evaluate_Event 1 (watched_event MINOR),
     Evaluate_Event 2 (watched_event MINOR), Evaluate_Event 3 (watched_event SEVERE)]"

lemma sample_about:
  "map (\<lambda>(t, h). (t, hit_severity h)) (about (js ''z'') (js ''e1'') (zone_log sample_run (new_evaluator (Some 1000) None))) =
    [(1, MINOR), (3, SEVERE)]"
  by (simp add: sample_run_def new_evaluator_def setZones_def Let_def sort_with_def place_in_def note_watching_def
      evaluateEvent_def ev_prop_def consider_zone_def severityAtLeast_def allow_repeat_def
      noteSeverity_def escalation_def about_def AList.update.simps del: js_simps)

theorem repeats_are_news_witness:
  "map (\<lambda>(t, h). (t, hit_severity h)) (about (js ''z'') (js ''e1'') (zone_log sample_run (new_evaluator (Some 1000) None))) =
     [(1, MINOR), (3, SEVERE)] \<and>
   sorted_wrt (news_after 1000) (about (js ''z'') (js ''e1'') (zone_log sample_run (new_evaluator (Some 1000) None)))"
proof -
  have "plain_id (js ''z'')" by (simp add: plain_id_def)
  moreover have "in_time 0 sample_run" by (simp add: sample_run_def)
  moreover have "zone_stays (js ''z'') c" if "c \<in> set sample_run" for c
    using that by (auto simp: sample_run_def plain_id_def simp del: js_simps) (simp add: js_def)
  ultimately show ?thesis
    using repeats_are_news [of "js ''z''" 0 sample_run 1000 "js ''e1''" None] sample_about by blast
qed

definition sample_ship :: world_object where
  "sample_ship = \<lparr>wo_id = js ''vessel:mmsi:211000001'', wo_type = js ''vessel'', wo_refs = [],
     wo_position = Some \<lparr>latitude = 1, longitude = 2, altitudeM = None, altitudeDatum = None, accuracyM = None\<rparr>,
     wo_geometry = None, wo_motion = None, wo_observed = [], wo_updated = [], wo_until = None,
     wo_freshness = LIVE, wo_confidence = 1, wo_labels = [], wo_properties = [], wo_media = None, wo_links = None,
     wo_provenance = ev_provenance sample_event\<rparr>"

theorem entries_are_transitions_witness:
  "(let z = sample_zone\<lparr>wz_types := [WATCH_ZONE_ENTRY]\<rparr>;
        w = setZones 0 [z] (new_evaluator None None)
    in map zh_zone (snd (evaluateObjects 70000 [sample_ship] w)) = [z])"
proof -
  define z where "z = sample_zone\<lparr>wz_types := [WATCH_ZONE_ENTRY]\<rparr>"
  define w where "w = setZones 0 [z] (new_evaluator None None)"
  define p where "p = \<lparr>latitude = 1, longitude = 2, altitudeM = None, altitudeDatum = None, accuracyM = None :: real option\<rparr>"
  have zs: "wz_id z = js ''z''" "watches_entries z" "wz_minimum z = None"
    "wz_geometry z = Bounds_Region \<lparr>west = -10, south = -10, east = 10, north = 10\<rparr>"
    by (simp_all add: z_def watches_entries_def sample_zone_def)
  have w: "we_zones w = [z]" "we_since w = [(js ''z'', 0)]" "we_inside w = []" "we_last_emit w = []"
    "js ''vessel'' \<in> set (we_entry_types w)"
    using zs by (simp_all add: w_def setZones_def new_evaluator_def Let_def sort_with_def place_in_def note_watching_def)
  have ship: "wo_position sample_ship = Some p" "wo_type sample_ship = js ''vessel''"
    by (simp_all add: sample_ship_def p_def)
  have a: "announces 70000 sample_ship p w z"
    using zs w by (simp add: announces_def p_def boundsContain_def WATCH_ZONE_ENTRY_BASELINE_MS_def severityAtLeast_def)
  obtain w' hits where e: "evaluateObjects 70000 [sample_ship] w = (w', hits)" by fastforce
  have "map zh_zone hits = filter (\<lambda>z. watches_entries z \<and> announces 70000 sample_ship p w z) (we_zones w)"
    by (rule entries_are_transitions [OF e ship(1), THEN conjunct1])
      (use w zs ship in \<open>simp_all add: plain_id_def del: js_simps\<close>, simp add: js_def)
  then show ?thesis using w zs a e by (simp add: z_def [symmetric] w_def [symmetric] Let_def)
qed

text \<open>A zone is quiet between two times of day exactly when the zone with the times exchanged is not.\<close>

lemma quiet_hours_wrap:
  assumes "clockMinutes a = Some x" "clockMinutes b = Some y" "x \<noteq> y"
  shows "inQuietHours (Some \<lparr>qh_start = a, qh_end = b\<rparr>) m \<longleftrightarrow> \<not> inQuietHours (Some \<lparr>qh_start = b, qh_end = a\<rparr>) m"
  using assms by (auto simp: inQuietHours_def)

lemma severe_interrupts: "severity_or_info s \<ge> SEVERE \<Longrightarrow> mayInterrupt z s m"
  by (simp add: mayInterrupt_def severityAtLeast_le)

end
