(* ===== verification/Feed.thy ===== *)
theory Feed
  imports Watch_Zones "HOL-Library.Multiset"
begin

text \<open>
  The event feed: what an entry is worth keeping
  (\<^verbatim>\<open>packages/world-model/src/feed-weight.ts\<close>) and the builder that turns events into the
  entries of a bounded feed (\<^verbatim>\<open>packages/event-engine/src/feed.ts\<close>).

  Weights are exact reals. A weight or a time of \<open>-Infinity\<close>, that of an entry whose time cannot
  be read, is \<open>None\<close>. The comparisons are those of a key, so the sorts are \<open>sort_key\<close>, and what
  is kept depends neither on the order of the entries nor on the time the feed is cut.
\<close>

section \<open>Entries\<close>

record feed_item =
  fi_id :: jstring
  fi_at :: jstring
  fi_event :: "jstring option"
  fi_object :: "jstring option"
  fi_title :: jstring
  fi_subtitle :: "jstring option"
  fi_severity :: severity_class
  fi_position :: "geo_position option"
  fi_type :: jstring
  fi_recorded :: bool

fun FEED_SEVERITY_WEIGHT :: "severity_class \<Rightarrow> real" where
  "FEED_SEVERITY_WEIGHT INFO = 1 / 2"
| "FEED_SEVERITY_WEIGHT MINOR = 1"
| "FEED_SEVERITY_WEIGHT MODERATE = 2"
| "FEED_SEVERITY_WEIGHT SEVERE = 4"
| "FEED_SEVERITY_WEIGHT EXTREME = 8"

definition FEED_HALF_LIFE_HOURS :: nat where
  "FEED_HALF_LIFE_HOURS = 6"

definition HALF_LIFE_MS :: real where
  "HALF_LIFE_MS = of_nat FEED_HALF_LIFE_HOURS * 3600000"

definition feedRetention :: "feed_item \<Rightarrow> real option" where
  "feedRetention i =
     map_option (\<lambda>t. log 2 (FEED_SEVERITY_WEIGHT (fi_severity i)) + of_int t / HALF_LIFE_MS) (date_parse (fi_at i))"

text \<open>Comparisons of numbers where \<open>None\<close> is \<open>-Infinity\<close>.\<close>

definition above :: "'a::linorder option \<Rightarrow> 'a option \<Rightarrow> bool" where
  "above x y \<longleftrightarrow> (case x of None \<Rightarrow> False | Some a \<Rightarrow> (case y of None \<Rightarrow> True | Some b \<Rightarrow> a > b))"

definition compareFeedTime :: "feed_item \<Rightarrow> feed_item \<Rightarrow> int" where
  "compareFeedTime a b =
     (let ta = date_parse (fi_at a); tb = date_parse (fi_at b)
      in if ta \<noteq> tb then (if above tb ta then 1 else -1)
         else if fi_id a < fi_id b then -1 else if fi_id a > fi_id b then 1 else 0)"

definition compareWeight :: "feed_item \<Rightarrow> feed_item \<Rightarrow> int" where
  "compareWeight a b =
     (if feedRetention a = feedRetention b then compareFeedTime a b
      else if above (feedRetention b) (feedRetention a) then 1 else -1)"

definition sort_time :: "feed_item list \<Rightarrow> feed_item list" where
  "sort_time xs = sort_with (\<lambda>a b. compareFeedTime a b < 0) xs"

definition keepWeightiest :: "feed_item list \<Rightarrow> int \<Rightarrow> feed_item list" where
  "keepWeightiest entries m =
     (let n = nat (max 0 m)
      in if length entries \<le> n then sort_time entries
         else sort_time (take n (sort_with (\<lambda>a b. compareWeight a b < 0) entries)))"

section \<open>The builder\<close>

record feed =
  fd_items :: "(jstring \<times> feed_item) list"
  fd_max :: nat
  fd_minimum :: severity_class
  fd_info_types :: "jstring list"

definition FEED_MAX_ITEMS :: nat where
  "FEED_MAX_ITEMS = 500"

definition new_feed :: "int option \<Rightarrow> severity_class option \<Rightarrow> jstring list option \<Rightarrow> feed" where
  "new_feed m s types =
     \<lparr>fd_items = [], fd_max = nat (max 1 (case m of Some k \<Rightarrow> k | None \<Rightarrow> int FEED_MAX_ITEMS)),
      fd_minimum = (case s of Some c \<Rightarrow> c | None \<Rightarrow> MINOR),
      fd_info_types = (case types of Some ts \<Rightarrow> ts | None \<Rightarrow> [js ''source-status-change'', js ''launch''])\<rparr>"

definition isRelevant :: "feed \<Rightarrow> world_event \<Rightarrow> bool" where
  "isRelevant f e =
     (if (case ev_prop e (js ''supersededBy'') of Some (JStr s) \<Rightarrow> True | _ \<Rightarrow> False) then False
      else if ev_type e \<in> set (fd_info_types f) then True
      else severityAtLeast (Some (severity_or_info (ev_severity e))) (Some (fd_minimum f)))"

definition feedTime :: "world_event \<Rightarrow> jstring" where
  "feedTime e =
     (case (date_parse (ev_start e), date_parse (pv_received (ev_provenance e))) of
        (Some start, Some raised) \<Rightarrow>
          if start \<le> raised then ev_start e
          else (case ev_prop e (js ''issuedAt'') of
                  Some (JStr issued) \<Rightarrow>
                    (case date_parse issued of
                       Some t \<Rightarrow> if t \<le> raised then issued else pv_received (ev_provenance e)
                     | None \<Rightarrow> pv_received (ev_provenance e))
                | _ \<Rightarrow> pv_received (ev_provenance e))
      | _ \<Rightarrow> ev_start e)"

definition toFeedItem :: "world_event \<Rightarrow> feed_item" where
  "toFeedItem e =
     \<lparr>fi_id = ev_id e, fi_at = feedTime e, fi_event = Some (ev_id e),
      fi_object = (case ev_objects e of i # _ \<Rightarrow> if i \<noteq> [] then Some i else None | [] \<Rightarrow> None),
      fi_title = ev_title e, fi_subtitle = Some (ev_summary e),
      fi_severity = severity_or_info (ev_severity e),
      fi_position = Option.bind (ev_geometry e) geometryRepresentativePoint,
      fi_type = ev_type e, fi_recorded = (pv_origin (ev_provenance e) = Recorded)\<rparr>"

definition trim_feed :: "feed \<Rightarrow> feed" where
  "trim_feed f =
     (if length (fd_items f) \<le> fd_max f then f
      else let kept = map fi_id (keepWeightiest (map snd (fd_items f)) (int (fd_max f)))
           in f\<lparr>fd_items := filter (\<lambda>(i, _). i \<in> set kept) (fd_items f)\<rparr>)"

definition feed_push :: "world_event \<Rightarrow> feed \<Rightarrow> feed \<times> feed_item option" where
  "feed_push e f =
     (if \<not> isRelevant f e then (f\<lparr>fd_items := AList.delete (ev_id e) (fd_items f)\<rparr>, None)
      else let f' = trim_feed (f\<lparr>fd_items := AList.update (ev_id e) (toFeedItem e) (fd_items f)\<rparr>)
           in (f', if map_of (fd_items f') (ev_id e) = None then None else Some (toFeedItem e)))"

definition feed_remove :: "jstring \<Rightarrow> feed \<Rightarrow> feed" where
  "feed_remove i f = f\<lparr>fd_items := AList.delete i (fd_items f)\<rparr>"

definition feed_recent :: "int option \<Rightarrow> severity_class option \<Rightarrow> feed \<Rightarrow> feed_item list" where
  "feed_recent limit m f =
     keepWeightiest
       (filter (\<lambda>i. case m of None \<Rightarrow> True | Some c \<Rightarrow> SEVERITY_ORDER (fi_severity i) \<ge> SEVERITY_ORDER c)
          (map snd (fd_items f)))
       (case limit of Some n \<Rightarrow> n | None \<Rightarrow> 50)"

definition clear_feed :: "feed \<Rightarrow> feed" where
  "clear_feed f = f\<lparr>fd_items := []\<rparr>"

section \<open>The sorts are those of keys\<close>

definition down :: "'a::{linorder,ab_group_add} option \<Rightarrow> int \<times> 'a" where
  "down x = (case x of None \<Rightarrow> (1, 0) | Some a \<Rightarrow> (0, - a))"

type_synonym time_key = "(int \<times> int) \<times> jstring"

definition time_key :: "feed_item \<Rightarrow> time_key" where
  "time_key i = (down (date_parse (fi_at i)), fi_id i)"

definition weight_key :: "feed_item \<Rightarrow> (int \<times> real) \<times> time_key" where
  "weight_key i = (down (feedRetention i), time_key i)"

lemma above_total: "x \<noteq> y \<Longrightarrow> \<not> above y x \<longleftrightarrow> above x y"
  by (auto simp: above_def split: option.splits)

lemma down_int: "(down (x :: int option), k) < (down y, l) \<longleftrightarrow> (if x = y then k < l else above x y)"
  by (auto simp: down_def above_def split: option.splits)

lemma down_real: "(down (x :: real option), k) < (down y, l) \<longleftrightarrow> (if x = y then k < l else above x y)"
  by (auto simp: down_def above_def split: option.splits)

lemma compareFeedTime_key: "compareFeedTime a b < 0 \<longleftrightarrow> time_key a < time_key b"
proof -
  have "compareFeedTime a b < 0 \<longleftrightarrow>
      (if date_parse (fi_at a) = date_parse (fi_at b) then fi_id a < fi_id b
       else \<not> above (date_parse (fi_at b)) (date_parse (fi_at a)))"
    by (simp add: compareFeedTime_def Let_def)
  then show ?thesis by (simp add: time_key_def down_int above_total del: less_prod_simp)
qed

lemma compareWeight_key: "compareWeight a b < 0 \<longleftrightarrow> weight_key a < weight_key b"
proof -
  have "compareWeight a b < 0 \<longleftrightarrow>
      (if feedRetention a = feedRetention b then compareFeedTime a b < 0
       else \<not> above (feedRetention b) (feedRetention a))"
    by (simp add: compareWeight_def)
  then show ?thesis by (simp add: weight_key_def down_real above_total compareFeedTime_key del: less_prod_simp)
qed

lemma sort_time_key: "sort_time xs = sort_key time_key xs"
  unfolding sort_time_def by (rule sort_with_key) (simp add: compareFeedTime_key)

lemma sort_weight_key: "sort_with (\<lambda>a b. compareWeight a b < 0) xs = sort_key weight_key xs"
  by (rule sort_with_key) (simp add: compareWeight_key)

lemma key_id: "time_key a = time_key b \<Longrightarrow> fi_id a = fi_id b" "weight_key a = weight_key b \<Longrightarrow> fi_id a = fi_id b"
  by (simp_all add: time_key_def weight_key_def)

lemma keys_inj:
  assumes "distinct (map fi_id xs)"
  shows "inj_on time_key (set xs)" "inj_on weight_key (set xs)"
proof -
  have "inj_on fi_id (set xs)" using assms by (simp add: distinct_map)
  then show "inj_on time_key (set xs)" "inj_on weight_key (set xs)"
    using key_id by (blast intro: inj_onI dest: inj_onD)+
qed

lemma sorted_key_strict:
  assumes "sorted (map f xs)" "distinct xs" "inj_on f (set xs)"
  shows "sorted_wrt (\<lambda>a b. f a < f b) xs"
  using assms
proof (induction xs)
  case (Cons x xs)
  have "f x < f y" if y: "y \<in> set xs" for y
  proof -
    have "x \<noteq> y" using Cons.prems(2) y by auto
    then have "f x \<noteq> f y" using inj_onD [OF Cons.prems(3), of x y] y by auto
    moreover have "f x \<le> f y" using Cons.prems(1) y by simp
    ultimately show ?thesis by simp
  qed
  moreover have "sorted_wrt (\<lambda>a b. f a < f b) xs"
    using Cons.prems by (intro Cons.IH) simp_all
  ultimately show ?case by simp
qed simp

lemma strictly_by_time:
  "distinct (map fi_id xs) \<Longrightarrow> sorted_wrt (\<lambda>a b. compareFeedTime a b < 0) (sort_time xs)"
  unfolding compareFeedTime_key sort_time_key
  by (rule sorted_key_strict) (simp_all add: keys_inj distinct_map [of fi_id])

lemma take_lightest:
  assumes "sorted_wrt P xs" "a \<in> set (take n xs)" "b \<in> set (drop n xs)"
  shows "P a b"
proof -
  have "sorted_wrt P (take n xs @ drop n xs)" using assms(1) by simp
  then show ?thesis using assms(2,3) unfolding sorted_wrt_append by blast
qed

lemma length_keepWeightiest: "length (keepWeightiest xs m) = min (length xs) (nat (max 0 m))"
  by (simp add: keepWeightiest_def Let_def sort_weight_key sort_time_key)

text \<open>
  C27: Of entries with distinct ids, \<open>keepWeightiest\<close> keeps as many as it may, in the
  order of their times, each of them worth more than every one it drops; and the order in which
  the entries come does not matter.
\<close>
theorem keepWeightiest_correct:
  assumes "distinct (map fi_id xs)"
  shows "length (keepWeightiest xs m) = min (length xs) (nat (max 0 m)) \<and>
    set (keepWeightiest xs m) \<subseteq> set xs \<and>
    sorted_wrt (\<lambda>a b. compareFeedTime a b < 0) (keepWeightiest xs m) \<and>
    (\<forall>a\<in>set (keepWeightiest xs m). \<forall>b\<in>set xs - set (keepWeightiest xs m). compareWeight a b < 0) \<and>
    (\<forall>ys. mset ys = mset xs \<longrightarrow> keepWeightiest ys m = keepWeightiest xs m)"
proof -
  let ?n = "nat (max 0 m)" and ?w = "sort_key weight_key xs"
  have w: "set ?w = set xs" "distinct (map fi_id ?w)" "length ?w = length xs"
    using assms by (simp_all add: distinct_map)
  have K: "keepWeightiest xs m = sort_time (take ?n ?w)"
    using sort_key_eq_sort_key [of ?w xs time_key] keys_inj [OF w(2)]
    by (auto simp: keepWeightiest_def Let_def sort_weight_key sort_time_key)
  have dk: "distinct (map fi_id (take ?n ?w))" using w(2) by (simp add: take_map [symmetric])
  note length_keepWeightiest
  moreover have "set (keepWeightiest xs m) \<subseteq> set xs"
    unfolding K sort_time_key using w(1) set_take_subset [of ?n ?w] by simp
  moreover have "sorted_wrt (\<lambda>a b. compareFeedTime a b < 0) (keepWeightiest xs m)"
    unfolding K by (rule strictly_by_time [OF dk])
  moreover have "compareWeight a b < 0"
    if a: "a \<in> set (keepWeightiest xs m)" and b: "b \<in> set xs - set (keepWeightiest xs m)" for a b
  proof -
    have "sorted_wrt (\<lambda>a b. weight_key a < weight_key b) ?w"
      using w(2) keys_inj(2) [OF w(2)] by (intro sorted_key_strict) (simp_all add: distinct_map)
    moreover have "a \<in> set (take ?n ?w)" using a unfolding K sort_time_key by simp
    moreover have "b \<in> set (drop ?n ?w)"
    proof -
      have "b \<in> set (take ?n ?w @ drop ?n ?w)" using b w(1) by simp
      then show ?thesis using b unfolding K sort_time_key by (simp del: append_take_drop_id)
    qed
    ultimately show ?thesis unfolding compareWeight_key by (rule take_lightest)
  qed
  moreover have "keepWeightiest ys m = keepWeightiest xs m" if ys: "mset ys = mset xs" for ys
  proof -
    have d: "distinct (map fi_id ys)" using assms ys by (metis mset_map mset_eq_imp_distinct_iff)
    have "length ys = length xs" using ys by (rule mset_eq_length)
    moreover have "sort_key weight_key ys = sort_key weight_key xs" "sort_key time_key ys = sort_key time_key xs"
      by (rule sort_key_eq_sort_key [OF ys]; rule keys_inj [OF d])+
    ultimately show ?thesis by (simp add: keepWeightiest_def Let_def sort_weight_key sort_time_key)
  qed
  ultimately show ?thesis by blast
qed

definition sample_item :: "jstring \<Rightarrow> severity_class \<Rightarrow> feed_item" where
  "sample_item i s = \<lparr>fi_id = i, fi_at = js ''1970-01-01T00:00:00Z'', fi_event = None, fi_object = None, fi_title = [],
     fi_subtitle = None, fi_severity = s, fi_position = None, fi_type = [], fi_recorded = False\<rparr>"

theorem keepWeightiest_correct_witness:
  "set (keepWeightiest [sample_item [1] MINOR, sample_item [2] SEVERE, sample_item [3] INFO] 1) =
     {sample_item [2] SEVERE}"
proof -
  let ?xs = "[sample_item [1] MINOR, sample_item [2] SEVERE, sample_item [3] INFO]"
  have "distinct (map fi_id ?xs)" by (simp add: sample_item_def)
  note t = keepWeightiest_correct [OF this, of 1]
  have ret: "feedRetention (sample_item i s) = Some (log 2 (FEED_SEVERITY_WEIGHT s))" for i s
    using epoch_readable by (simp add: feedRetention_def sample_item_def del: js_simps)
  have lg: "log 2 (4::real) = 2" "log 2 (1/2::real) = -1"
    using log_of_power_eq [of 4 2 2] by (simp_all add: log_divide)
  have light: "\<not> compareWeight (sample_item i s) (sample_item [2] SEVERE) < 0" if "s = MINOR \<or> s = INFO" for i s
    using that lg by (auto simp: compareWeight_def ret above_def)
  have neq: "sample_item i s \<noteq> sample_item [2] SEVERE" if "s = MINOR \<or> s = INFO" for i s
    using that by (auto simp: sample_item_def)
  have "length (keepWeightiest ?xs 1) = min (length ?xs) (nat (max 0 1))" using t by blast
  then have "length (keepWeightiest ?xs 1) = 1" by simp
  moreover have "set (keepWeightiest ?xs 1) \<subseteq> set ?xs" using t by blast
  moreover have "\<forall>a\<in>set (keepWeightiest ?xs 1). \<forall>b\<in>set ?xs - set (keepWeightiest ?xs 1). compareWeight a b < 0"
    using t by blast
  ultimately have K: "set (keepWeightiest ?xs 1) \<subseteq> set ?xs" "length (keepWeightiest ?xs 1) = 1"
    "\<forall>a\<in>set (keepWeightiest ?xs 1). \<forall>b\<in>set ?xs - set (keepWeightiest ?xs 1). compareWeight a b < 0" by blast+
  then obtain k where k: "keepWeightiest ?xs 1 = [k]" by (auto simp: length_Suc_conv)
  have "k = sample_item [2] SEVERE"
  proof (rule ccontr)
    assume "k \<noteq> sample_item [2] SEVERE"
    with K(1,3) k have "compareWeight k (sample_item [2] SEVERE) < 0" by auto
    moreover have "k = sample_item [1] MINOR \<or> k = sample_item [3] INFO"
      using K(1) k \<open>k \<noteq> sample_item [2] SEVERE\<close> by auto
    ultimately show False using light by blast
  qed
  with k show ?thesis by simp
qed

text \<open>An extreme entry outlasts a minor one issued up to eighteen hours after it.\<close>

lemma extreme_outlasts_minor:
  assumes "fi_severity a = EXTREME" "fi_severity b = MINOR"
    and "date_parse (fi_at a) = Some s" "date_parse (fi_at b) = Some t" "t - s < 18 * 3600000"
  shows "compareWeight a b < 0"
proof -
  have l: "log 2 (8::real) = 3" using log_of_power_eq [of 8 2 3] by simp
  have "of_int (t - s) < (18 * 3600000 :: real)" using assms(5) by (metis of_int_less_iff of_int_mult of_int_numeral)
  then have "of_int t / HALF_LIFE_MS < 3 + of_int s / HALF_LIFE_MS"
    by (simp add: HALF_LIFE_MS_def FEED_HALF_LIFE_HOURS_def field_simps)
  then show ?thesis
    using assms(1-4) l by (simp add: compareWeight_def feedRetention_def above_def)
qed

section \<open>The builder's feed\<close>

definition feed_ok :: "feed \<Rightarrow> bool" where
  "feed_ok f \<longleftrightarrow> distinct (map fst (fd_items f)) \<and> (\<forall>(k, i)\<in>set (fd_items f). fi_id i = k) \<and>
     length (fd_items f) \<le> fd_max f"

lemma feed_ids: "\<forall>(k, i)\<in>set m. fi_id i = k \<Longrightarrow> map fi_id (map snd m) = map fst m"
  by (induction m) auto

lemma trim_feed_ok:
  assumes d: "distinct (map fst (fd_items f))" and k: "\<forall>(k, i)\<in>set (fd_items f). fi_id i = k"
  shows "feed_ok (trim_feed f) \<and> fd_max (trim_feed f) = fd_max f"
proof (cases "length (fd_items f) \<le> fd_max f")
  case True
  with d k show ?thesis by (simp add: trim_feed_def feed_ok_def)
next
  case False
  let ?xs = "map snd (fd_items f)" and ?K = "keepWeightiest (map snd (fd_items f)) (int (fd_max f))"
  let ?m = "filter (\<lambda>(i, _). i \<in> set (map fi_id ?K)) (fd_items f)"
  have len: "length ?K \<le> fd_max f" by (simp add: length_keepWeightiest)
  have "set (map fst ?m) \<subseteq> set (map fi_id ?K)" by auto
  then have "card (set (map fst ?m)) \<le> card (set (map fi_id ?K))" by (intro card_mono) simp_all
  moreover have dm: "distinct (map fst ?m)" using d by (rule distinct_map_filter)
  ultimately have "length ?m \<le> length ?K"
    using distinct_card [OF dm] card_length [of "map fi_id ?K"] by simp
  with len dm k False show ?thesis
    by (auto simp: trim_feed_def feed_ok_def Let_def)
qed

end
