(* ===== verification/Event_Rules.thy ===== *)
theory Event_Rules
  imports Watch_Zones Source_Health
begin

text \<open>
  Rules that make events (\<^verbatim>\<open>packages/event-engine/src/rules\<close>): what they share (\<^verbatim>\<open>types.ts\<close>),
  the state of a source (\<^verbatim>\<open>source-status.ts\<close>), and episodes of something an object broadcasts
  about itself (\<^verbatim>\<open>episodes.ts\<close>) with their two instances, distress beacons
  (\<^verbatim>\<open>distress-beacon.ts\<close>) and aircraft emergencies (\<^verbatim>\<open>aircraft-emergency.ts\<close>).

  A rule is a record of its data and of the function that evaluates it. A time that cannot be
  read is \<open>None\<close>, and a comparison with it is false, as with \<open>NaN\<close>.
\<close>

section \<open>Rules\<close>

record rule_context =
  rc_now :: int
  rc_existing :: "jstring \<Rightarrow> world_event list"

datatype rule_scope = Changed | All_Known

record object_rule =
  ru_id :: jstring
  ru_objects :: "jstring list"
  ru_events :: "jstring list"
  ru_scope :: rule_scope
  ru_quiet :: bool
  ru_withdrawn :: bool
  ru_evaluate :: "world_object list \<Rightarrow> rule_context \<Rightarrow> world_event list"

definition ENGINE_PROVIDER_ID :: jstring where
  "ENGINE_PROVIDER_ID = js ''worldview''"

definition ENGINE_SOURCE_NAME :: jstring where
  "ENGINE_SOURCE_NAME = js ''OP-CB event engine''"

fun join_texts :: "jstring \<Rightarrow> jstring list \<Rightarrow> jstring" where
  "join_texts sep [] = []"
| "join_texts sep [t] = t"
| "join_texts sep (t # u # ts) = t @ sep @ join_texts sep (u # ts)"

definition derivedProvenance :: "world_object list \<Rightarrow> jstring \<Rightarrow> observation_ref list \<Rightarrow> provenance" where
  "derivedProvenance os now_iso refs =
     (let recorded = list_ex (\<lambda>ob. pv_origin (wo_provenance ob) = Recorded) os;
          historical = (\<not> recorded \<and> os \<noteq> [] \<and> list_all (\<lambda>ob. pv_origin (wo_provenance ob) = Historical) os);
          names = map (\<lambda>ob. case pv_attribution (wo_provenance ob) of
              Some a \<Rightarrow> a | None \<Rightarrow> pv_source (wo_provenance ob)) os;
          attribution = join_texts (js ''; '') (fold add_to names [])
      in \<lparr>pv_provider = ENGINE_PROVIDER_ID, pv_source = ENGINE_SOURCE_NAME,
          pv_origin = (if recorded then Recorded else if historical then Historical else Derived_Origin),
          pv_ref = None, pv_attribution = (if attribution \<noteq> [] then Some attribution else None),
          pv_license = None, pv_terms = None, pv_received = now_iso, pv_derived = Some refs\<rparr>)"

text \<open>The length is looked at after a reference is added.\<close>

definition refsOf :: "world_object list \<Rightarrow> nat \<Rightarrow> observation_ref list" where
  "refsOf os m = take (max 1 m) (concat (map wo_refs os))"

fun stringProp :: "world_object \<Rightarrow> jstring list \<Rightarrow> jstring option" where
  "stringProp ob [] = None"
| "stringProp ob (k # ks) =
     (let v = (case map_of (wo_labels ob) k of Some l \<Rightarrow> Some (JStr l) | None \<Rightarrow> map_of (wo_properties ob) k)
      in case v of
           Some (JStr s) \<Rightarrow> if trim s \<noteq> [] then Some (trim s) else stringProp ob ks
         | _ \<Rightarrow> stringProp ob ks)"

definition shortUtc :: "jstring \<Rightarrow> jstring" where
  "shortUtc t =
     (case date_parse t of None \<Rightarrow> t | Some ms \<Rightarrow> first_T (take 16 (to_iso ms)) @ js '' UTC'')"

section \<open>The state of a source\<close>

definition SOURCE_STATUS_THROTTLE_MS :: int where
  "SOURCE_STATUS_THROTTLE_MS = 10 * 60000"

definition NOTABLE :: "provider_status list" where
  "NOTABLE = [OFFLINE, AUTH_REQUIRED, ERROR]"

definition isNotableTransition :: "provider_status \<Rightarrow> provider_status \<Rightarrow> bool" where
  "isNotableTransition from_st to_st =
     (if from_st = STARTING \<and> to_st \<noteq> ERROR then False
      else (from_st \<in> set NOTABLE \<or> to_st \<in> set NOTABLE) \<and> from_st \<noteq> to_st)"

fun status_name :: "provider_status \<Rightarrow> string" where
  "status_name DISABLED = ''DISABLED''"
| "status_name STARTING = ''STARTING''"
| "status_name Source_Health.LIVE = ''LIVE''"
| "status_name DEGRADED = ''DEGRADED''"
| "status_name Source_Health.STALE = ''STALE''"
| "status_name RATE_LIMITED = ''RATE_LIMITED''"
| "status_name AUTH_REQUIRED = ''AUTH_REQUIRED''"
| "status_name NEEDS_SETUP = ''NEEDS_SETUP''"
| "status_name OFFLINE = ''OFFLINE''"
| "status_name ERROR = ''ERROR''"

fun error_name :: "error_code \<Rightarrow> string" where
  "error_name E_NETWORK = ''NETWORK''"
| "error_name E_TIMEOUT = ''TIMEOUT''"
| "error_name E_DNS = ''DNS''"
| "error_name E_HTTP_4XX = ''HTTP_4XX''"
| "error_name E_HTTP_5XX = ''HTTP_5XX''"
| "error_name E_RATE_LIMITED = ''RATE_LIMITED''"
| "error_name E_AUTH = ''AUTH''"
| "error_name E_MALFORMED = ''MALFORMED''"
| "error_name E_TOO_LARGE = ''TOO_LARGE''"
| "error_name E_CANCELLED = ''CANCELLED''"
| "error_name E_UNSUPPORTED = ''UNSUPPORTED''"
| "error_name E_OFFLINE = ''OFFLINE''"
| "error_name E_HOST_NOT_ALLOWED = ''HOST_NOT_ALLOWED''"
| "error_name E_INTERNAL = ''INTERNAL''"

definition describe :: "provider_status \<Rightarrow> jstring" where
  "describe s =
     (if s = AUTH_REQUIRED then js ''credentials required''
      else if s = NEEDS_SETUP then js ''waiting for its settings''
      else if s = RATE_LIMITED then js ''rate limited''
      else map lower (js (status_name s)))"

fun replace_first :: "jchar \<Rightarrow> jchar \<Rightarrow> jstring \<Rightarrow> jstring" where
  "replace_first a b [] = []"
| "replace_first a b (c # s) = (if c = a then b # s else c # replace_first a b s)"

definition sourceStatusEvent ::
  "jstring \<Rightarrow> provider_status \<Rightarrow> provider_status \<Rightarrow> 't entry \<Rightarrow> jstring \<Rightarrow> world_event" where
  "sourceStatusEvent pid from_st to_st en when_iso =
     (let compact = replace_first (jc CHR ''Z'') (jc CHR ''z'') (replace_first (jc CHR ''T'') (jc CHR ''t'')
            (filter (\<lambda>c. c \<notin> set (js ''-:.'')) when_iso));
          msg = he_message (en_health en); err = he_lastError (en_health en)
      in \<lparr>ev_id = makeEventId (js ''source-status-change'') pid compact,
          ev_type = js ''source-status-change'',
          ev_title = en_name en @ js '': '' @ describe to_st,
          ev_start = when_iso, ev_end = None, ev_geometry = None, ev_objects = [], ev_refs = [],
          ev_confidence = HIGH, ev_severity = Some INFO,
          ev_summary = en_name en @ js '' changed from '' @ describe from_st @ js '' to '' @ describe to_st @
            js '' at '' @ first_T (take 16 when_iso) @ js '' UTC.'' @
            (case err of Some er \<Rightarrow> js '' Last error: '' @ js (error_name (ei_code er)) @ js ''.'' | None \<Rightarrow> []),
          ev_properties = Some ([(js ''providerId'', JStr pid), (js ''from'', JStr (js (status_name from_st))),
              (js ''to'', JStr (js (status_name to_st))), (js ''sourceName'', JStr (en_name en))] @
            (case msg of Some m \<Rightarrow> if m \<noteq> [] then [(js ''message'', JStr m)] else [] | None \<Rightarrow> []) @
            (case err of Some er \<Rightarrow> [(js ''errorCode'', JStr (js (error_name (ei_code er))))] | None \<Rightarrow> [])),
          ev_provenance = \<lparr>pv_provider = ENGINE_PROVIDER_ID, pv_source = ENGINE_SOURCE_NAME, pv_origin = Local_Origin,
            pv_ref = None, pv_attribution = None, pv_license = None, pv_terms = None, pv_received = when_iso,
            pv_derived = None\<rparr>\<rparr>)"

text \<open>The tracker: when each provider was last written about.\<close>

definition consider_change ::
  "int \<Rightarrow> int \<Rightarrow> jstring \<Rightarrow> provider_status \<Rightarrow> provider_status \<Rightarrow> 't entry \<Rightarrow> (jstring \<times> int) list \<Rightarrow>
     (jstring \<times> int) list \<times> world_event option" where
  "consider_change throttle now pid from_st to_st en last_emit =
     (if \<not> isNotableTransition from_st to_st then (last_emit, None)
      else if (case map_of last_emit pid of Some t \<Rightarrow> now - t < throttle | None \<Rightarrow> False) then (last_emit, None)
      else (AList.update pid now last_emit, Some (sourceStatusEvent pid from_st to_st en (to_iso now))))"

section \<open>Episodes\<close>

datatype said = Says jstring | Says_Clear | Says_Nothing

record episode_spec =
  es_id :: jstring
  es_object :: jstring
  es_event :: jstring
  es_quiet :: int
  es_follow :: int
  es_reopen :: int
  es_state :: "world_object \<Rightarrow> said"
  es_severity :: "jstring \<Rightarrow> severity_class"
  es_title :: "world_object \<Rightarrow> jstring \<Rightarrow> jstring"
  es_summary :: "world_object \<Rightarrow> jstring \<Rightarrow> jstring \<Rightarrow> jstring"
  es_caveat :: jstring
  es_properties :: "world_object \<Rightarrow> jstring \<Rightarrow> payload"
  es_clear_text :: "jstring \<Rightarrow> jstring"

definition lastHeardOf :: "world_event \<Rightarrow> int option" where
  "lastHeardOf e =
     (case ev_prop e (js ''lastHeardAt'') of
        Some (JStr t) \<Rightarrow> date_parse t
      | Some JNull \<Rightarrow> date_parse (ev_start e)
      | None \<Rightarrow> date_parse (ev_start e)
      | _ \<Rightarrow> None)"

definition has_end :: "world_event \<Rightarrow> bool" where
  "has_end e \<longleftrightarrow> (case ev_end e of Some t \<Rightarrow> t \<noteq> [] | None \<Rightarrow> False)"

definition end_time :: "world_event \<Rightarrow> int option" where
  "end_time e = Option.bind (ev_end e) date_parse"

definition later :: "int option \<Rightarrow> int option \<Rightarrow> bool" where
  "later a b \<longleftrightarrow> (case (a, b) of (Some x, Some y) \<Rightarrow> x > y | _ \<Rightarrow> False)"

definition eventFor ::
  "episode_spec \<Rightarrow> jstring \<Rightarrow> world_object \<Rightarrow> geo_position \<Rightarrow> jstring \<Rightarrow> jstring \<Rightarrow> rule_context \<Rightarrow> world_event" where
  "eventFor spec i ob p kind start ctx =
     \<lparr>ev_id = i, ev_type = es_event spec, ev_title = es_title spec ob kind, ev_start = start, ev_end = None,
      ev_geometry = Some (Point (longitude p, latitude p, None)), ev_objects = [wo_id ob], ev_refs = refsOf [ob] 32,
      ev_confidence = classifyConfidence (wo_confidence ob), ev_severity = Some (es_severity spec kind),
      ev_summary = es_summary spec ob kind start @ js '' since '' @ shortUtc start @ js '', last heard '' @
        shortUtc (wo_observed ob) @ js ''. '' @ es_caveat spec,
      ev_properties = Some (AList.update (js ''lastHeardAt'') (JStr (wo_observed ob))
        (AList.update (js ''kind'') (JStr kind) (es_properties spec ob kind))),
      ev_provenance = derivedProvenance [ob] (to_iso (rc_now ctx)) (refsOf [ob] 32)\<rparr>"

definition end_episode :: "episode_spec \<Rightarrow> world_event \<Rightarrow> jstring \<Rightarrow> bool \<Rightarrow> world_event" where
  "end_episode spec e when_iso cleared =
     e\<lparr>ev_end := Some when_iso,
       ev_summary := ev_summary e @ js '' '' @
         (if cleared then es_clear_text spec when_iso else js ''No longer heard after '' @ shortUtc when_iso @ js ''.''),
       ev_properties := Some (AList.update (js ''endReason'') (JStr (if cleared then js ''clear'' else js ''quiet''))
         (case ev_properties e of Some p \<Rightarrow> p | None \<Rightarrow> []))\<rparr>"

text \<open>The episodes that are open, and those that ended for quiet not long ago, by object.\<close>

type_synonym by_object = "(jstring \<times> world_event) list"

definition sort_out :: "episode_spec \<Rightarrow> int \<Rightarrow> world_event \<Rightarrow> by_object \<times> by_object \<Rightarrow> by_object \<times> by_object" where
  "sort_out spec now e = (\<lambda>(opened, quietly).
     case ev_objects e of
       [] \<Rightarrow> (opened, quietly)
     | i # _ \<Rightarrow>
         if i = [] then (opened, quietly)
         else if \<not> has_end e then (AList.update i e opened, quietly)
         else if ev_prop e (js ''endReason'') = Some (JStr (js ''quiet'')) \<and>
                 (case end_time e of Some t \<Rightarrow> now - t \<le> es_reopen spec | None \<Rightarrow> False) then
           (case map_of quietly i of
              None \<Rightarrow> (opened, AList.update i e quietly)
            | Some l \<Rightarrow> if later (end_time e) (end_time l) then (opened, AList.update i e quietly)
                        else (opened, quietly))
         else (opened, quietly))"

definition new_episode_id :: "episode_spec \<Rightarrow> parsed_id \<Rightarrow> int option \<Rightarrow> jstring" where
  "new_episode_id spec parsed t =
     makeEventId (es_event spec) (pi_namespace parsed)
       (pi_value parsed @ js ''-'' @ (case t of Some ms \<Rightarrow> int_text (ms div 1000) | None \<Rightarrow> js ''NaN''))"

definition hear ::
  "episode_spec \<Rightarrow> rule_context \<Rightarrow> by_object \<Rightarrow> by_object \<Rightarrow> world_object \<Rightarrow>
     world_event list \<times> jstring list \<Rightarrow> world_event list \<times> jstring list" where
  "hear spec ctx opened quietly ob = (\<lambda>(out, heard).
     case wo_position ob of
       None \<Rightarrow> (out, heard)
     | Some p \<Rightarrow>
         let t = date_parse (wo_observed ob); st = es_state spec ob
         in if st = Says_Nothing then (out, heard)
            else (case map_of opened (wo_id ob) of
                Some prev \<Rightarrow>
                  if \<not> later t (lastHeardOf prev) then (out, heard)
                  else (case st of
                      Says kind \<Rightarrow>
                        if ev_prop prev (js ''kind'') \<noteq> Some (JStr kind) \<or>
                           the t - the (lastHeardOf prev) \<ge> es_follow spec
                        then (out @ [eventFor spec (ev_id prev) ob p kind (ev_start prev) ctx], add_to (wo_id ob) heard)
                        else (out, add_to (wo_id ob) heard)
                    | _ \<Rightarrow> (out @ [end_episode spec prev (wo_observed ob) True], add_to (wo_id ob) heard))
              | None \<Rightarrow>
                  (case st of
                      Says kind \<Rightarrow>
                        (case map_of quietly (wo_id ob) of
                           Some r \<Rightarrow>
                             if later t (end_time r)
                             then (out @ [eventFor spec (ev_id r) ob p kind (ev_start r) ctx], heard)
                             else (out @ (case parseObjectId (wo_id ob) of None \<Rightarrow> []
                               | Some parsed \<Rightarrow> [eventFor spec (new_episode_id spec parsed t) ob p kind (wo_observed ob) ctx]), heard)
                         | None \<Rightarrow>
                             (out @ (case parseObjectId (wo_id ob) of None \<Rightarrow> []
                               | Some parsed \<Rightarrow> [eventFor spec (new_episode_id spec parsed t) ob p kind (wo_observed ob) ctx]), heard))
                    | _ \<Rightarrow> (out, heard))))"

definition fall_silent :: "episode_spec \<Rightarrow> int \<Rightarrow> jstring list \<Rightarrow> jstring \<times> world_event \<Rightarrow> world_event list" where
  "fall_silent spec now heard = (\<lambda>(i, e).
     if i \<in> set heard then []
     else (case lastHeardOf e of
             Some t \<Rightarrow> if now - t > es_quiet spec then [end_episode spec e (to_iso t) False] else []
           | None \<Rightarrow> []))"

definition evaluate_episodes :: "episode_spec \<Rightarrow> world_object list \<Rightarrow> rule_context \<Rightarrow> world_event list" where
  "evaluate_episodes spec obs ctx =
     (case fold (sort_out spec (rc_now ctx)) (rc_existing ctx (es_event spec)) ([], []) of
        (opened, quietly) \<Rightarrow>
          (case fold (hear spec ctx opened quietly) obs ([], []) of
             (out, heard) \<Rightarrow> out @ concat (map (fall_silent spec (rc_now ctx) heard) opened)))"

definition episodeRule :: "episode_spec \<Rightarrow> object_rule" where
  "episodeRule spec = \<lparr>ru_id = es_id spec, ru_objects = [es_object spec], ru_events = [es_event spec],
     ru_scope = Changed, ru_quiet = True, ru_withdrawn = False, ru_evaluate = evaluate_episodes spec\<rparr>"

section \<open>Distress beacons\<close>

definition DISTRESS_BEACON_QUIET_MS :: int where
  "DISTRESS_BEACON_QUIET_MS = 10 * 60000"

definition DISTRESS_BEACON_FOLLOW_MS :: int where
  "DISTRESS_BEACON_FOLLOW_MS = 60000"

definition DISTRESS_BEACON_REOPEN_MS :: int where
  "DISTRESS_BEACON_REOPEN_MS = 30 * 60000"

datatype beacon_kind = Sart | Mob | Epirb

fun beacon_name :: "beacon_kind \<Rightarrow> jstring" where
  "beacon_name Sart = js ''sart''"
| "beacon_name Mob = js ''mob''"
| "beacon_name Epirb = js ''epirb''"

fun beacon_what :: "beacon_kind \<Rightarrow> jstring" where
  "beacon_what Sart = js ''An AIS-SART (search and rescue transmitter)''"
| "beacon_what Mob = js ''A man-overboard beacon (AIS MOB)''"
| "beacon_what Epirb = js ''An EPIRB-AIS''"

fun beacon_title :: "beacon_kind \<Rightarrow> jstring" where
  "beacon_title Sart = js ''AIS-SART active''"
| "beacon_title Mob = js ''Man overboard''"
| "beacon_title Epirb = js ''EPIRB-AIS active''"

definition beaconKindOf :: "jstring option \<Rightarrow> beacon_kind option" where
  "beaconKindOf m =
     (case m of None \<Rightarrow> None
      | Some s \<Rightarrow>
          if \<not> (length s = 9 \<and> list_all is_digit s) then None
          else if starts_with (js ''970'') s then Some Sart
          else if starts_with (js ''972'') s then Some Mob
          else if starts_with (js ''974'') s then Some Epirb else None)"

definition mmsiOf :: "world_object \<Rightarrow> jstring option" where
  "mmsiOf ob =
     (case map_of (wo_properties ob) (js ''mmsi'') of
        Some (JStr m) \<Rightarrow> Some m
      | Some (JNum x) \<Rightarrow>
          if x = of_int \<lfloor>x\<rfloor> then (let s = number_text x in Some (replicate (9 - length s) 48 @ s)) else None
      | _ \<Rightarrow> None)"

definition text_or_undefined :: "jstring option \<Rightarrow> jstring" where
  "text_or_undefined m = (case m of Some s \<Rightarrow> s | None \<Rightarrow> js ''undefined'')"

definition nameOf :: "world_object \<Rightarrow> jstring option" where
  "nameOf ob =
     (case map_of (wo_properties ob) (js ''name'') of
        Some (JStr n) \<Rightarrow> if trim n \<noteq> [] then Some (trim n) else None
      | _ \<Rightarrow> None)"

text \<open>Navigational status 14 is an active beacon.\<close>

definition beacon_state :: "world_object \<Rightarrow> beacon_kind option \<Rightarrow> said" where
  "beacon_state ob k =
     (case k of None \<Rightarrow> Says_Nothing
      | Some kind \<Rightarrow> if map_of (wo_properties ob) (js ''navStatus'') = Some (JNum 14)
                     then Says (beacon_name kind) else Says_Clear)"

definition kind_named :: "jstring \<Rightarrow> beacon_kind" where
  "kind_named k = (if k = beacon_name Sart then Sart else if k = beacon_name Mob then Mob else Epirb)"

definition beacon_spec :: episode_spec where
  "beacon_spec =
     \<lparr>es_id = js ''distress-beacon'', es_object = js ''vessel'', es_event = js ''distress-beacon'',
      es_quiet = DISTRESS_BEACON_QUIET_MS, es_follow = DISTRESS_BEACON_FOLLOW_MS,
      es_reopen = DISTRESS_BEACON_REOPEN_MS,
      es_state = (\<lambda>ob. beacon_state ob (beaconKindOf (mmsiOf ob))),
      es_severity = (\<lambda>k. SEVERE),
      es_title = (\<lambda>ob k. beacon_title (kind_named k) @ js '': '' @ text_or_undefined (mmsiOf ob) @
        (case nameOf ob of Some n \<Rightarrow> js '' ('' @ n @ js '')'' | None \<Rightarrow> [])),
      es_summary = (\<lambda>ob k start. beacon_what (kind_named k) @ js '', MMSI '' @ text_or_undefined (mmsiOf ob) @
        js '', has been transmitting as active''),
      es_caveat = js ''As broadcast and relayed by the AIS source; the coastguard is not told by this app.'',
      es_properties = (\<lambda>ob k. (js ''mmsi'', JStr (case mmsiOf ob of Some m \<Rightarrow> m | None \<Rightarrow> [])) #
        (case nameOf ob of Some n \<Rightarrow> [(js ''name'', JStr n)] | None \<Rightarrow> [])),
      es_clear_text = (\<lambda>t. js ''No longer transmitting as active at '' @ shortUtc t @ js ''.'')\<rparr>"

definition distressBeaconRule :: object_rule where
  "distressBeaconRule = episodeRule beacon_spec"

section \<open>Aircraft emergencies\<close>

text \<open>
  A squawk that is the name of a property every JavaScript object has (\<^verbatim>\<open>constructor\<close>) is found in
  the source's table; the table here has its three squawks only.
\<close>

definition AIRCRAFT_EMERGENCY_QUIET_MS :: int where
  "AIRCRAFT_EMERGENCY_QUIET_MS = 15 * 60000"

definition AIRCRAFT_EMERGENCY_FOLLOW_MS :: int where
  "AIRCRAFT_EMERGENCY_FOLLOW_MS = 60000"

definition AIRCRAFT_EMERGENCY_REOPEN_MS :: int where
  "AIRCRAFT_EMERGENCY_REOPEN_MS = 30 * 60000"

datatype emergency_kind = Unlawful | General | Downed | Nordo | Minfuel

fun emergency_name :: "emergency_kind \<Rightarrow> jstring" where
  "emergency_name Unlawful = js ''unlawful''"
| "emergency_name General = js ''general''"
| "emergency_name Downed = js ''downed''"
| "emergency_name Nordo = js ''nordo''"
| "emergency_name Minfuel = js ''minfuel''"

fun emergency_label :: "emergency_kind \<Rightarrow> jstring" where
  "emergency_label Unlawful = js ''unlawful interference''"
| "emergency_label General = js ''general emergency''"
| "emergency_label Downed = js ''downed aircraft''"
| "emergency_label Nordo = js ''radio failure''"
| "emergency_label Minfuel = js ''minimum fuel''"

fun emergency_squawk :: "emergency_kind \<Rightarrow> jstring option" where
  "emergency_squawk Unlawful = Some (js ''7500'')"
| "emergency_squawk General = Some (js ''7700'')"
| "emergency_squawk Nordo = Some (js ''7600'')"
| "emergency_squawk k = None"

fun emergency_severity :: "emergency_kind \<Rightarrow> severity_class" where
  "emergency_severity Nordo = MODERATE"
| "emergency_severity Minfuel = MODERATE"
| "emergency_severity k = SEVERE"

fun emergency_rank :: "emergency_kind \<Rightarrow> nat" where
  "emergency_rank Unlawful = 0"
| "emergency_rank General = 1"
| "emergency_rank Downed = 2"
| "emergency_rank Nordo = 3"
| "emergency_rank Minfuel = 4"

definition all_kinds :: "emergency_kind list" where
  "all_kinds = [Unlawful, General, Downed, Nordo, Minfuel]"

definition by_squawk :: "jstring \<Rightarrow> emergency_kind option" where
  "by_squawk s = find (\<lambda>k. emergency_squawk k = Some s) all_kinds"

definition kind_called :: "jstring \<Rightarrow> emergency_kind option" where
  "kind_called s = find (\<lambda>k. emergency_name k = s) all_kinds"

definition emergencyOf :: "world_object \<Rightarrow> emergency_kind option" where
  "emergencyOf ob =
     (let squawk = (case map_of (wo_properties ob) (js ''squawk'') of Some (JStr s) \<Rightarrow> Some s | _ \<Rightarrow> None);
          bySquawk = Option.bind squawk by_squawk;
          status = (case map_of (wo_properties ob) (js ''emergency'') of
              Some (JStr s) \<Rightarrow> kind_called (map lower s) | _ \<Rightarrow> None);
          byStatus = (case status of
              Some k \<Rightarrow> if k \<in> {Unlawful, General, Nordo} \<and> squawk \<noteq> None \<and> bySquawk = None then None else Some k
            | None \<Rightarrow> None)
      in case (bySquawk, byStatus) of
           (Some a, Some b) \<Rightarrow> if emergency_rank a \<le> emergency_rank b then Some a else Some b
         | (Some a, None) \<Rightarrow> Some a
         | (None, b) \<Rightarrow> b)"

definition aircraftName :: "world_object \<Rightarrow> jstring" where
  "aircraftName ob =
     (case stringProp ob [js ''callsign'', js ''flight'', js ''registration''] of
        Some s \<Rightarrow> s
      | None \<Rightarrow> (case map_of (wo_properties ob) (js ''icao24'') of
                  Some (JStr h) \<Rightarrow> map upper h | _ \<Rightarrow> js ''An aircraft''))"

definition emergency_what :: "world_object \<Rightarrow> emergency_kind \<Rightarrow> jstring" where
  "emergency_what ob k =
     emergency_label k @
     (case emergency_squawk k of
        Some s \<Rightarrow> if map_of (wo_properties ob) (js ''squawk'') = Some (JStr s)
                  then js '' (squawk '' @ s @ js '')'' else []
      | None \<Rightarrow> [])"

definition emergency_called :: "jstring \<Rightarrow> emergency_kind" where
  "emergency_called k = (case kind_called k of Some e \<Rightarrow> e | None \<Rightarrow> Minfuel)"

definition emergency_spec :: episode_spec where
  "emergency_spec =
     \<lparr>es_id = js ''aircraft-emergency'', es_object = js ''aircraft'', es_event = js ''aircraft-emergency'',
      es_quiet = AIRCRAFT_EMERGENCY_QUIET_MS, es_follow = AIRCRAFT_EMERGENCY_FOLLOW_MS,
      es_reopen = AIRCRAFT_EMERGENCY_REOPEN_MS,
      es_state = (\<lambda>ob. case emergencyOf ob of Some k \<Rightarrow> Says (emergency_name k) | None \<Rightarrow> Says_Clear),
      es_severity = (\<lambda>k. emergency_severity (emergency_called k)),
      es_title = (\<lambda>ob k. aircraftName ob @ js '': '' @ emergency_what ob (emergency_called k)),
      es_summary = (\<lambda>ob k start. aircraftName ob @ js '' has broadcast '' @ emergency_what ob (emergency_called k)),
      es_caveat = js ''As broadcast: a squawk is set by hand and is sometimes set by mistake and cleared within minutes.'',
      es_properties = (\<lambda>ob k. (js ''name'', JStr (aircraftName ob)) #
        (case map_of (wo_properties ob) (js ''squawk'') of Some (JStr s) \<Rightarrow> [(js ''squawk'', JStr s)] | _ \<Rightarrow> []) @
        (case Option.bind (wo_position ob) altitudeM of Some a \<Rightarrow> [(js ''altitudeM'', JNum a)] | None \<Rightarrow> [])),
      es_clear_text = (\<lambda>t. js ''Cleared at '' @ shortUtc t @ js ''.'')\<rparr>"

definition aircraftEmergencyRule :: object_rule where
  "aircraftEmergencyRule = episodeRule emergency_spec"

end
