(* ===== verification/Event_Engine.thy ===== *)
theory Event_Engine
  imports Event_Rules World_State
begin

text \<open>
  The event engine (\<^verbatim>\<open>packages/event-engine/src/engine.ts\<close>): it runs the rules over the objects
  of a world that changed, or over batches handed to it, keeps the events in the store and tells
  its listeners of each one added or updated.

  The engine's state is its store, the memory of objects it keeps while it is attached to no
  world, and the tracker of source states. The world it is attached to is an argument: \<open>None\<close>
  when there is none. What the listeners of \<open>event\<close> hear is the third part of a result, in order;
  those of \<open>batch\<close> hear the second part when it is not empty.
\<close>

section \<open>The engine\<close>

record engine =
  en_store :: event_store
  en_rules :: "object_rule list"
  en_memory :: "(jstring \<times> (jstring \<times> world_object) list) list"
  en_window :: int
  en_throttle :: int
  en_source_last :: "(jstring \<times> int) list"

record event_batch =
  ba_added :: "world_event list"
  ba_updated :: "world_event list"
  ba_unchanged :: nat

definition empty_batch :: event_batch where
  "empty_batch = \<lparr>ba_added = [], ba_updated = [], ba_unchanged = 0\<rparr>"

type_synonym telling = "engine \<times> event_batch \<times> (world_event \<times> upsert_outcome) list"

definition new_engine :: "event_store option \<Rightarrow> object_rule list \<Rightarrow> int option \<Rightarrow> int option \<Rightarrow> engine" where
  "new_engine st rules throttle window =
     \<lparr>en_store = (case st of Some s \<Rightarrow> s | None \<Rightarrow> new_store None), en_rules = rules, en_memory = [],
      en_window = (case window of Some n \<Rightarrow> n | None \<Rightarrow> 7 * 86400000),
      en_throttle = (case throttle of Some n \<Rightarrow> n | None \<Rightarrow> SOURCE_STATUS_THROTTLE_MS), en_source_last = []\<rparr>"

definition keep_event :: "world_event \<Rightarrow> telling \<Rightarrow> telling" where
  "keep_event e = (\<lambda>(en, b, heard).
     case upsert_event e (en_store en) of (s, outcome) \<Rightarrow>
       (en\<lparr>en_store := s\<rparr>,
        (case outcome of
           Added \<Rightarrow> b\<lparr>ba_added := ba_added b @ [e]\<rparr>
         | Updated \<Rightarrow> b\<lparr>ba_updated := ba_updated b @ [e]\<rparr>
         | Unchanged \<Rightarrow> b\<lparr>ba_unchanged := ba_unchanged b + 1\<rparr>),
        heard @ (if outcome \<noteq> Unchanged then [(e, outcome)] else [])))"

definition prune_objects :: "int \<Rightarrow> int \<Rightarrow> (jstring \<times> world_object) list \<Rightarrow> (jstring \<times> world_object) list" where
  "prune_objects window now m =
     filter (\<lambda>(i, ob).
       \<not> ((case Option.bind (wo_until ob) date_parse of Some t \<Rightarrow> t < now | None \<Rightarrow> False) \<or>
          (case date_parse (wo_observed ob) of Some t \<Rightarrow> now - t > window | None \<Rightarrow> False))) m"

definition remember_objects :: "world option \<Rightarrow> int \<Rightarrow> world_object list \<Rightarrow> engine \<Rightarrow> engine" where
  "remember_objects st now obs en =
     (if st \<noteq> None then en
      else let types = concat (map ru_objects (filter (\<lambda>r. ru_scope r = All_Known) (en_rules en)));
               mem = fold (\<lambda>ob m.
                   if wo_type ob \<notin> set types then m
                   else AList.update (wo_type ob)
                     (AList.update (wo_id ob) ob (case map_of m (wo_type ob) of Some k \<Rightarrow> k | None \<Rightarrow> [])) m)
                 obs (en_memory en)
           in en\<lparr>en_memory := map (\<lambda>(t, m). (t, prune_objects (en_window en) now m)) mem\<rparr>)"

definition known_of_type :: "world option \<Rightarrow> int \<Rightarrow> jstring \<Rightarrow> engine \<times> world_object list \<Rightarrow> engine \<times> world_object list" where
  "known_of_type st now t = (\<lambda>(en, out).
     case st of
       Some w \<Rightarrow> (en, out @ ofType w t)
     | None \<Rightarrow>
         (case map_of (en_memory en) t of
            None \<Rightarrow> (en, out)
          | Some m \<Rightarrow>
              let m' = prune_objects (en_window en) now m
              in (en\<lparr>en_memory := AList.update t m' (en_memory en)\<rparr>, out @ map snd m')))"

definition all_known :: "world option \<Rightarrow> int \<Rightarrow> jstring list \<Rightarrow> engine \<Rightarrow> engine \<times> world_object list" where
  "all_known st now types en =
     (case fold (known_of_type st now) types (en, []) of
        (en', out) \<Rightarrow> (en', sort_with (\<lambda>a b. wo_id a < wo_id b) out))"

definition hasActive :: "object_rule \<Rightarrow> event_store \<Rightarrow> bool" where
  "hasActive r s \<longleftrightarrow> list_ex (\<lambda>t. list_ex (\<lambda>e. \<not> has_end e) (events_of_type s t)) (ru_events r)"

definition run_rule :: "world option \<Rightarrow> world_object list \<Rightarrow> int \<Rightarrow> object_rule \<Rightarrow> telling \<Rightarrow> telling" where
  "run_rule st obs now r = (\<lambda>(en, b, heard).
     case (if ru_scope r = All_Known then all_known st now (ru_objects r) en
           else (en, filter (\<lambda>ob. wo_type ob \<in> set (ru_objects r)) obs)) of
       (en1, input) \<Rightarrow>
         if input = [] \<and> (ru_scope r = Changed \<and> \<not> ru_quiet r \<or> \<not> hasActive r (en_store en1)) then (en1, b, heard)
         else fold keep_event
           (ru_evaluate r input \<lparr>rc_now = now, rc_existing = events_of_type (en_store en1)\<rparr>) (en1, b, heard))"

definition run_rules :: "world option \<Rightarrow> world_object list \<Rightarrow> int \<Rightarrow> object_rule list \<Rightarrow> engine \<Rightarrow> telling" where
  "run_rules st obs now rules en = fold (run_rule st obs now) rules (en, empty_batch, [])"

definition ingestBatch :: "world option \<Rightarrow> int \<Rightarrow> world_object list \<Rightarrow> engine \<Rightarrow> telling" where
  "ingestBatch st now obs en = run_rules st obs now (en_rules en) (remember_objects st now obs en)"

definition endQuiet :: "world option \<Rightarrow> int \<Rightarrow> engine \<Rightarrow> telling" where
  "endQuiet st now en = run_rules st [] now (filter ru_quiet (en_rules en)) en"

definition reevaluate :: "world option \<Rightarrow> int \<Rightarrow> engine \<Rightarrow> telling" where
  "reevaluate st now en = run_rules st [] now (filter (\<lambda>r. ru_scope r = All_Known) (en_rules en)) en"

definition ingestEvent :: "world_event \<Rightarrow> engine \<Rightarrow> engine \<times> (world_event \<times> upsert_outcome) list" where
  "ingestEvent e en =
     (case upsert_event e (en_store en) of (s, outcome) \<Rightarrow>
        (en\<lparr>en_store := s\<rparr>, if outcome \<noteq> Unchanged then [(e, outcome)] else []))"

definition on_source_change ::
  "int \<Rightarrow> jstring \<Rightarrow> provider_status \<Rightarrow> provider_status \<Rightarrow> 't entry \<Rightarrow> engine \<Rightarrow>
     engine \<times> (world_event \<times> upsert_outcome) list" where
  "on_source_change now pid from_st to_st entry en =
     (case consider_change (en_throttle en) now pid from_st to_st entry (en_source_last en) of
        (last_emit, None) \<Rightarrow> (en\<lparr>en_source_last := last_emit\<rparr>, [])
      | (last_emit, Some e) \<Rightarrow> ingestEvent e (en\<lparr>en_source_last := last_emit\<rparr>))"

section \<open>Withdrawn objects\<close>

text \<open>The events a withdrawal ends, and what each of them becomes.\<close>

definition to_end :: "world option \<Rightarrow> jstring list \<Rightarrow> int \<Rightarrow> world_event \<Rightarrow> bool" where
  "to_end st gone now e \<longleftrightarrow>
     \<not> (ev_objects e = [] \<or> \<not> list_ex (\<lambda>i. i \<in> set gone) (ev_objects e)) \<and>
     list_all (\<lambda>i. i \<in> set gone \<or> \<not> (case st of Some w \<Rightarrow> map_of (w_objects w) i \<noteq> None | None \<Rightarrow> False)) (ev_objects e) \<and>
     \<not> (has_end e \<and> (case end_time e of Some t \<Rightarrow> t \<le> now | None \<Rightarrow> False))"

definition end_withdrawn :: "int \<Rightarrow> world_event \<Rightarrow> world_event" where
  "end_withdrawn now e =
     e\<lparr>ev_end := Some (case date_parse (ev_start e) of
           Some start \<Rightarrow> if start > now then ev_start e else to_iso now | None \<Rightarrow> to_iso now),
       ev_properties := Some (AList.update (js ''withdrawnAt'') (JStr (to_iso now))
         (case ev_properties e of Some p \<Rightarrow> p | None \<Rightarrow> []))\<rparr>"

definition end_event :: "world option \<Rightarrow> jstring list \<Rightarrow> int \<Rightarrow> world_event \<Rightarrow> telling \<Rightarrow> telling" where
  "end_event st gone now e t = (if to_end st gone now e then keep_event (end_withdrawn now e) t else t)"

definition end_type :: "world option \<Rightarrow> jstring list \<Rightarrow> int \<Rightarrow> jstring \<Rightarrow> telling \<Rightarrow> telling" where
  "end_type st gone now ty t = fold (end_event st gone now) (events_of_type (en_store (fst t)) ty) t"

definition endWithdrawn :: "world option \<Rightarrow> jstring list \<Rightarrow> int \<Rightarrow> engine \<Rightarrow> telling" where
  "endWithdrawn st gone now en =
     fold (end_type st gone now) (concat (map ru_events (filter ru_withdrawn (en_rules en)))) (en, empty_batch, [])"

section \<open>Changes of the world\<close>

definition onStateChange :: "world \<Rightarrow> int \<Rightarrow> state_change \<Rightarrow> engine \<Rightarrow> engine \<times> (world_event \<times> upsert_outcome) list" where
  "onStateChange w now change en =
     (let obs = concat (map (\<lambda>i. case map_of (w_objects w) i of Some ob \<Rightarrow> [ob] | None \<Rightarrow> [])
            (sc_added change @ sc_updated change));
          rules = (if sc_removed change \<noteq> [] then en_rules en
                   else filter (\<lambda>r. ru_scope r = Changed \<or> list_ex (\<lambda>ob. wo_type ob \<in> set (ru_objects r)) obs) (en_rules en))
      in if obs = [] \<and> sc_removed change = [] then (en, [])
         else (case run_rules (Some w) obs now rules en of
                 (en1, b1, heard1) \<Rightarrow>
                   (case sc_withdrawn change of
                      None \<Rightarrow> (en1, heard1)
                    | Some gone \<Rightarrow>
                        if gone = [] then (en1, heard1)
                        else (case endWithdrawn (Some w) gone now en1 of (en2, b2, heard2) \<Rightarrow> (en2, heard1 @ heard2)))))"

section \<open>Nothing enters the store untold\<close>

abbreviation stored :: "engine \<Rightarrow> jstring \<Rightarrow> world_event option" where
  "stored en \<equiv> map_of (st_byId (en_store en))"

lemma evict_keeps: "map_of (st_byId (evict_events s)) i = Some e \<Longrightarrow> map_of (st_byId s) i = Some e"
proof (induction s rule: evict_events.induct)
  case (1 s)
  show ?case
  proof (cases "length (st_ordered s) > st_max s")
    case True
    then have "evict_events s = evict_events (unlink_event (last (st_ordered s)) s)"
      by (simp add: evict_events.simps [of s])
    with 1 True have "map_of (st_byId (unlink_event (last (st_ordered s)) s)) i = Some e" by simp
    then show ?thesis by (auto simp: unlink_event_def map_simps split: if_splits)
  next
    case False
    with 1(2) show ?thesis by (simp add: evict_events.simps [of s])
  qed
qed

lemma upsert_known:
  assumes "upsert_event e s = (s', outcome)" "map_of (st_byId s') i = Some e'"
  shows "map_of (st_byId s) i = Some e' \<or> (e' = e \<and> outcome \<noteq> Unchanged)"
proof (cases "map_of (st_byId s) (ev_id e)")
  case None
  then have "s' = evict_events (link_event e s)" "outcome = Added"
    using assms(1) by (auto simp: upsert_event_def)
  with assms(2) evict_keeps [of "link_event e s" i e'] show ?thesis
    by (auto simp: link_event_def Let_def map_simps split: if_splits)
next
  case (Some prev)
  show ?thesis
  proof (cases "fingerprint prev = fingerprint e")
    case True
    with Some assms show ?thesis by (simp add: upsert_event_def)
  next
    case False
    then have "s' = evict_events (link_event e (unlink_event prev s))" "outcome = Updated"
      using Some assms(1) by (auto simp: upsert_event_def)
    with assms(2) evict_keeps [of "link_event e (unlink_event prev s)" i e'] show ?thesis
      by (auto simp: link_event_def unlink_event_def Let_def map_simps split: if_splits)
  qed
qed

text \<open>From one telling to a later one: what is stored was stored, or is heard.\<close>

definition honest :: "telling \<Rightarrow> telling \<Rightarrow> bool" where
  "honest a b \<longleftrightarrow>
     (\<exists>new. snd (snd b) = snd (snd a) @ new \<and>
        (\<forall>i e. stored (fst b) i = Some e \<longrightarrow> stored (fst a) i = Some e \<or> e \<in> fst ` set new))"

lemma honest_refl: "honest a a"
  by (simp add: honest_def)

lemma honest_trans:
  assumes "honest a b" "honest b c"
  shows "honest a c"
proof -
  obtain m n where m: "snd (snd b) = snd (snd a) @ m"
      "\<And>i e. stored (fst b) i = Some e \<Longrightarrow> stored (fst a) i = Some e \<or> e \<in> fst ` set m"
    and n: "snd (snd c) = snd (snd b) @ n"
      "\<And>i e. stored (fst c) i = Some e \<Longrightarrow> stored (fst b) i = Some e \<or> e \<in> fst ` set n"
    using assms unfolding honest_def by metis
  have "stored (fst a) i = Some e \<or> e \<in> fst ` set (m @ n)" if "stored (fst c) i = Some e" for i e
    using n(2) [OF that] m(2) by (auto simp: image_Un)
  then show ?thesis unfolding honest_def using m(1) n(1) by (metis append.assoc)
qed

lemma honest_fold: "(\<And>x a. honest a (f x a)) \<Longrightarrow> honest a (fold f xs a)"
proof (induction xs arbitrary: a)
  case (Cons x xs)
  show ?case using honest_trans [OF Cons.prems Cons.IH [OF Cons.prems]] by simp
qed (simp add: honest_refl)

lemma honest_same_store: "en_store en' = en_store en \<Longrightarrow> honest (en, b, heard) (en', b, heard)"
  by (simp add: honest_def)

lemma honest_keep: "honest a (keep_event e a)"
proof -
  obtain en b heard where a: "a = (en, b, heard)" by (cases a)
  obtain s outcome where u: "upsert_event e (en_store en) = (s, outcome)" by fastforce
  show ?thesis
    using upsert_known [OF u] by (fastforce simp: a honest_def keep_event_def u)
qed

lemma known_store: "en_store (fst (known_of_type st now t a)) = en_store (fst a)"
  by (cases a) (auto simp: known_of_type_def Let_def split: option.splits)

lemma all_known_store: "en_store (fst (all_known st now types en)) = en_store en"
proof -
  have "en_store (fst (fold (known_of_type st now) ts a)) = en_store (fst a)" for ts a
    by (induction ts arbitrary: a) (simp_all add: known_store)
  from this [of types "(en, [])"] show ?thesis
    by (cases "fold (known_of_type st now) types (en, [])") (simp add: all_known_def)
qed

lemma honest_rule: "honest a (run_rule st obs now r a)"
proof -
  obtain en b hs where a: "a = (en, b, hs)" by (cases a)
  obtain en1 input where i: "(if ru_scope r = All_Known then all_known st now (ru_objects r) en
      else (en, filter (\<lambda>ob. wo_type ob \<in> set (ru_objects r)) obs)) = (en1, input)" by fastforce
  have "en_store en1 = en_store en"
    using i all_known_store [of st now "ru_objects r" en] by (auto split: if_splits)
  then have h: "honest a (en1, b, hs)" unfolding a by (rule honest_same_store)
  have "run_rule st obs now r a = (en1, b, hs) \<or> (\<exists>es. run_rule st obs now r a = fold keep_event es (en1, b, hs))"
    unfolding a run_rule_def by (simp add: i) blast
  then show ?thesis
    using h honest_trans [OF h honest_fold [of keep_event, OF honest_keep]] by auto
qed

lemma honest_rules: "honest (en, empty_batch, []) (run_rules st obs now rules en)"
  unfolding run_rules_def by (rule honest_fold) (rule honest_rule)

lemma honest_end_event: "honest a (end_event st gone now e a)"
  by (simp add: end_event_def honest_keep honest_refl)

lemma honest_withdrawn: "honest (en, empty_batch, []) (endWithdrawn st gone now en)"
  unfolding endWithdrawn_def end_type_def by (intro honest_fold honest_end_event)

section \<open>Calls\<close>

datatype 't engine_call =
    Ingest_Batch "world option" int "world_object list"
  | End_Quiet "world option" int
  | Reevaluate "world option" int
  | Ingest_Event world_event
  | State_Change world int state_change
  | Source_Change int jstring provider_status provider_status "'t entry"

type_synonym announcements = "(world_event \<times> upsert_outcome) list"

definition announced_by :: "telling \<Rightarrow> engine \<times> announcements" where
  "announced_by t = (fst t, snd (snd t))"

fun engine_step :: "'t engine_call \<Rightarrow> engine \<Rightarrow> engine \<times> announcements" where
  "engine_step (Ingest_Batch st now obs) en = announced_by (ingestBatch st now obs en)"
| "engine_step (End_Quiet st now) en = announced_by (endQuiet st now en)"
| "engine_step (Reevaluate st now) en = announced_by (reevaluate st now en)"
| "engine_step (Ingest_Event e) en = ingestEvent e en"
| "engine_step (State_Change w now change) en = onStateChange w now change en"
| "engine_step (Source_Change now pid a b entry) en = on_source_change now pid a b entry en"

fun engine_run :: "'t engine_call list \<Rightarrow> engine \<Rightarrow> engine \<times> announcements" where
  "engine_run [] en = (en, [])"
| "engine_run (c # cs) en =
     (case engine_step c en of (en1, hs1) \<Rightarrow> (case engine_run cs en1 of (en2, hs2) \<Rightarrow> (en2, hs1 @ hs2)))"

definition honest_step :: "engine \<Rightarrow> engine \<times> announcements \<Rightarrow> bool" where
  "honest_step en r \<longleftrightarrow>
     (\<forall>i e. stored (fst r) i = Some e \<longrightarrow> stored en i = Some e \<or> e \<in> fst ` set (snd r))"

lemma honest_announced: "honest (en, b, []) t \<Longrightarrow> en_store en = en_store en0 \<Longrightarrow> honest_step en0 (announced_by t)"
  by (auto simp: honest_def honest_step_def announced_by_def)

lemma honest_ingest: "honest_step en (ingestEvent e en)"
proof -
  obtain s outcome where u: "upsert_event e (en_store en) = (s, outcome)" by fastforce
  show ?thesis
    using upsert_known [OF u] by (fastforce simp: honest_step_def ingestEvent_def u)
qed

lemma honest_step_join:
  "honest_step en (en1, hs1) \<Longrightarrow> honest_step en1 (en2, hs2) \<Longrightarrow> honest_step en (en2, hs1 @ hs2)"
  unfolding honest_step_def by (simp add: image_Un) blast

lemma honest_state_change: "honest_step en (onStateChange w now change en)"
proof -
  obtain obs rules where o: "onStateChange w now change en =
      (if obs = [] \<and> sc_removed change = [] then (en, [])
       else (case run_rules (Some w) obs now rules en of
               (en1, b1, heard1) \<Rightarrow>
                 (case sc_withdrawn change of
                    None \<Rightarrow> (en1, heard1)
                  | Some gone \<Rightarrow>
                      if gone = [] then (en1, heard1)
                      else (case endWithdrawn (Some w) gone now en1 of (en2, b2, heard2) \<Rightarrow> (en2, heard1 @ heard2)))))"
    unfolding onStateChange_def Let_def by blast
  obtain en1 b1 h1 where r: "run_rules (Some w) obs now rules en = (en1, b1, h1)" by (metis prod_cases3)
  have s1: "honest_step en (en1, h1)"
    using honest_announced [OF honest_rules refl, of en "Some w" obs now rules] by (simp add: r announced_by_def)
  have s0: "honest_step en (en, [])" by (simp add: honest_step_def)
  show ?thesis
  proof (cases "sc_withdrawn change")
    case None
    with s0 s1 show ?thesis by (simp add: o r)
  next
    case (Some gone)
    obtain en2 b2 h2 where w: "endWithdrawn (Some w) gone now en1 = (en2, b2, h2)" by (metis prod_cases3)
    have "honest_step en1 (en2, h2)"
      using honest_announced [OF honest_withdrawn refl, of en1 "Some w" gone now] by (simp add: w announced_by_def)
    with s0 s1 honest_step_join [OF s1 this] Some show ?thesis by (simp add: o r w)
  qed
qed

lemma honest_engine_step: "honest_step en (engine_step c en)"
proof (cases c)
  case (Ingest_Batch st now obs)
  have "en_store (remember_objects st now obs en) = en_store en" by (simp add: remember_objects_def Let_def)
  then show ?thesis unfolding Ingest_Batch engine_step.simps ingestBatch_def by (rule honest_announced [OF honest_rules])
next
  case (Source_Change now pid a b entry)
  obtain l r where c: "consider_change (en_throttle en) now pid a b entry (en_source_last en) = (l, r)" by fastforce
  have "honest_step en (ingestEvent e (en\<lparr>en_source_last := l\<rparr>))" for e
    using honest_ingest [of "en\<lparr>en_source_last := l\<rparr>" e] by (simp add: honest_step_def)
  then show ?thesis
    by (cases r) (simp_all add: Source_Change on_source_change_def c honest_step_def)
qed (simp_all add: honest_ingest honest_state_change endQuiet_def reevaluate_def honest_announced [OF honest_rules refl])

lemma honest_run: "honest_step en (engine_run cs en)"
proof (induction cs arbitrary: en)
  case (Cons c cs)
  obtain en1 h1 where s: "engine_step c en = (en1, h1)" by fastforce
  obtain en2 h2 where r: "engine_run cs en1 = (en2, h2)" by fastforce
  show ?case
    using honest_step_join [of en en1 h1 en2 h2] honest_engine_step [of en c] Cons.IH [of en1] by (simp add: s r)
qed (simp add: honest_step_def)

text \<open>
  C13: Whatever is handed to the engine, through batches, changes of a world, events from
  outside or changes of a source, every event that is in its store afterwards was there before or
  has been told to the listeners.
\<close>
theorem no_silent_events:
  fixes cs :: "'t engine_call list"
  assumes "stored (fst (engine_run cs en)) i = Some e"
  shows "stored en i = Some e \<or> (\<exists>outcome. (e, outcome) \<in> set (snd (engine_run cs en)))"
  using honest_run [of en cs] assms by (fastforce simp: honest_step_def)

theorem no_silent_events_witness:
  "stored (new_engine None [] None None) (js ''e1'') = None \<and>
   (\<exists>outcome. (sample_event, outcome) \<in>
      set (snd (engine_run [Ingest_Event sample_event :: unit engine_call] (new_engine None [] None None))))"
proof -
  define en where "en = new_engine None [] None None"
  have st: "en_store en = new_store None" by (simp add: en_def new_engine_def)
  have none: "stored en (js ''e1'') = None" by (simp add: st new_store_def)
  have i: "ev_id sample_event = js ''e1''" by (simp add: sample_event_def)
  have ok: "store_ok (fst (upsert_event sample_event (new_store None)))"
    "st_ordered (fst (upsert_event sample_event (new_store None))) =
      spec_step (st_max (new_store None)) (Upsert sample_event) (st_ordered (new_store None))"
    using upsert_step [OF store_ok_new sample_event_readable] by blast+
  have "st_max (new_store None) = 20000" "st_ordered (new_store None) = []" by (simp_all add: new_store_def)
  with ok(2) have "sample_event \<in> set (st_ordered (fst (upsert_event sample_event (new_store None))))" by simp
  with store_okD(5) [OF ok(1)] i
  have "map_of (st_byId (fst (upsert_event sample_event (new_store None)))) (js ''e1'') = Some sample_event" by blast
  then have "stored (fst (engine_run [Ingest_Event sample_event :: unit engine_call] en)) (js ''e1'') = Some sample_event"
    by (cases "upsert_event sample_event (new_store None)") (simp add: ingestEvent_def st)
  from no_silent_events [OF this] none show ?thesis unfolding en_def [symmetric] by simp
qed

section \<open>Withdrawn objects end their events\<close>

definition with_room :: "event_store \<Rightarrow> bool" where
  "with_room s \<longleftrightarrow> store_ok s \<and> length (st_ordered s) \<le> st_max s"

lemma replace_stored:
  assumes r: "with_room s" and prev: "map_of (st_byId s) (ev_id x) = Some prev" and x: "readable_event x"
    and u: "upsert_event x s = (s', outcome)"
  shows "with_room s' \<and>
    map_of (st_byId s') = (map_of (st_byId s))(ev_id x \<mapsto> (if fingerprint prev = fingerprint x then prev else x)) \<and>
    outcome = (if fingerprint prev = fingerprint x then Unchanged else Updated)"
proof (cases "fingerprint prev = fingerprint x")
  case True
  with prev u r show ?thesis by (auto simp: upsert_event_def fun_eq_iff)
next
  case False
  have s: "store_ok s" using r by (simp add: with_room_def)
  have p: "prev \<in> set (st_ordered s)" "ev_id prev = ev_id x" using store_okD(5) [OF s] prev by blast+
  have s': "store_ok s'" "st_max s' = st_max s" "st_ordered s' = spec_step (st_max s) (Upsert x) (st_ordered s)"
    using upsert_step [OF s x] u by auto
  have only: "a = prev" if "a \<in> set (st_ordered s)" "ev_id a = ev_id x" for a
    using same_id [OF s that(1) p(1)] that(2) p(2) by simp
  have "length (filter (\<lambda>a. ev_id a \<noteq> ev_id x) (st_ordered s)) < length (st_ordered s)"
    by (rule length_filter_less [OF p(1)]) (simp add: p(2))
  then have len: "length (insort_key event_key x (filter (\<lambda>a. ev_id a \<noteq> ev_id x) (st_ordered s))) \<le> st_max s"
    using r by (simp add: with_room_def)
  have new: "\<not> (\<exists>a\<in>set (st_ordered s). ev_id a = ev_id x \<and> fingerprint a = fingerprint x)"
    using only False by blast
  have ord: "st_ordered s' = insort_key event_key x (filter (\<lambda>a. ev_id a \<noteq> ev_id x) (st_ordered s))"
    using s'(3) len new by simp
  have set': "set (st_ordered s') = insert x {a \<in> set (st_ordered s). ev_id a \<noteq> ev_id x}"
    by (simp add: ord set_insort_key)
  have "map_of (st_byId s') i = ((map_of (st_byId s))(ev_id x \<mapsto> x)) i" for i
  proof (cases "i = ev_id x")
    case True
    have "x \<in> set (st_ordered s')" unfolding set' by simp
    then have "map_of (st_byId s') (ev_id x) = Some x" using store_okD(5) [OF s'(1)] by blast
    with True show ?thesis by simp
  next
    case False
    have "map_of (st_byId s') i = Some e \<longleftrightarrow> map_of (st_byId s) i = Some e" for e
      unfolding store_okD(5) [OF s'(1)] store_okD(5) [OF s] set' using False by auto
    then have "map_of (st_byId s') i = map_of (st_byId s) i" by (metis option.exhaust)
    with False show ?thesis by simp
  qed
  then have "map_of (st_byId s') = (map_of (st_byId s))(ev_id x \<mapsto> x)" by blast
  moreover have "with_room s'" using s' len by (simp add: with_room_def ord)
  moreover have "outcome = Updated" using u prev False by (auto simp: upsert_event_def)
  ultimately show ?thesis using False by simp
qed

lemma end_withdrawn_same [simp]:
  "ev_id (end_withdrawn now e) = ev_id e" "ev_type (end_withdrawn now e) = ev_type e"
  "readable_event (end_withdrawn now e) = readable_event e" "ev_objects (end_withdrawn now e) = ev_objects e"
  by (simp_all add: end_withdrawn_def readable_event_def)

lemma update_twice: "AList.update k v (AList.update k v m) = AList.update k v m"
  by (induction m) auto

lemma end_withdrawn_twice: "end_withdrawn now (end_withdrawn now e) = end_withdrawn now e"
  by (cases "date_parse (ev_start e)") (simp_all add: end_withdrawn_def update_twice del: js_simps)

text \<open>What the store holds for an event after a withdrawal.\<close>

definition after_withdrawal :: "world option \<Rightarrow> jstring list \<Rightarrow> int \<Rightarrow> world_event \<Rightarrow> world_event" where
  "after_withdrawal st gone now e =
     (if to_end st gone now e \<and> fingerprint e \<noteq> fingerprint (end_withdrawn now e) then end_withdrawn now e else e)"

lemma after_withdrawal_same [simp]:
  "ev_id (after_withdrawal st gone now e) = ev_id e" "ev_type (after_withdrawal st gone now e) = ev_type e"
  by (simp_all add: after_withdrawal_def)

lemma after_withdrawal_twice:
  "after_withdrawal st gone now (after_withdrawal st gone now e) = after_withdrawal st gone now e"
  by (simp add: after_withdrawal_def end_withdrawn_twice)

lemma end_one_event:
  assumes r: "with_room (en_store en)" and x: "stored en (ev_id x) = Some x"
    and e: "end_event st gone now x (en, b, hs) = (en', b', hs')"
  shows "with_room (en_store en') \<and> stored en' = (stored en)(ev_id x \<mapsto> after_withdrawal st gone now x) \<and>
    hs' = hs @ (if after_withdrawal st gone now x \<noteq> x then [(end_withdrawn now x, Updated)] else [])"
proof (cases "to_end st gone now x")
  case False
  with e r x show ?thesis by (auto simp: end_event_def after_withdrawal_def)
next
  case True
  obtain s outcome where u: "upsert_event (end_withdrawn now x) (en_store en) = (s, outcome)" by fastforce
  have "readable_event x" using x r store_okD(3,5) [of "en_store en"] by (auto simp: with_room_def)
  then have rep: "with_room s \<and>
      map_of (st_byId s) = (stored en)(ev_id x \<mapsto> (if fingerprint x = fingerprint (end_withdrawn now x) then x else end_withdrawn now x)) \<and>
      outcome = (if fingerprint x = fingerprint (end_withdrawn now x) then Unchanged else Updated)"
    using replace_stored [OF r _ _ u, of x] x by simp
  have "en' = en\<lparr>en_store := s\<rparr>" "hs' = hs @ (if outcome \<noteq> Unchanged then [(end_withdrawn now x, outcome)] else [])"
    using e True by (simp_all add: end_event_def keep_event_def u)
  with rep True show ?thesis by (auto simp: after_withdrawal_def)
qed

lemma end_events:
  "with_room (en_store en) \<Longrightarrow> distinct (map ev_id xs) \<Longrightarrow> \<forall>x\<in>set xs. stored en (ev_id x) = Some x \<Longrightarrow>
    fold (end_event st gone now) xs (en, b, hs) = (en', b', hs') \<Longrightarrow>
    with_room (en_store en') \<and>
    stored en' = (\<lambda>i. if i \<in> ev_id ` set xs then map_option (after_withdrawal st gone now) (stored en i) else stored en i) \<and>
    set hs' = set hs \<union> {(end_withdrawn now x, Updated) | x. x \<in> set xs \<and> after_withdrawal st gone now x \<noteq> x}"
proof (induction xs arbitrary: en b hs)
  case Nil
  then show ?case by simp
next
  case (Cons x xs)
  obtain en1 b1 h1 where e: "end_event st gone now x (en, b, hs) = (en1, b1, h1)" by (metis prod_cases3)
  have x: "stored en (ev_id x) = Some x" using Cons.prems(3) by simp
  note one = end_one_event [OF Cons.prems(1) x e]
  have "ev_id y \<noteq> ev_id x" if "y \<in> set xs" for y using that Cons.prems(2) by (auto simp: image_iff)
  then have rest: "\<forall>y\<in>set xs. stored en1 (ev_id y) = Some y" using one Cons.prems(3) by simp
  have "distinct (map ev_id xs)" "fold (end_event st gone now) xs (en1, b1, h1) = (en', b', hs')"
    using Cons.prems(2,4) e by simp_all
  note ih = Cons.IH [OF conjunct1 [OF one] this(1) rest this(2)]
  have "ev_id x \<notin> ev_id ` set xs" using Cons.prems(2) by simp
  then have "stored en' = (\<lambda>i. if i \<in> ev_id ` set (x # xs)
      then map_option (after_withdrawal st gone now) (stored en i) else stored en i)"
    using ih one x by (auto simp: fun_eq_iff)
  moreover have "set hs' = set hs \<union> {(end_withdrawn now y, Updated) | y. y \<in> set (x # xs) \<and> after_withdrawal st gone now y \<noteq> y}"
    using ih one by auto
  ultimately show ?case using ih by blast
qed

lemma end_type_result:
  assumes r: "with_room (en_store en)" and e: "end_type st gone now ty (en, b, hs) = (en', b', hs')"
  shows "with_room (en_store en') \<and>
    stored en' = (\<lambda>i. map_option (\<lambda>e. if ev_type e = ty then after_withdrawal st gone now e else e) (stored en i)) \<and>
    set hs' = set hs \<union> {(end_withdrawn now x, Updated) | x i. stored en i = Some x \<and> ev_type x = ty \<and> after_withdrawal st gone now x \<noteq> x}"
proof -
  let ?s = "en_store en" and ?xs = "events_of_type (en_store en) ty"
  have s: "store_ok ?s" using r by (simp add: with_room_def)
  have xs: "?xs = filter (\<lambda>e. ev_type e = ty) (st_ordered ?s)" by (rule store_reads [OF s])
  have d: "distinct (map ev_id ?xs)" unfolding xs using store_okD(1) [OF s] by (rule distinct_map_filter)
  have v: "\<forall>x\<in>set ?xs. stored en (ev_id x) = Some x" unfolding xs using store_okD(5) [OF s] by auto
  have "fold (end_event st gone now) ?xs (en, b, hs) = (en', b', hs')" using e by (simp add: end_type_def)
  note result = end_events [OF r d v this]
  have mem: "i \<in> ev_id ` set ?xs \<longleftrightarrow> (\<exists>x. stored en i = Some x \<and> ev_type x = ty)" for i
    unfolding xs using store_okD(5) [OF s, of i] by auto
  have "stored en' i = map_option (\<lambda>e. if ev_type e = ty then after_withdrawal st gone now e else e) (stored en i)" for i
    using result mem [of i] by (cases "stored en i") auto
  moreover have "x \<in> set ?xs \<longleftrightarrow> (\<exists>i. stored en i = Some x \<and> ev_type x = ty)" for x
    unfolding xs using store_okD(5) [OF s] by auto
  ultimately show ?thesis using result by auto
qed

lemma end_types_result:
  "with_room (en_store en) \<Longrightarrow> fold (end_type st gone now) tys (en, b, hs) = (en', b', hs') \<Longrightarrow>
    with_room (en_store en') \<and>
    stored en' = (\<lambda>i. map_option (\<lambda>e. if ev_type e \<in> set tys then after_withdrawal st gone now e else e) (stored en i)) \<and>
    set hs' = set hs \<union> {(end_withdrawn now x, Updated) | x i. stored en i = Some x \<and> ev_type x \<in> set tys \<and> after_withdrawal st gone now x \<noteq> x}"
proof (induction tys arbitrary: en b hs)
  case Nil
  then show ?case by (simp add: option.map_ident)
next
  case (Cons ty tys)
  obtain en1 b1 h1 where e: "end_type st gone now ty (en, b, hs) = (en1, b1, h1)" by (metis prod_cases3)
  note one = end_type_result [OF Cons.prems(1) e]
  have "fold (end_type st gone now) tys (en1, b1, h1) = (en', b', hs')" using Cons.prems(2) e by simp
  note ih = Cons.IH [OF conjunct1 [OF one] this]
  let ?G = "after_withdrawal st gone now"
  have st1: "stored en1 i = map_option (\<lambda>e. if ev_type e = ty then ?G e else e) (stored en i)" for i
    using one by (simp add: fun_eq_iff)
  have "stored en' i = map_option (\<lambda>e. if ev_type e \<in> set (ty # tys) then ?G e else e) (stored en i)" for i
    using ih st1 [of i] by (cases "stored en i") (auto simp: fun_eq_iff after_withdrawal_twice)
  moreover have "(\<exists>i. stored en1 i = Some x \<and> ev_type x \<in> set tys \<and> ?G x \<noteq> x) \<longleftrightarrow>
      (\<exists>i. stored en i = Some x \<and> ev_type x \<noteq> ty \<and> ev_type x \<in> set tys \<and> ?G x \<noteq> x)" for x
  proof
    assume "\<exists>i. stored en1 i = Some x \<and> ev_type x \<in> set tys \<and> ?G x \<noteq> x"
    then obtain i y where y: "stored en i = Some y" "x = (if ev_type y = ty then ?G y else y)"
      "ev_type x \<in> set tys" "?G x \<noteq> x" using st1 by auto
    then have "ev_type y \<noteq> ty" by (auto simp: after_withdrawal_twice)
    with y show "\<exists>i. stored en i = Some x \<and> ev_type x \<noteq> ty \<and> ev_type x \<in> set tys \<and> ?G x \<noteq> x" by auto
  qed (auto simp: st1)
  ultimately show ?case using ih one by (auto 0 3)
qed


definition listed_rule :: object_rule where
  "listed_rule = \<lparr>ru_id = js ''listed'', ru_objects = [], ru_events = [js ''earthquake''], ru_scope = Changed,
     ru_quiet = False, ru_withdrawn = True, ru_evaluate = (\<lambda>os ctx. [])\<rparr>"

lemma sample_event_ends: "fingerprint sample_event \<noteq> fingerprint (end_withdrawn 60000 sample_event)"
proof -
  have "fingerprint sample_event \<noteq>
      fingerprint (sample_event\<lparr>ev_end := Some t, ev_properties := Some [(js ''withdrawnAt'', JStr t)]\<rparr>)" for t
    by (simp add: fingerprint_def obj_of_def sample_event_def json_text_def)
  moreover have "end_withdrawn 60000 sample_event =
      sample_event\<lparr>ev_end := Some (to_iso 60000), ev_properties := Some [(js ''withdrawnAt'', JStr (to_iso 60000))]\<rparr>"
    using epoch_readable by (simp add: end_withdrawn_def sample_event_def del: js_simps)
  ultimately show ?thesis by simp
qed


end
