(* ===== verification/Fingerprints.thy ===== *)
theory Fingerprints
  imports Event_Rules
begin

text \<open>
  What the store compares events by (\<^verbatim>\<open>fingerprint\<close> in \<^verbatim>\<open>packages/event-engine/src/store.ts\<close>) tells an event
  that has ended from one that has not: the keys of an object are written in order, so the end,
  when there is one, comes second, after the confidence.
\<close>

lemma sort_key_least:
  fixes f :: "'a \<Rightarrow> 'b::linorder"
  assumes "\<And>y. y \<in> set ys \<Longrightarrow> f x < f y" "\<And>z. z \<in> set zs \<Longrightarrow> f x \<le> f z"
  shows "sort_key f (ys @ x # zs) = x # sort_key f (ys @ zs)"
  using assms
proof (induction ys)
  case Nil
  then show ?case by (simp add: insort_is_Cons)
next
  case (Cons y ys)
  have "\<not> f y \<le> f x" using Cons.prems(1) [of y] by simp
  with Cons show ?case by simp
qed

lemma sort_pairs_least:
  fixes k :: "'b::linorder"
  assumes "list_all (\<lambda>p. k < fst p) ys" "list_all (\<lambda>p. k < fst p) zs"
  shows "sort_key fst (ys @ (k, v) # zs) = (k, v) # sort_key fst (ys @ zs)"
  by (rule sort_key_least) (use assms in \<open>auto simp: list_all_iff intro: less_imp_le\<close>)

lemma stable_pairs:
  "sort_key fst (map (\<lambda>(k, v). (k, stableStringify v)) kvs) = (k, t) # rest \<Longrightarrow>
   stableStringify (JObj kvs) = js ''{'' @ json_text k @ 58 # t @
     (case rest of [] \<Rightarrow> [] | _ \<Rightarrow> 44 # join_with 44 (map (\<lambda>(k, t). json_text k @ 58 # t) rest)) @ js ''}''"
  by (cases rest) simp_all

definition opt_pair :: "string \<Rightarrow> json option \<Rightarrow> (jstring \<times> jstring) list" where
  "opt_pair k v = (case v of Some j \<Rightarrow> [(js k, stableStringify j)] | None \<Rightarrow> [])"

lemma opt_pair_keys: "list_all P (opt_pair k v) \<longleftrightarrow> (\<forall>j. v = Some j \<longrightarrow> P (js k, stableStringify j))"
  by (simp add: opt_pair_def split: option.splits)

lemma pairs_of: "map (\<lambda>(k, v). (k, stableStringify v)) (concat (map (\<lambda>(k, v). case v of Some j \<Rightarrow> [(js k, j)] | None \<Rightarrow> []) kvs)) =
    concat (map (\<lambda>(k, v). opt_pair k v) kvs)"
  by (induction kvs) (auto simp: opt_pair_def split: option.splits)

lemma opt_pair_simps: "opt_pair k None = []" "opt_pair k (Some j) = [(js k, stableStringify j)]"
  by (simp_all add: opt_pair_def)

definition later_key :: "jstring \<Rightarrow> bool" where
  "later_key k \<longleftrightarrow> (case k of [] \<Rightarrow> False | c # _ \<Rightarrow> 101 < c \<and> c < 128)"

lemma fingerprint_sorted:
  obtains others where
    "sort_key fst (concat (map (\<lambda>(k, v). opt_pair k v) [
       (''id'', Some (JStr (ev_id e))), (''type'', Some (JStr (ev_type e))), (''title'', Some (JStr (ev_title e))),
       (''startAt'', Some (JStr (ev_start e))), (''endAt'', map_option JStr (ev_end e)),
       (''geometry'', map_option geometry_json (ev_geometry e)), (''objectIds'', Some (JArr (map JStr (ev_objects e)))),
       (''observationRefs'', Some (JArr (map ref_json (ev_refs e)))),
       (''confidence'', Some (JStr (js (confidence_name (ev_confidence e))))),
       (''severity'', map_option (\<lambda>s. JStr (js (severity_name s))) (ev_severity e)),
       (''summary'', Some (JStr (ev_summary e))), (''properties'', map_option JObj (ev_properties e)),
       (''provenance'', Some (provenance_json (ev_provenance e)))])) =
     (js ''confidence'', json_text (js (confidence_name (ev_confidence e)))) # opt_pair ''endAt'' (map_option JStr (ev_end e)) @ others"
    "others \<noteq> []" "list_all (\<lambda>p. js ''endAt'' < fst p) others" "list_all (\<lambda>p. later_key (fst p)) others"
proof -
  define front where "front = [(js ''id'', json_text (ev_id e)), (js ''type'', json_text (ev_type e)),
    (js ''title'', json_text (ev_title e)), (js ''startAt'', json_text (ev_start e))]"
  define tail1 where "tail1 = opt_pair ''geometry'' (map_option geometry_json (ev_geometry e)) @
    [(js ''objectIds'', stableStringify (JArr (map JStr (ev_objects e)))),
     (js ''observationRefs'', stableStringify (JArr (map ref_json (ev_refs e))))]"
  define tail2 where "tail2 = opt_pair ''severity'' (map_option (\<lambda>s. JStr (js (severity_name s))) (ev_severity e)) @
    (js ''summary'', json_text (ev_summary e)) # opt_pair ''properties'' (map_option JObj (ev_properties e)) @
    [(js ''provenance'', stableStringify (provenance_json (ev_provenance e)))]"
  let ?fin = "opt_pair ''endAt'' (map_option JStr (ev_end e))"
  let ?conf = "json_text (js (confidence_name (ev_confidence e)))"
  have big: "list_all (\<lambda>p. js ''endAt'' < fst p) front" "list_all (\<lambda>p. js ''endAt'' < fst p) tail1"
    "list_all (\<lambda>p. js ''endAt'' < fst p) tail2"
    by (simp_all add: front_def tail1_def tail2_def opt_pair_keys)
  have late: "list_all (\<lambda>p. later_key (fst p)) (sort_key fst (front @ tail1 @ tail2))"
  proof -
    have "list_all (\<lambda>p. later_key (fst p)) (front @ tail1 @ tail2)"
      by (simp add: front_def tail1_def tail2_def opt_pair_keys later_key_def)
    then show ?thesis by (simp only: list_all_iff set_sort)
  qed
  have ce: "js ''confidence'' < js ''endAt''" by simp
  have bigger: "list_all (\<lambda>p. js ''confidence'' < fst p) xs" if "list_all (\<lambda>p. js ''endAt'' < fst p) xs"
    for xs :: "(jstring \<times> jstring) list"
    using that less_trans [OF ce] by (auto simp: list_all_iff)
  have e: "list_all (\<lambda>p. js ''confidence'' < fst p) ?fin" using ce by (simp add: opt_pair_keys)
  have "sort_key fst ((front @ ?fin @ tail1) @ (js ''confidence'', ?conf) # tail2) =
      (js ''confidence'', ?conf) # sort_key fst ((front @ ?fin @ tail1) @ tail2)"
    by (rule sort_pairs_least) (use big bigger e in simp_all)
  also have "sort_key fst ((front @ ?fin @ tail1) @ tail2) = ?fin @ sort_key fst (front @ tail1 @ tail2)"
  proof (cases "ev_end e")
    case (Some t)
    show ?thesis
      using sort_pairs_least [of "js ''endAt''" front "tail1 @ tail2" "json_text t"] big
      by (simp add: Some opt_pair_simps del: js_simps)
  qed (simp add: opt_pair_simps)
  finally have s: "sort_key fst ((front @ ?fin @ tail1) @ (js ''confidence'', ?conf) # tail2) =
      (js ''confidence'', ?conf) # ?fin @ sort_key fst (front @ tail1 @ tail2)" .
  have l: "list_all (\<lambda>p. js ''endAt'' < fst p) (sort_key fst (front @ tail1 @ tail2))" using big by (auto simp: list_all_iff)
  have n: "sort_key fst (front @ tail1 @ tail2) \<noteq> []"
  proof
    assume "sort_key fst (front @ tail1 @ tail2) = []"
    then have "set (front @ tail1 @ tail2) = {}" by (metis set_sort list.set(1))
    then show False by (simp add: front_def)
  qed
  show thesis
    by (rule that [OF _ n l late])
      (use s in \<open>simp add: front_def tail1_def tail2_def opt_pair_simps del: js_simps sort_key_simps\<close>)
qed

lemma join_with_Cons: "ps \<noteq> [] \<Longrightarrow> join_with d (p # ps) = p @ d # join_with d ps"
  by (cases ps) simp_all

lemma json_text_head: "101 < c \<Longrightarrow> c < 128 \<Longrightarrow> \<exists>s'. json_text (c # s) = 34 # c # s'"
  by (cases s) (auto simp: json_text_def json_char_def is_lead_def is_trail_def)

lemma fingerprint_head:
  obtains rest where
    "fingerprint e = js ''{'' @ json_text (js ''confidence'') @ 58 # json_text (js (confidence_name (ev_confidence e))) @ 44 # 34 # rest"
    "case ev_end e of Some t \<Rightarrow> (\<exists>r. rest = js ''endAt'' @ 34 # 58 # json_text t @ r) | None \<Rightarrow> (\<exists>c r. rest = c # r \<and> 101 < c)"
proof -
  let ?show = "\<lambda>(k, t :: jstring). json_text k @ 58 # t"
  let ?c = "json_text (js (confidence_name (ev_confidence e)))"
  obtain others where o: "sort_key fst (concat (map (\<lambda>(k, v). opt_pair k v) [
       (''id'', Some (JStr (ev_id e))), (''type'', Some (JStr (ev_type e))), (''title'', Some (JStr (ev_title e))),
       (''startAt'', Some (JStr (ev_start e))), (''endAt'', map_option JStr (ev_end e)),
       (''geometry'', map_option geometry_json (ev_geometry e)), (''objectIds'', Some (JArr (map JStr (ev_objects e)))),
       (''observationRefs'', Some (JArr (map ref_json (ev_refs e)))),
       (''confidence'', Some (JStr (js (confidence_name (ev_confidence e))))),
       (''severity'', map_option (\<lambda>s. JStr (js (severity_name s))) (ev_severity e)),
       (''summary'', Some (JStr (ev_summary e))), (''properties'', map_option JObj (ev_properties e)),
       (''provenance'', Some (provenance_json (ev_provenance e)))])) =
     (js ''confidence'', ?c) # opt_pair ''endAt'' (map_option JStr (ev_end e)) @ others"
    "others \<noteq> []" "list_all (\<lambda>p. later_key (fst p)) others"
    by (rule fingerprint_sorted)
  have "fingerprint e = js ''{'' @ join_with 44 (map ?show
      ((js ''confidence'', ?c) # opt_pair ''endAt'' (map_option JStr (ev_end e)) @ others)) @ js ''}''"
    unfolding fingerprint_def obj_of_def stableStringify.simps(6) pairs_of o(1) ..
  then have f: "fingerprint e = js ''{'' @ json_text (js ''confidence'') @ 58 # ?c @ 44 #
      (case ev_end e of Some t \<Rightarrow> json_text (js ''endAt'') @ 58 # json_text t @ 44 # join_with 44 (map ?show others) @ js ''}''
       | None \<Rightarrow> join_with 44 (map ?show others) @ js ''}'')"
    using o(2) by (cases "ev_end e") (simp_all add: opt_pair_simps join_with_Cons del: js_simps)
  obtain k t os where others: "others = (k, t) # os" using o(2) by (metis list.exhaust surj_pair)
  obtain c s where k: "k = c # s" "101 < c" "c < 128" using o(3) by (auto simp: others later_key_def split: list.splits)
  obtain s' where "json_text k = 34 # c # s'" using json_text_head [OF k(2,3)] k(1) by blast
  then obtain r where r: "join_with 44 (map ?show others) = 34 # c # r"
    by (cases os) (simp_all add: others)
  show thesis
  proof (cases "ev_end e")
    case None
    show ?thesis by (rule that [of "c # r @ js ''}''"]) (use f k(2) in \<open>simp_all add: None r del: js_simps\<close>)
  next
    case (Some t)
    have "json_text (js ''endAt'') = 34 # js ''endAt'' @ [34]"
      by (simp add: json_text_def json_char_def is_lead_def is_trail_def)
    then show ?thesis
      by (intro that [of "js ''endAt'' @ 34 # 58 # json_text t @ 44 # join_with 44 (map ?show others) @ js ''}''"])
        (use f in \<open>simp_all add: Some del: js_simps\<close>)
  qed
qed

lemma json_chars_head: "t \<noteq> [] \<Longrightarrow> \<exists>c s. json_chars t = c # s \<and> c \<noteq> 34"
proof (cases t rule: json_chars.cases)
  case (3 c d s)
  then show ?thesis by (auto simp: json_char_def hex4_def is_lead_def)
qed (auto simp: json_char_def hex4_def)

text \<open>An event that has ended never renders as one that has not.\<close>

lemma fingerprint_end:
  assumes "\<not> has_end a" "has_end b" "ev_confidence a = ev_confidence b"
  shows "fingerprint a \<noteq> fingerprint b"
proof
  assume same: "fingerprint a = fingerprint b"
  obtain ra where a: "fingerprint a = js ''{'' @ json_text (js ''confidence'') @ 58 # json_text (js (confidence_name (ev_confidence a))) @ 44 # 34 # ra"
    "case ev_end a of Some t \<Rightarrow> (\<exists>r. ra = js ''endAt'' @ 34 # 58 # json_text t @ r) | None \<Rightarrow> (\<exists>c r. ra = c # r \<and> 101 < c)"
    by (rule fingerprint_head)
  obtain rb where b: "fingerprint b = js ''{'' @ json_text (js ''confidence'') @ 58 # json_text (js (confidence_name (ev_confidence b))) @ 44 # 34 # rb"
    "case ev_end b of Some t \<Rightarrow> (\<exists>r. rb = js ''endAt'' @ 34 # 58 # json_text t @ r) | None \<Rightarrow> (\<exists>c r. rb = c # r \<and> 101 < c)"
    by (rule fingerprint_head)
  have ra: "ra = rb" using same unfolding a(1) b(1) assms(3) by simp
  obtain t where t: "ev_end b = Some t" "t \<noteq> []" using assms(2) by (auto simp: has_end_def split: option.splits)
  obtain c s where c: "json_chars t = c # s" "c \<noteq> 34" using json_chars_head [OF t(2)] by blast
  have "ev_end a = None \<or> ev_end a = Some []" using assms(1) by (auto simp: has_end_def split: option.splits)
  then show False using a(2) b(2) c unfolding ra by (auto simp: t(1) json_text_def)
qed
end
