(* ===== verification/Episodes.thy ===== *)
theory Episodes
  imports Event_Engine Fingerprints
begin

text \<open>
  What the episode rules (\<^verbatim>\<open>packages/event-engine/src/rules/episodes.ts\<close>) and the engine that runs them make
  true together: however reports, silences and changes of the world are interleaved, an object
  has one open episode at most (\<open>one_open_episode\<close>), and an episode that has been silent for the
  quiet time of its rule is ended when the engine next looks (\<open>silent_episodes_end\<close>).

  \<open>fair_call\<close> says what the runtime sees to: objects come once each in a batch and say when they were
  observed, and nobody else hands in events of the rule's type. The other rules are any rules that
  make events of other types (\<open>foreign\<close>).
\<close>

section \<open>What one evaluation says\<close>

definition episode_object :: "world_event \<Rightarrow> jstring" where
  "episode_object e = (case ev_objects e of [] \<Rightarrow> [] | i # _ \<Rightarrow> i)"

text \<open>An episode that is open.\<close>

definition ongoing :: "world_event \<Rightarrow> bool" where
  "ongoing e \<longleftrightarrow> \<not> has_end e \<and> episode_object e \<noteq> []"

definition said_by :: "episode_spec \<Rightarrow> rule_context \<Rightarrow> by_object \<Rightarrow> by_object \<Rightarrow> world_object \<Rightarrow> world_event list" where
  "said_by spec ctx opened quietly ob = fst (hear spec ctx opened quietly ob ([], []))"

lemma hear_out: "fst (hear spec ctx opened quietly ob a) = fst a @ said_by spec ctx opened quietly ob"
  by (cases a) (auto simp: hear_def said_by_def Let_def split: option.splits said.splits)

lemma fold_hear_out:
  "fst (fold (hear spec ctx opened quietly) obs a) = fst a @ concat (map (said_by spec ctx opened quietly) obs)"
  by (induction obs arbitrary: a) (simp_all add: hear_out)

lemma sort_out_opened:
  "fst (sort_out spec now e a) =
     (if ongoing e then AList.update (episode_object e) e (fst a) else fst a)"
  by (cases a) (auto simp: sort_out_def ongoing_def episode_object_def split: list.splits option.splits)

lemma sort_out_quietly:
  "snd (sort_out spec now e a) = snd a \<or>
   snd (sort_out spec now e a) = AList.update (episode_object e) e (snd a)"
  by (cases a) (auto simp: sort_out_def ongoing_def episode_object_def split: list.splits option.splits)

lemma opened_distinct:
  "distinct (map fst (fst a)) \<Longrightarrow> distinct (map fst (fst (fold (sort_out spec now) es a)))"
  by (induction es arbitrary: a) (simp_all add: sort_out_opened distinct_update)

lemma opened_complete:
  "ongoing e \<Longrightarrow> e \<in> set es \<Longrightarrow> map_of (fst (fold (sort_out spec now) es a)) (episode_object e) \<noteq> None"
proof (induction es arbitrary: a)
  case (Cons x xs)
  have stays: "map_of (fst b) i \<noteq> None \<Longrightarrow> map_of (fst (fold (sort_out spec now) ys b)) i \<noteq> None" for b ys i
    by (induction ys arbitrary: b) (auto simp: sort_out_opened map_simps)
  show ?case
  proof (cases "e = x")
    case True
    with Cons.prems have "map_of (fst (sort_out spec now x a)) (episode_object e) \<noteq> None"
      by (simp add: sort_out_opened map_simps)
    with stays show ?thesis by simp
  qed (use Cons in auto)
qed simp

lemma opened_sound:
  "map_of (fst (fold (sort_out spec now) es a)) i = Some e \<Longrightarrow>
   map_of (fst a) i = Some e \<or> (e \<in> set es \<and> ongoing e \<and> episode_object e = i)"
proof (induction es arbitrary: a)
  case (Cons x xs)
  from Cons.IH [of "sort_out spec now x a"] Cons.prems show ?case
    by (auto simp: sort_out_opened map_simps split: if_splits)
qed simp

lemma quietly_sound:
  "map_of (snd (fold (sort_out spec now) es a)) i = Some e \<Longrightarrow>
   map_of (snd a) i = Some e \<or> (e \<in> set es \<and> episode_object e = i)"
proof (induction es arbitrary: a)
  case (Cons x xs)
  from Cons.IH [of "sort_out spec now x a"] Cons.prems sort_out_quietly [of spec now x a] show ?case
    by (auto simp: map_simps split: if_splits)
qed simp

text \<open>What an open episode among the results is about, and which event it goes on with.\<close>

lemma eventFor_simps [simp]:
  "ev_id (eventFor spec i ob p k start ctx) = i" "ev_type (eventFor spec i ob p k start ctx) = es_event spec"
  "episode_object (eventFor spec i ob p k start ctx) = wo_id ob" "ev_start (eventFor spec i ob p k start ctx) = start"
  "ev_end (eventFor spec i ob p k start ctx) = None"
  by (simp_all add: eventFor_def episode_object_def)

lemma end_episode_simps [simp]:
  "ev_id (end_episode spec e t c) = ev_id e" "ev_type (end_episode spec e t c) = ev_type e"
  "ev_start (end_episode spec e t c) = ev_start e" "ev_end (end_episode spec e t c) = Some t"
  "ev_objects (end_episode spec e t c) = ev_objects e"
  by (simp_all add: end_episode_def)

lemma to_iso_nonempty: "to_iso t \<noteq> []"
  by (simp add: to_iso_def Let_def split: prod.splits)

lemma readable_nonempty: "date_parse t \<noteq> None \<Longrightarrow> t \<noteq> []"
  by (auto simp: date_parse_def iso_fields_def slice_def)

lemma said_cases:
  assumes "x \<in> set (said_by spec ctx opened quietly ob)"
  obtains (follow) prev p k where "map_of opened (wo_id ob) = Some prev" "wo_position ob = Some p"
      "x = eventFor spec (ev_id prev) ob p k (ev_start prev) ctx"
    | (clear) prev where "map_of opened (wo_id ob) = Some prev" "x = end_episode spec prev (wo_observed ob) True"
    | (resume) r p k where "map_of opened (wo_id ob) = None" "map_of quietly (wo_id ob) = Some r" "wo_position ob = Some p"
      "x = eventFor spec (ev_id r) ob p k (ev_start r) ctx"
    | (anew) i p k where "map_of opened (wo_id ob) = None" "wo_position ob = Some p"
      "x = eventFor spec i ob p k (wo_observed ob) ctx"
  using assms unfolding said_by_def hear_def Let_def
  by (auto split: option.splits said.splits if_splits)

lemma said_length: "length (said_by spec ctx opened quietly ob) \<le> 1"
  by (auto simp: said_by_def hear_def Let_def split: option.splits said.splits)


section \<open>One episode of an object at a time\<close>

definition episodes_ok :: "episode_spec \<Rightarrow> engine \<Rightarrow> bool" where
  "episodes_ok spec en \<longleftrightarrow> with_room (en_store en) \<and>
     (\<forall>a b i j. stored en i = Some a \<and> stored en j = Some b \<and> ev_type a = es_event spec \<and> ev_type b = es_event spec \<and>
        ongoing a \<and> ongoing b \<and> episode_object a = episode_object b \<longrightarrow> i = j)"

lemma episodes_okD:
  assumes "episodes_ok spec en"
  shows "with_room (en_store en)" "store_ok (en_store en)"
    "\<And>a b i j. stored en i = Some a \<Longrightarrow> stored en j = Some b \<Longrightarrow> ev_type a = es_event spec \<Longrightarrow>
       ev_type b = es_event spec \<Longrightarrow> ongoing a \<Longrightarrow> ongoing b \<Longrightarrow> episode_object a = episode_object b \<Longrightarrow> i = j"
  using assms unfolding episodes_ok_def with_room_def by blast+

lemma room_after_upsert:
  assumes "with_room s" "readable_event e"
  shows "with_room (fst (upsert_event e s))"
proof -
  have "store_ok s" using assms(1) by (simp add: with_room_def)
  note u = upsert_step [OF this assms(2)]
  have "length (spec_step (st_max s) (Upsert e) (st_ordered s)) \<le> st_max s"
    using assms(1) by (auto simp: with_room_def)
  with u show ?thesis by (simp add: with_room_def)
qed

text \<open>An event that may join the store: if it is an open episode, no other is open for its object.\<close>

definition may_join :: "episode_spec \<Rightarrow> engine \<Rightarrow> world_event \<Rightarrow> bool" where
  "may_join spec en x \<longleftrightarrow> readable_event x \<and>
     (ev_type x = es_event spec \<and> ongoing x \<longrightarrow>
        (\<forall>i e. stored en i = Some e \<and> ev_type e = es_event spec \<and> ongoing e \<and> episode_object e = episode_object x \<longrightarrow>
           i = ev_id x))"

lemma stored_id: "with_room (en_store en) \<Longrightarrow> stored en i = Some e \<Longrightarrow> ev_id e = i"
  using store_okD(5) [of "en_store en"] by (simp add: with_room_def)

lemma keep_joining:
  assumes ok: "episodes_ok spec en" and x: "may_join spec en x"
  shows "episodes_ok spec (fst (keep_event x (en, b, hs)))"
    "\<And>i e. stored (fst (keep_event x (en, b, hs))) i = Some e \<Longrightarrow> stored en i = Some e \<or> e = x"
    "en_rules (fst (keep_event x (en, b, hs))) = en_rules en"
proof -
  obtain s outcome where u: "upsert_event x (en_store en) = (s, outcome)" by fastforce
  define en1 where "en1 = fst (keep_event x (en, b, hs))"
  have st: "en_store en1 = s" by (simp add: en1_def keep_event_def u)
  have "with_room (en_store en)" "readable_event x" using episodes_okD(1) [OF ok] x by (simp_all add: may_join_def)
  with room_after_upsert [of "en_store en" x] have r: "with_room (en_store en1)" by (simp add: st u)
  have new: "stored en i = Some e \<or> e = x" if "stored en1 i = Some e" for i e
    using upsert_known [OF u] that by (auto simp: st)
  have "i = j" if a: "stored en1 i = Some a" "stored en1 j = Some c" "ev_type a = es_event spec" "ev_type c = es_event spec"
      "ongoing a" "ongoing c" "episode_object a = episode_object c" for a c i j
  proof -
    have ids: "ev_id a = i" "ev_id c = j" using stored_id [OF r] a(1,2) by simp_all
    have "(stored en i = Some a \<or> a = x) \<and> (stored en j = Some c \<or> c = x)" using new a(1,2) by blast
    then consider "stored en i = Some a" "stored en j = Some c" | "stored en i = Some a" "c = x"
      | "a = x" "stored en j = Some c" | "a = x" "c = x" by blast
    then show ?thesis
    proof cases
      case 1
      then show ?thesis using episodes_okD(3) [OF ok] a by blast
    next
      case 2
      then have "i = ev_id x" using x a unfolding may_join_def by metis
      with 2 ids show ?thesis by simp
    next
      case 3
      then have "j = ev_id x" using x a unfolding may_join_def by metis
      with 3 ids show ?thesis by simp
    next
      case 4
      with ids show ?thesis by simp
    qed
  qed
  with r show "episodes_ok spec (fst (keep_event x (en, b, hs)))"
    unfolding episodes_ok_def en1_def [symmetric] by blast
  show "stored en i = Some e \<or> e = x" if "stored (fst (keep_event x (en, b, hs))) i = Some e" for i e
    using new that unfolding en1_def by blast
  show "en_rules (fst (keep_event x (en, b, hs))) = en_rules en"
    by (simp add: keep_event_def u)
qed

text \<open>Events that may join one after the other: no two are open episodes of the same object.\<close>

definition apart_episodes :: "episode_spec \<Rightarrow> world_event list \<Rightarrow> bool" where
  "apart_episodes spec = sorted_wrt (\<lambda>x y. \<not> (ev_type x = es_event spec \<and> ongoing x \<and>
     ev_type y = es_event spec \<and> ongoing y \<and> episode_object x = episode_object y))"

lemma keep_all:
  "episodes_ok spec (fst t) \<Longrightarrow> apart_episodes spec xs \<Longrightarrow> \<forall>x\<in>set xs. may_join spec (fst t) x \<Longrightarrow>
    episodes_ok spec (fst (fold keep_event xs t)) \<and> en_rules (fst (fold keep_event xs t)) = en_rules (fst t)"
proof (induction xs arbitrary: t)
  case (Cons x xs)
  obtain en b hs where t: "t = (en, b, hs)" by (metis prod_cases3)
  have ok: "episodes_ok spec en" and x: "may_join spec en x" using Cons.prems(1,3) by (simp_all add: t)
  note k = keep_joining [OF ok x, of b hs]
  have "may_join spec (fst (keep_event x t)) y" if y: "y \<in> set xs" for y
  proof -
    have yj: "may_join spec en y" using Cons.prems(3) y by (simp add: t)
    have yx: "\<not> (ev_type x = es_event spec \<and> ongoing x \<and> ev_type y = es_event spec \<and> ongoing y \<and>
        episode_object x = episode_object y)"
      using Cons.prems(2) y unfolding apart_episodes_def sorted_wrt.simps(2) by blast
    have "i = ev_id y" if ty: "ev_type y = es_event spec" "ongoing y"
      and e: "stored (fst (keep_event x t)) i = Some e" "ev_type e = es_event spec" "ongoing e"
        "episode_object e = episode_object y" for i e
    proof -
      from k(2) e(1) have "stored en i = Some e \<or> e = x" by (simp add: t)
      moreover have "e \<noteq> x" using yx ty e by blast
      ultimately have "stored en i = Some e" by blast
      with yj ty e show ?thesis unfolding may_join_def by blast
    qed
    with yj show ?thesis unfolding may_join_def by blast
  qed
  moreover have "apart_episodes spec xs" using Cons.prems(2) by (simp add: apart_episodes_def)
  ultimately show ?case using Cons.IH [of "keep_event x t"] k(1,3) by (simp add: t)
qed simp


section \<open>The rule keeps it so\<close>

lemma evaluate_parts:
  obtains opened quietly heard where
    "opened = fst (fold (sort_out spec (rc_now ctx)) (rc_existing ctx (es_event spec)) ([], []))"
    "quietly = snd (fold (sort_out spec (rc_now ctx)) (rc_existing ctx (es_event spec)) ([], []))"
    "heard = snd (fold (hear spec ctx opened quietly) obs ([], []))"
    "evaluate_episodes spec obs ctx =
       concat (map (said_by spec ctx opened quietly) obs) @ concat (map (fall_silent spec (rc_now ctx) heard) opened)"
proof -
  obtain opened quietly where o: "fold (sort_out spec (rc_now ctx)) (rc_existing ctx (es_event spec)) ([], []) = (opened, quietly)"
    by fastforce
  obtain out heard where h: "fold (hear spec ctx opened quietly) obs ([], []) = (out, heard)" by fastforce
  have "out = concat (map (said_by spec ctx opened quietly) obs)"
    using fold_hear_out [of spec ctx opened quietly obs "([], [])"] by (simp add: h)
  then have "evaluate_episodes spec obs ctx =
      concat (map (said_by spec ctx opened quietly) obs) @ concat (map (fall_silent spec (rc_now ctx) heard) opened)"
    by (simp only: evaluate_episodes_def o h prod.case)
  then show thesis by (intro that [of opened quietly heard]) (simp_all only: o h fst_conv snd_conv)
qed

lemma silent_results:
  assumes "x \<in> set (fall_silent spec now heard (i, e))"
  obtains t where "lastHeardOf e = Some t" "now - t > es_quiet spec" "i \<notin> set heard"
    "x = end_episode spec e (to_iso t) False"
  using assms by (cases "lastHeardOf e") (auto simp: fall_silent_def intro: that split: if_splits)

lemma ended_not_ongoing: "t \<noteq> [] \<Longrightarrow> \<not> ongoing (end_episode spec e t c)"
  by (simp add: ongoing_def has_end_def)

lemma closed_apart: "(\<And>x. x \<in> set xs \<Longrightarrow> \<not> ongoing x) \<Longrightarrow> apart_episodes spec xs"
  by (induction xs) (auto simp: apart_episodes_def)

text \<open>The open episodes the rule finds are those of the store, each under its object.\<close>

lemma existing_of:
  assumes "episodes_ok spec en"
  shows "x \<in> set (events_of_type (en_store en) ty) \<longleftrightarrow> stored en (ev_id x) = Some x \<and> ev_type x = ty"
  using store_reads(1) [OF episodes_okD(2) [OF assms]] store_okD(5) [OF episodes_okD(2) [OF assms]] by auto

definition opened_in :: "episode_spec \<Rightarrow> int \<Rightarrow> engine \<Rightarrow> by_object" where
  "opened_in spec now en = fst (fold (sort_out spec now) (events_of_type (en_store en) (es_event spec)) ([], []))"

lemma opened_in_distinct: "distinct (map fst (opened_in spec now en))"
  unfolding opened_in_def by (rule opened_distinct) simp

lemma opened_exactly:
  assumes ok: "episodes_ok spec en"
  shows "map_of (opened_in spec now en) i = Some e \<longleftrightarrow>
    stored en (ev_id e) = Some e \<and> ev_type e = es_event spec \<and> ongoing e \<and> episode_object e = i" (is "?L \<longleftrightarrow> ?R")
proof -
  note es = existing_of [OF ok]
  have sound: "stored en (ev_id v) = Some v \<and> ev_type v = es_event spec \<and> ongoing v \<and> episode_object v = i"
    if v: "map_of (opened_in spec now en) i = Some v" for v
    using opened_sound [OF v [unfolded opened_in_def]] unfolding es by simp
  show ?thesis
  proof
    assume e: ?R
    then have "map_of (opened_in spec now en) i \<noteq> None"
      using opened_complete [of e "events_of_type (en_store en) (es_event spec)" spec now "([], [])"] es [of e]
      unfolding opened_in_def by auto
    then obtain v where v: "map_of (opened_in spec now en) i = Some v" by blast
    note v' = sound [OF v]
    have "ev_id e = ev_id v"
      by (rule episodes_okD(3) [OF ok, of "ev_id e" e "ev_id v" v]) (use e v' in simp_all)
    then have "Some e = Some v" using conjunct1 [OF e] conjunct1 [OF v'] by (simp only:)
    with v show ?L by simp
  qed (rule sound)
qed

lemma opened_members:
  assumes "episodes_ok spec en"
  shows "(i, e) \<in> set (opened_in spec now en) \<longleftrightarrow>
    stored en (ev_id e) = Some e \<and> ev_type e = es_event spec \<and> ongoing e \<and> episode_object e = i"
  using opened_exactly [OF assms, of now i e] opened_in_distinct [of spec now en] by simp

lemma stored_readable: "episodes_ok spec en \<Longrightarrow> stored en i = Some e \<Longrightarrow> readable_event e"
  using store_okD(3,5) [OF episodes_okD(2)] by blast

lemma said_joins:
  assumes ok: "episodes_ok spec en" and read: "date_parse (wo_observed ob) \<noteq> None"
    and q: "\<And>r. map_of quietly (wo_id ob) = Some r \<Longrightarrow> readable_event r"
    and x: "x \<in> set (said_by spec ctx (opened_in spec now en) quietly ob)"
  shows "may_join spec en x" "ongoing x \<Longrightarrow> episode_object x = wo_id ob"
proof -
  note found = opened_exactly [OF ok, of now "wo_id ob"]
  have none: "i = ev_id x" if "map_of (opened_in spec now en) (wo_id ob) = None" "stored en i = Some e" "ev_type e = es_event spec"
      "ongoing e" "episode_object e = wo_id ob" for i e
    using found [of e] stored_id [OF episodes_okD(1) [OF ok] that(2)] that by simp
  from x have "may_join spec en x \<and> (ongoing x \<longrightarrow> episode_object x = wo_id ob)"
  proof (cases rule: said_cases)
    case (follow prev p k)
    note kn = follow(1) [unfolded found]
    have "i = ev_id prev" if "stored en i = Some e" "ev_type e = es_event spec" "ongoing e" "episode_object e = wo_id ob" for i e
      by (rule episodes_okD(3) [OF ok that(1) conjunct1 [OF kn]]) (use that kn in simp_all)
    moreover have "readable_event x"
      using stored_readable [OF ok conjunct1 [OF kn]] follow(3) by (simp add: readable_event_def)
    ultimately show ?thesis unfolding may_join_def follow(3) eventFor_simps by blast
  next
    case (clear prev)
    have "\<not> ongoing x" unfolding clear(2) by (rule ended_not_ongoing [OF readable_nonempty [OF read]])
    with clear(2) stored_readable [OF ok conjunct1 [OF clear(1) [unfolded found]]] show ?thesis
      by (simp add: may_join_def readable_event_def)
  next
    case (resume r p k)
    have "readable_event x" using q [OF resume(2)] resume(4) by (simp add: readable_event_def)
    with none [OF resume(1)] show ?thesis unfolding may_join_def resume(4) eventFor_simps by blast
  next
    case (anew i p k)
    have "readable_event x" using read anew(3) by (simp add: readable_event_def)
    with none [OF anew(1)] show ?thesis unfolding may_join_def anew(3) eventFor_simps by blast
  qed
  then show "may_join spec en x" "ongoing x \<Longrightarrow> episode_object x = wo_id ob" by blast+
qed

lemma silent_joins:
  assumes ok: "episodes_ok spec en" and x: "x \<in> set (concat (map (fall_silent spec now heard) (opened_in spec now' en)))"
  shows "may_join spec en x" "\<not> ongoing x"
proof -
  obtain i v where iv: "(i, v) \<in> set (opened_in spec now' en)" "x \<in> set (fall_silent spec now heard (i, v))" using x by auto
  from iv(2) obtain t where t: "x = end_episode spec v (to_iso t) False" by (rule silent_results)
  have "stored en (ev_id v) = Some v" using iv(1) opened_members [OF ok] by blast
  from stored_readable [OF ok this] t show "may_join spec en x"
    using ended_not_ongoing [OF to_iso_nonempty, of spec v t False] by (simp add: may_join_def readable_event_def)
  show "\<not> ongoing x" unfolding t by (rule ended_not_ongoing [OF to_iso_nonempty])
qed

lemma apart_said:
  assumes "distinct (map wo_id os)"
    and "\<And>ob x. ob \<in> set os \<Longrightarrow> x \<in> set (said_by spec ctx opened quietly ob) \<Longrightarrow> ongoing x \<Longrightarrow> episode_object x = wo_id ob"
  shows "apart_episodes spec (concat (map (said_by spec ctx opened quietly) os))"
  using assms
proof (induction os)
  case (Cons ob os)
  have one: "apart_episodes spec (said_by spec ctx opened quietly ob)"
    using said_length [of spec ctx opened quietly ob]
    by (cases "said_by spec ctx opened quietly ob") (auto simp: apart_episodes_def)
  have "\<not> (ongoing x \<and> ongoing y \<and> episode_object x = episode_object y)"
    if "x \<in> set (said_by spec ctx opened quietly ob)" "y \<in> set (concat (map (said_by spec ctx opened quietly) os))" for x y
  proof -
    from that(2) obtain ob2 where "ob2 \<in> set os" "y \<in> set (said_by spec ctx opened quietly ob2)" by auto
    moreover have "wo_id ob \<noteq> wo_id ob2" using Cons.prems(1) \<open>ob2 \<in> set os\<close> by (auto simp: image_iff)
    ultimately show ?thesis using Cons.prems(2) [of ob x] Cons.prems(2) [of ob2 y] that(1) by auto
  qed
  with one Cons show ?case by (simp add: apart_episodes_def sorted_wrt_append)
qed (simp add: apart_episodes_def)

lemma evaluate_joins:
  assumes ok: "episodes_ok spec en" and obs: "distinct (map wo_id obs)" "\<forall>ob\<in>set obs. date_parse (wo_observed ob) \<noteq> None"
    and ctx: "rc_existing ctx = events_of_type (en_store en)"
  shows "apart_episodes spec (evaluate_episodes spec obs ctx)"
    "\<forall>x\<in>set (evaluate_episodes spec obs ctx). may_join spec en x"
proof -
  let ?o = "opened_in spec (rc_now ctx) en"
  define quietly where "quietly = snd (fold (sort_out spec (rc_now ctx)) (events_of_type (en_store en) (es_event spec)) ([], []))"
  obtain heard where e: "evaluate_episodes spec obs ctx =
       concat (map (said_by spec ctx ?o quietly) obs) @ concat (map (fall_silent spec (rc_now ctx) heard) ?o)"
    using evaluate_parts [of spec ctx obs] unfolding ctx opened_in_def quietly_def by metis
  have quiet: "readable_event r" if "map_of quietly i = Some r" for i r
    using quietly_sound [OF that [unfolded quietly_def]] existing_of [OF ok] stored_readable [OF ok] by auto
  have said: "may_join spec en x" "ongoing x \<Longrightarrow> episode_object x = wo_id ob"
    if "ob \<in> set obs" "x \<in> set (said_by spec ctx ?o quietly ob)" for ob x
  proof -
    have read: "date_parse (wo_observed ob) \<noteq> None" using obs(2) that(1) by blast
    show "may_join spec en x" by (rule said_joins(1) [OF ok read quiet that(2)])
    show "episode_object x = wo_id ob" if "ongoing x" by (rule said_joins(2) [OF ok read quiet \<open>x \<in> _\<close> that])
  qed
  note silence = silent_joins [OF ok, of _ "rc_now ctx" heard "rc_now ctx"]
  show "\<forall>x\<in>set (evaluate_episodes spec obs ctx). may_join spec en x"
  proof
    fix x assume "x \<in> set (evaluate_episodes spec obs ctx)"
    then have "(\<exists>ob\<in>set obs. x \<in> set (said_by spec ctx ?o quietly ob)) \<or>
        x \<in> set (concat (map (fall_silent spec (rc_now ctx) heard) ?o))"
      unfolding e by auto
    then show "may_join spec en x" using said(1) silence(1) by blast
  qed
  have "apart_episodes spec (concat (map (said_by spec ctx ?o quietly) obs))"
    by (rule apart_said [OF obs(1)]) (rule said(2))
  moreover have "apart_episodes spec (concat (map (fall_silent spec (rc_now ctx) heard) ?o))"
    by (rule closed_apart) (rule silence(2))
  ultimately show "apart_episodes spec (evaluate_episodes spec obs ctx)"
    using silence(2) unfolding e apart_episodes_def sorted_wrt_append by blast
qed

section \<open>Every call keeps it so\<close>

text \<open>A rule that has nothing to do with the episodes: its events are readable and of other types.\<close>

definition readable_objects :: "world_object list \<Rightarrow> bool" where
  "readable_objects obs \<longleftrightarrow> list_all (\<lambda>ob. date_parse (wo_observed ob) \<noteq> None) obs"

definition foreign :: "episode_spec \<Rightarrow> object_rule \<Rightarrow> bool" where
  "foreign spec r \<longleftrightarrow>
     (\<forall>os ctx. (ru_scope r = Changed \<longrightarrow> readable_objects os) \<and>
        (\<forall>ty. \<forall>e\<in>set (rc_existing ctx ty). readable_event e \<and> ev_type e = ty) \<longrightarrow>
        (\<forall>x\<in>set (ru_evaluate r os ctx). readable_event x \<and> ev_type x \<noteq> es_event spec))"

definition rules_ok :: "episode_spec \<Rightarrow> engine \<Rightarrow> bool" where
  "rules_ok spec en \<longleftrightarrow> (\<forall>r\<in>set (en_rules en). r = episodeRule spec \<or> foreign spec r)"

lemma episode_results:
  assumes x: "x \<in> set (evaluate_episodes other os ctx)" and os: "readable_objects os"
    and ctx: "\<forall>ty. \<forall>e\<in>set (rc_existing ctx ty). readable_event e \<and> ev_type e = ty"
  shows "readable_event x \<and> ev_type x = es_event other"
proof -
  let ?es = "rc_existing ctx (es_event other)"
  obtain opened quietly heard where
    o: "opened = fst (fold (sort_out other (rc_now ctx)) ?es ([], []))"
    and q: "quietly = snd (fold (sort_out other (rc_now ctx)) ?es ([], []))"
    and e: "evaluate_episodes other os ctx =
       concat (map (said_by other ctx opened quietly) os) @ concat (map (fall_silent other (rc_now ctx) heard) opened)"
    using evaluate_parts [of other ctx os] by metis
  have known: "readable_event v \<and> ev_type v = es_event other" if "map_of opened i = Some v" for i v
    using opened_sound [of other "rc_now ctx" ?es "([], [])" i v] that ctx unfolding o by auto
  have quiet: "readable_event v" if "map_of quietly i = Some v" for i v
    using quietly_sound [of other "rc_now ctx" ?es "([], [])" i v] that ctx unfolding q by auto
  have "distinct (map fst opened)" unfolding o by (rule opened_distinct) simp
  then have pairs: "(i, v) \<in> set opened \<Longrightarrow> map_of opened i = Some v" for i v by simp
  from x consider ob where "ob \<in> set os" "x \<in> set (said_by other ctx opened quietly ob)"
    | i v where "(i, v) \<in> set opened" "x \<in> set (fall_silent other (rc_now ctx) heard (i, v))" unfolding e by auto
  then show ?thesis
  proof cases
    case (1 ob)
    have read: "date_parse (wo_observed ob) \<noteq> None" using os 1(1) by (simp add: readable_objects_def list_all_iff)
    from 1(2) show ?thesis
      by (cases rule: said_cases) (use known quiet read in \<open>auto simp: readable_event_def\<close>)
  next
    case (2 i v)
    from 2(2) obtain t where "x = end_episode other v (to_iso t) False" by (rule silent_results)
    then show ?thesis using known [OF pairs [OF 2(1)]] by (simp add: readable_event_def)
  qed
qed

lemma other_episodes_foreign:
  assumes "es_event other \<noteq> es_event spec"
  shows "foreign spec (episodeRule other)"
  using assms episode_results [of _ other] by (auto simp: foreign_def episodeRule_def)

definition call_ok :: "episode_spec \<Rightarrow> telling \<Rightarrow> telling \<Rightarrow> bool" where
  "call_ok spec a b \<longleftrightarrow> episodes_ok spec (fst a) \<and> rules_ok spec (fst a) \<longrightarrow>
     episodes_ok spec (fst b) \<and> rules_ok spec (fst b)"

lemma ok_same: "en_store en' = en_store en \<Longrightarrow> en_rules en' = en_rules en \<Longrightarrow>
    episodes_ok spec en' = episodes_ok spec en \<and> rules_ok spec en' = rules_ok spec en"
  by (simp add: episodes_ok_def rules_ok_def)

lemma foreign_joins:
  assumes "\<forall>x\<in>set xs. readable_event x \<and> ev_type x \<noteq> es_event spec"
  shows "apart_episodes spec xs" "\<forall>x\<in>set xs. may_join spec en x"
proof -
  show "apart_episodes spec xs" using assms by (induction xs) (auto simp: apart_episodes_def)
qed (use assms in \<open>simp add: may_join_def\<close>)

lemma known_rules: "en_rules (fst (known_of_type st now t a)) = en_rules (fst a)"
  by (cases a) (auto simp: known_of_type_def Let_def split: option.splits)

lemma all_known_rules: "en_rules (fst (all_known st now types en)) = en_rules en"
proof -
  have "en_rules (fst (fold (known_of_type st now) ts a)) = en_rules (fst a)" for ts a
    by (induction ts arbitrary: a) (simp_all add: known_rules)
  from this [of types "(en, [])"] show ?thesis
    by (cases "fold (known_of_type st now) types (en, [])") (simp add: all_known_def)
qed

lemma call_ok_rule:
  assumes r: "r = episodeRule spec \<or> foreign spec r"
    and obs: "distinct (map wo_id obs)" "readable_objects obs"
  shows "call_ok spec a (run_rule st obs now r a)"
proof -
  obtain en b hs where a: "a = (en, b, hs)" by (cases a)
  obtain en1 input where i: "(if ru_scope r = All_Known then all_known st now (ru_objects r) en
      else (en, filter (\<lambda>ob. wo_type ob \<in> set (ru_objects r)) obs)) = (en1, input)" by fastforce
  have same: "en_store en1 = en_store en" "en_rules en1 = en_rules en"
    using i all_known_store [of st now "ru_objects r" en] all_known_rules [of st now "ru_objects r" en]
    by (auto split: if_splits)
  let ?ctx = "\<lparr>rc_now = now, rc_existing = events_of_type (en_store en1)\<rparr>"
  show ?thesis unfolding call_ok_def
  proof
    assume "episodes_ok spec (fst a) \<and> rules_ok spec (fst a)"
    then have ok: "episodes_ok spec en1" "rules_ok spec en1"
      using ok_same [OF same, of spec] by (simp_all add: a)
    have input: "distinct (map wo_id input) \<and> readable_objects input" if "ru_scope r = Changed"
      using i obs that by (auto simp: distinct_map_filter readable_objects_def list_all_iff)
    have s: "store_ok (en_store en1)" by (rule episodes_okD(2) [OF ok(1)])
    have "apart_episodes spec (ru_evaluate r input ?ctx) \<and> (\<forall>x\<in>set (ru_evaluate r input ?ctx). may_join spec en1 x)"
    proof (cases "r = episodeRule spec")
      case True
      have "ru_scope r = Changed" "ru_evaluate r = evaluate_episodes spec" by (simp_all add: True episodeRule_def)
      with input have d: "distinct (map wo_id input)" "\<forall>ob\<in>set input. date_parse (wo_observed ob) \<noteq> None"
        and ev: "ru_evaluate r input ?ctx = evaluate_episodes spec input ?ctx"
        by (simp_all add: readable_objects_def list_all_iff)
      show ?thesis unfolding ev using evaluate_joins [OF ok(1) d, of ?ctx] by simp
    next
      case False
      then have f: "foreign spec r" using r by blast
      have ex: "\<forall>ty. \<forall>e\<in>set (rc_existing ?ctx ty). readable_event e \<and> ev_type e = ty"
        using store_reads(1) [OF s] store_okD(3) [OF s] by simp
      have "\<forall>x\<in>set (ru_evaluate r input ?ctx). readable_event x \<and> ev_type x \<noteq> es_event spec"
        using f input ex unfolding foreign_def by blast
      from foreign_joins [OF this] show ?thesis by blast
    qed
    then have "episodes_ok spec (fst (fold keep_event (ru_evaluate r input ?ctx) (en1, b, hs))) \<and>
        en_rules (fst (fold keep_event (ru_evaluate r input ?ctx) (en1, b, hs))) = en_rules en1"
      using keep_all [of spec "(en1, b, hs)"] ok(1) by simp
    moreover have "run_rule st obs now r a = (en1, b, hs) \<or>
        run_rule st obs now r a = fold keep_event (ru_evaluate r input ?ctx) (en1, b, hs)"
      unfolding a run_rule_def by (simp only: prod.case i) simp
    ultimately show "episodes_ok spec (fst (run_rule st obs now r a)) \<and> rules_ok spec (fst (run_rule st obs now r a))"
      using ok by (auto simp: rules_ok_def)
  qed
qed

lemma call_ok_fold: "(\<And>x a. x \<in> set xs \<Longrightarrow> call_ok spec a (f x a)) \<Longrightarrow> call_ok spec a (fold f xs a)"
  by (induction xs arbitrary: a) (auto simp: call_ok_def)

lemma call_ok_rules:
  assumes "set rules \<subseteq> set (en_rules en)" "rules_ok spec en" "distinct (map wo_id obs)" "readable_objects obs"
  shows "call_ok spec (en, empty_batch, []) (run_rules st obs now rules en)"
  unfolding run_rules_def
proof (rule call_ok_fold)
  fix r and a :: telling
  assume "r \<in> set rules"
  then have "r = episodeRule spec \<or> foreign spec r" using assms(1,2) unfolding rules_ok_def by blast
  then show "call_ok spec a (run_rule st obs now r a)" using assms(3,4) by (rule call_ok_rule)
qed


lemma end_withdrawn_closed: "readable_event e \<Longrightarrow> \<not> ongoing (end_withdrawn now e)"
  using readable_nonempty [of "ev_start e"] to_iso_nonempty [of now]
  by (auto simp: ongoing_def has_end_def end_withdrawn_def readable_event_def split: option.splits)

lemma call_ok_end_event:
  assumes "readable_event e"
  shows "call_ok spec a (end_event st gone now e a)"
proof -
  obtain en b hs where a: "a = (en, b, hs)" by (metis prod_cases3)
  have "may_join spec en (end_withdrawn now e)"
    using assms end_withdrawn_closed [OF assms] by (simp add: may_join_def)
  from keep_joining [OF _ this, of b hs] show ?thesis
    by (auto simp: call_ok_def end_event_def a rules_ok_def)
qed

lemma call_ok_end_type: "call_ok spec t (end_type st gone now ty t)"
proof (cases "episodes_ok spec (fst t)")
  case True
  then have s: "store_ok (en_store (fst t))" by (rule episodes_okD(2))
  show ?thesis unfolding end_type_def
    by (rule call_ok_fold, rule call_ok_end_event) (use store_reads(1) [OF s] store_okD(3) [OF s] in simp)
qed (simp add: call_ok_def)

lemma call_ok_withdrawn: "call_ok spec (en, empty_batch, []) (endWithdrawn st gone now en)"
  unfolding endWithdrawn_def by (rule call_ok_fold) (rule call_ok_end_type)

fun fair_call :: "episode_spec \<Rightarrow> 't engine_call \<Rightarrow> bool" where
  "fair_call spec (Ingest_Batch st now obs) \<longleftrightarrow> distinct (map wo_id obs) \<and> readable_objects obs"
| "fair_call spec (Ingest_Event e) \<longleftrightarrow> readable_event e \<and> ev_type e \<noteq> es_event spec"
| "fair_call spec (State_Change w now change) \<longleftrightarrow>
     distinct (sc_added change @ sc_updated change) \<and>
     list_all (\<lambda>(i, ob). wo_id ob = i \<and> date_parse (wo_observed ob) \<noteq> None) (w_objects w)"
| "fair_call spec (Source_Change now pid a b entry) \<longleftrightarrow>
     date_parse (to_iso now) \<noteq> None \<and> es_event spec \<noteq> js ''source-status-change''"
| "fair_call spec c \<longleftrightarrow> True"

abbreviation engine_ok :: "episode_spec \<Rightarrow> engine \<Rightarrow> bool" where
  "engine_ok spec en \<equiv> episodes_ok spec en \<and> rules_ok spec en"

lemma call_okD: "call_ok spec (en, b, hs) t \<Longrightarrow> engine_ok spec en \<Longrightarrow> engine_ok spec (fst t)"
  by (simp add: call_ok_def)

lemma ok_ingest:
  assumes "engine_ok spec en" "readable_event e" "ev_type e \<noteq> es_event spec"
  shows "engine_ok spec (fst (ingestEvent e en))"
proof -
  have "may_join spec en e" using assms(2,3) by (simp add: may_join_def)
  note k = keep_joining [OF conjunct1 [OF assms(1)] this, of empty_batch "[]"]
  have "fst (ingestEvent e en) = fst (keep_event e (en, empty_batch, []))"
    by (simp add: ingestEvent_def keep_event_def split: prod.split)
  with k assms(1) show ?thesis by (simp add: rules_ok_def)
qed

lemma found_objects:
  assumes "list_all (\<lambda>(i, ob). wo_id ob = i \<and> date_parse (wo_observed ob) \<noteq> None) known_here" "distinct names"
  defines "obs \<equiv> concat (map (\<lambda>i. case map_of known_here i of Some ob \<Rightarrow> [ob] | None \<Rightarrow> []) names)"
  shows "distinct (map wo_id obs)" "readable_objects obs"
proof -
  have one: "wo_id ob = i \<and> date_parse (wo_observed ob) \<noteq> None" if "map_of known_here i = Some ob" for i ob
    using assms(1) map_of_SomeD [OF that] by (auto simp: list_all_iff)
  let ?found = "\<lambda>js. concat (map (\<lambda>i. case map_of known_here i of Some ob \<Rightarrow> [ob] | None \<Rightarrow> []) js)"
  have within: "wo_id ` set (?found js) \<subseteq> set js" for js
    using one by (fastforce split: option.splits)
  have "distinct (map wo_id (?found js))" if "distinct js" for js
    using that
  proof (induction js)
    case (Cons i js)
    then show ?case using one [of i] within [of js] by (cases "map_of known_here i") auto
  qed simp
  then show "distinct (map wo_id obs)" using assms(2) unfolding obs_def by blast
  show "readable_objects obs"
    using one unfolding obs_def by (auto simp: readable_objects_def list_all_iff split: option.splits)
qed

lemma state_change_ends:
  obtains obs rules gone where
    "obs = concat (map (\<lambda>i. case map_of (w_objects w) i of Some ob \<Rightarrow> [ob] | None \<Rightarrow> [])
       (sc_added change @ sc_updated change))"
    "set rules \<subseteq> set (en_rules en)"
    "fst (onStateChange w now change en) \<in> {en, fst (run_rules (Some w) obs now rules en),
       fst (endWithdrawn (Some w) gone now (fst (run_rules (Some w) obs now rules en)))}"
proof -
  define obs where "obs = concat (map (\<lambda>i. case map_of (w_objects w) i of Some ob \<Rightarrow> [ob] | None \<Rightarrow> [])
      (sc_added change @ sc_updated change))"
  define rules where "rules = (if sc_removed change \<noteq> [] then en_rules en
      else filter (\<lambda>r. ru_scope r = Changed \<or> list_ex (\<lambda>ob. wo_type ob \<in> set (ru_objects r)) obs) (en_rules en))"
  define gone where "gone = (case sc_withdrawn change of Some g \<Rightarrow> g | None \<Rightarrow> [])"
  obtain en1 b1 h1 where r: "run_rules (Some w) obs now rules en = (en1, b1, h1)" by (metis prod_cases3)
  obtain en2 b2 h2 where w: "endWithdrawn (Some w) gone now en1 = (en2, b2, h2)" by (metis prod_cases3)
  have "fst (onStateChange w now change en) \<in> {en, en1, en2}"
    unfolding onStateChange_def Let_def obs_def [symmetric] rules_def [symmetric]
    using w by (cases "sc_withdrawn change") (simp_all add: r gone_def)
  then show thesis
    by (intro that [OF obs_def, of rules gone]) (simp_all add: rules_def [symmetric] r w, simp add: rules_def)
qed

lemma ok_state_change:
  assumes ok: "engine_ok spec en" and fair: "fair_call spec (State_Change w now change :: 't engine_call)"
  shows "engine_ok spec (fst (onStateChange w now change en))"
proof -
  obtain obs rules gone where o: "obs = concat (map (\<lambda>i. case map_of (w_objects w) i of Some ob \<Rightarrow> [ob] | None \<Rightarrow> [])
       (sc_added change @ sc_updated change))"
    and sub: "set rules \<subseteq> set (en_rules en)"
    and res: "fst (onStateChange w now change en) \<in> {en, fst (run_rules (Some w) obs now rules en),
       fst (endWithdrawn (Some w) gone now (fst (run_rules (Some w) obs now rules en)))}"
    by (rule state_change_ends)
  have obs: "distinct (map wo_id obs)" "readable_objects obs"
    using found_objects [of "w_objects w" "sc_added change @ sc_updated change"] fair
    unfolding o fair_call.simps by blast+
  have ok1: "engine_ok spec (fst (run_rules (Some w) obs now rules en))"
    by (rule call_okD [OF call_ok_rules [OF sub conjunct2 [OF ok] obs] ok])
  have "engine_ok spec (fst (endWithdrawn (Some w) gone now (fst (run_rules (Some w) obs now rules en))))"
    by (rule call_okD [OF call_ok_withdrawn ok1])
  with res ok ok1 show ?thesis by (elim insertE) simp_all
qed

lemma source_event_simps: "ev_type (sourceStatusEvent pid a b entry t) = js ''source-status-change''"
  "ev_start (sourceStatusEvent pid a b entry t) = t"
  by (simp_all add: sourceStatusEvent_def Let_def del: js_simps)

lemma ok_step:
  assumes ok: "engine_ok spec en" and fair: "fair_call spec c"
  shows "engine_ok spec (fst (engine_step c en))"
proof (cases c)
  case (Ingest_Batch st now obs)
  have same: "en_store (remember_objects st now obs en) = en_store en" "en_rules (remember_objects st now obs en) = en_rules en"
    by (simp_all add: remember_objects_def Let_def)
  then have ok': "engine_ok spec (remember_objects st now obs en)" using ok ok_same [OF same, of spec] by blast
  have "call_ok spec (remember_objects st now obs en, empty_batch, []) (ingestBatch st now obs en)"
    unfolding ingestBatch_def
    by (rule call_ok_rules) (use fair Ingest_Batch ok' same in simp_all)
  from call_okD [OF this ok'] show ?thesis by (simp add: Ingest_Batch announced_by_def)
next
  case (Ingest_Event e)
  then show ?thesis using ok_ingest [OF ok] fair by simp
next
  case (State_Change w now change)
  then show ?thesis using ok_state_change [OF ok] fair by simp
next
  case (End_Quiet st now)
  have "call_ok spec (en, empty_batch, []) (endQuiet st now en)"
    unfolding endQuiet_def by (rule call_ok_rules) (use ok in \<open>auto simp: readable_objects_def\<close>)
  from call_okD [OF this ok] show ?thesis by (simp add: End_Quiet announced_by_def)
next
  case (Reevaluate st now)
  have "call_ok spec (en, empty_batch, []) (reevaluate st now en)"
    unfolding reevaluate_def by (rule call_ok_rules) (use ok in \<open>auto simp: readable_objects_def\<close>)
  from call_okD [OF this ok] show ?thesis by (simp add: Reevaluate announced_by_def)
next
  case (Source_Change now pid x y entry)
  obtain l r where c: "consider_change (en_throttle en) now pid x y entry (en_source_last en) = (l, r)" by fastforce
  have ok': "engine_ok spec (en\<lparr>en_source_last := l\<rparr>)"
    using ok ok_same [of "en\<lparr>en_source_last := l\<rparr>" en spec] by simp
  have "readable_event e \<and> ev_type e \<noteq> es_event spec" if "r = Some e" for e
    using c that fair unfolding Source_Change
    by (auto simp: consider_change_def source_event_simps readable_event_def split: if_splits simp del: js_simps)
  then show ?thesis
    using ok' ok_ingest [OF ok'] by (cases r) (simp_all add: Source_Change on_source_change_def c)
qed

lemma ok_run: "engine_ok spec en \<Longrightarrow> \<forall>c\<in>set cs. fair_call spec c \<Longrightarrow> engine_ok spec (fst (engine_run cs en))"
proof (induction cs arbitrary: en)
  case (Cons c cs)
  obtain en1 h1 where s: "engine_step c en = (en1, h1)" by fastforce
  have "engine_ok spec en1" using ok_step [OF Cons.prems(1), of c] Cons.prems(2) by (simp add: s)
  with Cons.IH [of en1] Cons.prems(2) show ?case by (cases "engine_run cs en1") (simp add: s)
qed simp

lemma ok_new:
  assumes "\<forall>r\<in>set rules. r = episodeRule spec \<or> foreign spec r"
  shows "engine_ok spec (new_engine None rules throttle window)"
proof -
  have "en_store (new_engine None rules throttle window) = new_store None" by (simp add: new_engine_def)
  moreover have "st_ordered (new_store None) = []" "map_of (st_byId (new_store None)) = Map.empty" by (simp_all add: new_store_def)
  ultimately show ?thesis using assms store_ok_new
    by (simp add: episodes_ok_def with_room_def rules_ok_def new_engine_def)
qed



section \<open>Silence ends an episode\<close>

definition silent :: "episode_spec \<Rightarrow> int \<Rightarrow> world_event \<Rightarrow> bool" where
  "silent spec now e \<longleftrightarrow> ev_type e = es_event spec \<and> ongoing e \<and>
     (case lastHeardOf e of Some t \<Rightarrow> now - t > es_quiet spec | None \<Rightarrow> False)"

text \<open>What an event becomes when the rule is run with no objects.\<close>

definition after_silence :: "episode_spec \<Rightarrow> int \<Rightarrow> world_event \<Rightarrow> world_event" where
  "after_silence spec now e =
     (if silent spec now e then end_episode spec e (to_iso (the (lastHeardOf e))) False else e)"

lemma after_silence_id [simp]: "ev_id (after_silence spec now e) = ev_id e"
  by (simp add: after_silence_def)

lemma after_silence_closed: "silent spec now e \<Longrightarrow> has_end (after_silence spec now e) \<and> ev_end e \<noteq> ev_end (after_silence spec now e)"
  using to_iso_nonempty by (auto simp: after_silence_def silent_def has_end_def ongoing_def)

text \<open>Events that replace stored ones.\<close>

lemma keep_replacements:
  "with_room (en_store en) \<Longrightarrow> distinct (map ev_id xs) \<Longrightarrow>
    \<forall>x\<in>set xs. readable_event x \<and> (\<exists>v. stored en (ev_id x) = Some v \<and> fingerprint v \<noteq> fingerprint x) \<Longrightarrow>
    fold keep_event xs (en, b, hs) = (en', b', hs') \<Longrightarrow>
    with_room (en_store en') \<and> en_rules en' = en_rules en \<and>
    stored en' = stored en ++ map_of (map (\<lambda>x. (ev_id x, x)) xs) \<and> hs' = hs @ map (\<lambda>x. (x, Updated)) xs"
proof (induction xs arbitrary: en b hs)
  case (Cons x xs)
  obtain v where v: "stored en (ev_id x) = Some v" "fingerprint v \<noteq> fingerprint x" and x: "readable_event x"
    using Cons.prems(3) by auto
  obtain s outcome where u: "upsert_event x (en_store en) = (s, outcome)" by fastforce
  have rep: "with_room s" "map_of (st_byId s) = (stored en)(ev_id x \<mapsto> x)" "outcome = Updated"
    using replace_stored [OF Cons.prems(1) v(1) x u] v(2) by simp_all
  let ?en = "en\<lparr>en_store := s\<rparr>"
  obtain b1 where k: "keep_event x (en, b, hs) = (?en, b1, hs @ [(x, Updated)])"
    by (simp add: keep_event_def u rep(3))
  have "\<forall>y\<in>set xs. readable_event y \<and> (\<exists>v. stored ?en (ev_id y) = Some v \<and> fingerprint v \<noteq> fingerprint y)"
    using Cons.prems(2,3) rep(2) by (auto simp: image_iff)
  moreover have "with_room (en_store ?en)" "distinct (map ev_id xs)" "fold keep_event xs (?en, b1, hs @ [(x, Updated)]) = (en', b', hs')"
    using rep(1) Cons.prems(2,4) k by simp_all
  ultimately have ih: "with_room (en_store en') \<and> en_rules en' = en_rules ?en \<and>
      stored en' = stored ?en ++ map_of (map (\<lambda>x. (ev_id x, x)) xs) \<and>
      hs' = (hs @ [(x, Updated)]) @ map (\<lambda>x. (x, Updated)) xs"
    using Cons.IH by blast
  have "ev_id x \<notin> dom (map_of (map (\<lambda>x. (ev_id x, x)) xs))"
    using Cons.prems(2) by (simp add: dom_map_of_conv_image_fst image_image)
  then have eq: "stored ?en ++ map_of (map (\<lambda>x. (ev_id x, x)) xs) = stored en ++ map_of (map (\<lambda>x. (ev_id x, x)) (x # xs))"
    using rep(2) by (simp add: map_add_upd_left)
  have "stored en' = stored en ++ map_of (map (\<lambda>x. (ev_id x, x)) (x # xs))" using ih unfolding eq by blast
  moreover have "hs' = hs @ map (\<lambda>x. (x, Updated)) (x # xs)" "en_rules en' = en_rules en" using ih by simp_all
  ultimately show ?case using ih by blast
qed simp

text \<open>What the rule says when it is run with no objects.\<close>

definition silenced :: "episode_spec \<Rightarrow> int \<Rightarrow> engine \<Rightarrow> world_event list" where
  "silenced spec now en = concat (map (fall_silent spec now []) (opened_in spec now en))"

lemma silenced_list:
  assumes ok: "episodes_ok spec en"
  shows "silenced spec now en =
    map (after_silence spec now) (map snd (filter (\<lambda>p. silent spec now (snd p)) (opened_in spec now en)))"
proof -
  have one: "fall_silent spec now [] (i, e) = (if silent spec now e then [after_silence spec now e] else [])"
    if "(i, e) \<in> set (opened_in spec now en)" for i e
    using that opened_members [OF ok, of i e now]
    by (auto simp: fall_silent_def after_silence_def silent_def split: option.splits)
  have "concat (map (fall_silent spec now []) ps) =
      map (after_silence spec now) (map snd (filter (\<lambda>p. silent spec now (snd p)) ps))"
    if "set ps \<subseteq> set (opened_in spec now en)" for ps
    using that by (induction ps) (auto simp: one)
  then show ?thesis unfolding silenced_def by blast
qed

lemma silenced_set:
  assumes ok: "episodes_ok spec en"
  shows "set (silenced spec now en) = after_silence spec now ` {e. \<exists>i. stored en i = Some e \<and> silent spec now e}"
proof -
  have "(\<exists>i. stored en i = Some e \<and> silent spec now e) \<longleftrightarrow>
      (\<exists>i. (i, e) \<in> set (opened_in spec now en) \<and> silent spec now e)" for e
    using opened_members [OF ok, of _ e now] stored_id [OF episodes_okD(1) [OF ok]] by (auto simp: silent_def)
  then show ?thesis unfolding silenced_list [OF ok] by (force simp: image_iff)
qed

lemma silenced_distinct:
  assumes ok: "episodes_ok spec en"
  shows "distinct (map ev_id (silenced spec now en))"
proof -
  let ?o = "opened_in spec now en"
  have same: "i = j \<and> e = e'" if "(i, e) \<in> set ?o" "(j, e') \<in> set ?o" and eq: "ev_id e = ev_id e'" for i j e e'
  proof -
    have a: "stored en (ev_id e) = Some e" "episode_object e = i" using that(1) unfolding opened_members [OF ok] by blast+
    have b: "stored en (ev_id e') = Some e'" "episode_object e' = j" using that(2) unfolding opened_members [OF ok] by blast+
    have "Some e = Some e'" by (simp only: a(1) [symmetric] b(1) [symmetric] eq)
    with a(2) b(2) show ?thesis by simp
  qed
  have "distinct ?o" using opened_in_distinct [of spec now en] by (simp add: distinct_map)
  moreover have "inj_on (\<lambda>p. ev_id (snd p)) (set ?o)"
  proof (rule inj_onI)
    fix p q assume "p \<in> set ?o" "q \<in> set ?o" "ev_id (snd p) = ev_id (snd q)"
    with same [of "fst p" "snd p" "fst q" "snd q"] show "p = q" by (simp add: prod_eq_iff)
  qed
  ultimately have "distinct (map (\<lambda>p. ev_id (snd p)) ?o)" by (simp add: distinct_map)
  then show ?thesis unfolding silenced_list [OF ok] by (simp add: comp_def distinct_map_filter)
qed

lemma silenced_fits:
  assumes ok: "episodes_ok spec en"
  shows "\<forall>x\<in>set (silenced spec now en). readable_event x \<and> (\<exists>v. stored en (ev_id x) = Some v \<and> fingerprint v \<noteq> fingerprint x)"
proof
  fix x assume "x \<in> set (silenced spec now en)"
  then obtain e i where e: "x = after_silence spec now e" "stored en i = Some e" "silent spec now e"
    unfolding silenced_set [OF ok] by auto
  have "fingerprint e \<noteq> fingerprint x"
    by (rule fingerprint_end)
      (use after_silence_closed [OF e(3)] e in \<open>simp_all add: silent_def ongoing_def after_silence_def end_episode_def\<close>)
  with e stored_readable [OF ok e(2)] stored_id [OF episodes_okD(1) [OF ok] e(2)]
  show "readable_event x \<and> (\<exists>v. stored en (ev_id x) = Some v \<and> fingerprint v \<noteq> fingerprint x)"
    by (simp add: after_silence_def readable_event_def)
qed

lemma silent_run:
  assumes ok: "episodes_ok spec en"
  shows "run_rule st [] now (episodeRule spec) (en, b, hs) = fold keep_event (silenced spec now en) (en, b, hs)"
proof -
  let ?ctx = "\<lparr>rc_now = now, rc_existing = events_of_type (en_store en)\<rparr>"
  have ev: "evaluate_episodes spec [] ?ctx = silenced spec now en"
    by (simp add: evaluate_episodes_def silenced_def opened_in_def split: prod.split)
  have "silenced spec now en = []" if "\<not> hasActive (episodeRule spec) (en_store en)"
  proof -
    have "(i, e) \<notin> set (opened_in spec now en)" for i e
      using that existing_of [OF ok, of e "es_event spec"] opened_members [OF ok, of i e now]
      by (auto simp: hasActive_def episodeRule_def list_ex_iff ongoing_def)
    then have "set (opened_in spec now en) = {}" by (metis equals0I surj_pair)
    then show ?thesis by (simp add: silenced_def)
  qed
  then show ?thesis by (auto simp: run_rule_def episodeRule_def ev [symmetric])
qed

lemma silent_rule:
  assumes ok: "episodes_ok spec en" and r: "run_rule st [] now (episodeRule spec) (en, b, hs) = (en', b', hs')"
  shows "with_room (en_store en') \<and> stored en' = (\<lambda>i. map_option (after_silence spec now) (stored en i)) \<and>
    set hs' = set hs \<union> {(after_silence spec now e, Updated) | e i. stored en i = Some e \<and> silent spec now e}"
proof -
  let ?new = "map (\<lambda>x. (ev_id x, x)) (silenced spec now en)"
  note sid = stored_id [OF episodes_okD(1) [OF ok]]
  have f: "fold keep_event (silenced spec now en) (en, b, hs) = (en', b', hs')" using r by (simp add: silent_run [OF ok])
  note k = keep_replacements [OF episodes_okD(1) [OF ok] silenced_distinct [OF ok] silenced_fits [OF ok] f]
  have "stored en' i = map_option (after_silence spec now) (stored en i)" for i
  proof (cases "\<exists>e. stored en i = Some e \<and> silent spec now e")
    case True
    then obtain e where e: "stored en i = Some e" "silent spec now e" by blast
    then have "after_silence spec now e \<in> set (silenced spec now en)" unfolding silenced_set [OF ok] by blast
    then have "(i, after_silence spec now e) \<in> set ?new"
      unfolding set_map by (intro image_eqI [of _ _ "after_silence spec now e"]) (simp_all add: sid [OF e(1)])
    then have "map_of ?new i = Some (after_silence spec now e)"
      using silenced_distinct [OF ok, of now] by (simp add: comp_def)
    then show ?thesis using k e by (simp add: map_add_Some_iff)
  next
    case False
    have "i \<notin> ev_id ` set (silenced spec now en)" using False sid unfolding silenced_set [OF ok] by auto
    then have "map_of ?new i = None" by (simp add: map_of_eq_None_iff image_image)
    moreover have "after_silence spec now e = e" if "stored en i = Some e" for e
      using False that by (simp add: after_silence_def)
    ultimately show ?thesis using k by (cases "stored en i") (simp_all add: map_add_def)
  qed
  moreover have "set hs' = set hs \<union> {(after_silence spec now e, Updated) | e i. stored en i = Some e \<and> silent spec now e}"
    using k silenced_set [OF ok, of now] by auto
  ultimately show ?thesis using k by blast
qed

text \<open>The rules of an engine never change.\<close>

lemma rules_fold: "(\<And>x a. en_rules (fst (f x a)) = en_rules (fst a)) \<Longrightarrow> en_rules (fst (fold f xs a)) = en_rules (fst a)"
  by (induction xs arbitrary: a) simp_all

lemma rules_keep: "en_rules (fst (keep_event e a)) = en_rules (fst a)"
  by (cases a) (simp add: keep_event_def split: prod.splits)

lemma rules_rule: "en_rules (fst (run_rule st obs now r a)) = en_rules (fst a)"
proof -
  obtain en b hs where a: "a = (en, b, hs)" by (cases a)
  obtain en1 input where i: "(if ru_scope r = All_Known then all_known st now (ru_objects r) en
      else (en, filter (\<lambda>ob. wo_type ob \<in> set (ru_objects r)) obs)) = (en1, input)" by fastforce
  have "en_rules en1 = en_rules en"
    using i all_known_rules [of st now "ru_objects r" en] by (auto split: if_splits)
  moreover have "en_rules (fst (fold keep_event es (en1, b, hs))) = en_rules en1" for es
    using rules_fold [of keep_event es, OF rules_keep] by simp
  ultimately show ?thesis unfolding a run_rule_def by (simp only: prod.case i) simp
qed

lemma rules_rules: "en_rules (fst (run_rules st obs now rules en)) = en_rules en"
  unfolding run_rules_def using rules_fold [of "run_rule st obs now" rules, OF rules_rule] by simp

lemma rules_withdrawn: "en_rules (fst (endWithdrawn st gone now en)) = en_rules en"
proof -
  have "en_rules (fst (end_event st gone now e a)) = en_rules (fst a)" for e a
    by (simp add: end_event_def rules_keep)
  then have "en_rules (fst (end_type st gone now ty a)) = en_rules (fst a)" for ty a
    unfolding end_type_def by (rule rules_fold)
  then have "en_rules (fst (fold (end_type st gone now) tys a)) = en_rules (fst a)" for tys a
    by (rule rules_fold)
  then show ?thesis by (simp add: endWithdrawn_def)
qed

lemma rules_ingest: "en_rules (fst (ingestEvent e en)) = en_rules en"
  by (simp add: ingestEvent_def split: prod.splits)

lemma rules_state_change: "en_rules (fst (onStateChange w now change en)) = en_rules en"
proof -
  obtain obs rules gone where "fst (onStateChange w now change en) \<in> {en, fst (run_rules (Some w) obs now rules en),
       fst (endWithdrawn (Some w) gone now (fst (run_rules (Some w) obs now rules en)))}"
    by (rule state_change_ends)
  then show ?thesis by (elim insertE) (simp_all add: rules_rules rules_withdrawn)
qed

lemma rules_step: "en_rules (fst (engine_step c en)) = en_rules en"
proof (cases c)
  case (Source_Change now pid x y entry)
  then show ?thesis
    by (auto simp: on_source_change_def rules_ingest split: prod.splits option.splits)
qed (simp_all add: announced_by_def ingestBatch_def endQuiet_def reevaluate_def rules_rules rules_ingest
    rules_state_change remember_objects_def Let_def)

lemma rules_run: "en_rules (fst (engine_run cs en)) = en_rules en"
proof (induction cs arbitrary: en)
  case (Cons c cs)
  obtain en1 h1 where s: "engine_step c en = (en1, h1)" by fastforce
  then show ?case using Cons.IH [of en1] rules_step [of c en] by (cases "engine_run cs en1") simp
qed simp

abbreviation after_quiet_rules :: "episode_spec list \<Rightarrow> int \<Rightarrow> world_event \<Rightarrow> world_event" where
  "after_quiet_rules specs now \<equiv> fold (\<lambda>s. after_silence s now) specs"

lemma after_silence_cases: "after_silence s now e = e \<or> (silent s now e \<and> has_end (after_silence s now e))"
  using after_silence_closed [of s now e] by (auto simp: after_silence_def)

lemma closed_not_silent: "has_end e \<Longrightarrow> \<not> silent s now e"
  by (simp add: silent_def ongoing_def)

lemma closed_stays: "has_end e \<Longrightarrow> after_quiet_rules specs now e = e"
  by (induction specs) (simp_all add: after_silence_def closed_not_silent)

lemma not_silent_stays: "\<not> silent s now e \<Longrightarrow> \<not> silent s now (after_quiet_rules specs now e)"
proof (induction specs arbitrary: e)
  case (Cons t specs)
  have "\<not> silent s now (after_silence t now e)"
    using after_silence_cases [of t now e] Cons.prems closed_not_silent by metis
  from Cons.IH [OF this] show ?case by simp
qed simp

lemma none_silent: "s \<in> set specs \<Longrightarrow> \<not> silent s now (after_quiet_rules specs now e)"
proof (induction specs arbitrary: e)
  case (Cons t specs)
  have "\<not> silent t now (after_silence t now e)"
  proof (cases "silent t now e")
    case True
    then show ?thesis using after_silence_closed [OF True] closed_not_silent by blast
  qed (simp add: after_silence_def)
  then show ?case using Cons.IH Cons.prems not_silent_stays by auto
qed simp

lemma silent_rules:
  "distinct (map es_event specs) \<Longrightarrow> \<forall>s\<in>set specs. engine_ok s en \<Longrightarrow>
    fold (run_rule st [] now) (map episodeRule specs) (en, b, hs) = (en', b', hs') \<Longrightarrow>
    stored en' = (\<lambda>i. map_option (after_quiet_rules specs now) (stored en i)) \<and> set hs \<subseteq> set hs' \<and>
    (\<forall>i e. stored en i = Some e \<and> after_quiet_rules specs now e \<noteq> e \<longrightarrow> (after_quiet_rules specs now e, Updated) \<in> set hs')"
proof (induction specs arbitrary: en b hs)
  case Nil
  then show ?case by (simp add: option.map_ident)
next
  case (Cons s specs)
  obtain en1 b1 h1 where r: "run_rule st [] now (episodeRule s) (en, b, hs) = (en1, b1, h1)" by (metis prod_cases3)
  have ok: "engine_ok s en" using Cons.prems(2) by simp
  note one = silent_rule [OF conjunct1 [OF ok] r]
  have "engine_ok t en1" if t: "t \<in> set specs" for t
  proof -
    have "es_event s \<noteq> es_event t" using Cons.prems(1) t by (auto simp: image_iff)
    then have "foreign t (episodeRule s)" by (rule other_episodes_foreign)
    then have "call_ok t (en, b, hs) (run_rule st [] now (episodeRule s) (en, b, hs))"
      by (intro call_ok_rule) (simp_all add: readable_objects_def)
    from call_okD [OF this] Cons.prems(2) t show ?thesis by (simp add: r)
  qed
  moreover have "distinct (map es_event specs)" "fold (run_rule st [] now) (map episodeRule specs) (en1, b1, h1) = (en', b', hs')"
    using Cons.prems(1,3) r by simp_all
  ultimately have ih: "stored en' = (\<lambda>i. map_option (after_quiet_rules specs now) (stored en1 i)) \<and> set h1 \<subseteq> set hs' \<and>
    (\<forall>i e. stored en1 i = Some e \<and> after_quiet_rules specs now e \<noteq> e \<longrightarrow> (after_quiet_rules specs now e, Updated) \<in> set hs')"
    using Cons.IH by blast
  have st1: "stored en1 i = map_option (after_silence s now) (stored en i)" for i using one by (simp add: fun_eq_iff)
  have "stored en' i = map_option (after_quiet_rules (s # specs) now) (stored en i)" for i
    using ih st1 [of i] by (simp add: fun_eq_iff option.map_comp comp_def)
  moreover have "(after_quiet_rules (s # specs) now e, Updated) \<in> set hs'"
    if e: "stored en i = Some e" "after_quiet_rules (s # specs) now e \<noteq> e" for i e
  proof (cases "silent s now e")
    case True
    then have "after_quiet_rules (s # specs) now e = after_silence s now e"
      using after_silence_closed [OF True] closed_stays by simp
    moreover have "(after_silence s now e, Updated) \<in> set h1" using one e(1) True by blast
    ultimately show ?thesis using ih by (metis subsetD)
  next
    case False
    then have "after_silence s now e = e" by (simp add: after_silence_def)
    then show ?thesis using ih st1 [of i] e by simp
  qed
  moreover have "set hs \<subseteq> set hs'" using one ih by blast
  ultimately show ?case by blast
qed


section \<open>An emergency that falls silent\<close>

definition sample_plane :: world_object where
  "sample_plane = sample_ship\<lparr>wo_id := js ''aircraft:icao24:4ca123'', wo_type := js ''aircraft'',
     wo_observed := js ''1970-01-01T00:00:00Z'', wo_properties := [(js ''squawk'', JStr (js ''7700''))]\<rparr>"

definition sample_episode :: world_event where
  "sample_episode = eventFor emergency_spec (js ''event:aircraft-emergency:icao24:4ca123-0'') sample_plane
     (the (wo_position sample_plane)) (js ''general'') (js ''1970-01-01T00:00:00Z'') \<lparr>rc_now = 0, rc_existing = \<lambda>t. []\<rparr>"

definition sample_rules :: "object_rule list" where
  "sample_rules = [aircraftEmergencyRule, distressBeaconRule]"

definition sample_calls :: "unit engine_call list" where
  "sample_calls = [Ingest_Batch None 0 [sample_plane]]"

lemma spec_simps [simp]:
  "es_event emergency_spec = js ''aircraft-emergency''" "es_event beacon_spec = js ''distress-beacon''"
  "es_object emergency_spec = js ''aircraft''" "es_object beacon_spec = js ''vessel''"
  "es_quiet emergency_spec = 900000"
  by (simp_all add: emergency_spec_def beacon_spec_def AIRCRAFT_EMERGENCY_QUIET_MS_def del: js_simps)

lemma plane_simps:
  "wo_id sample_plane = js ''aircraft:icao24:4ca123''" "wo_type sample_plane = js ''aircraft''"
  "wo_observed sample_plane = js ''1970-01-01T00:00:00Z''" "wo_position sample_plane = wo_position sample_ship"
  by (simp_all add: sample_plane_def del: js_simps)

lemma plane_state: "es_state emergency_spec sample_plane = Says (js ''general'')"
  by (simp add: emergency_spec_def sample_plane_def emergencyOf_def by_squawk_def all_kinds_def)

lemma plane_id: "parseObjectId (wo_id sample_plane) = Some \<lparr>pi_type = js ''aircraft'', pi_namespace = js ''icao24'', pi_value = js ''4ca123''\<rparr>"
  by (simp add: plane_simps parseObjectId_def slice_def)

lemma plane_said: "evaluate_episodes emergency_spec [sample_plane] \<lparr>rc_now = 0, rc_existing = \<lambda>t. []\<rparr> = [sample_episode]"
proof -
  obtain p where p: "wo_position sample_plane = Some p" by (simp add: sample_plane_def sample_ship_def)
  have i: "new_episode_id emergency_spec \<lparr>pi_type = js ''aircraft'', pi_namespace = js ''icao24'', pi_value = js ''4ca123''\<rparr> (Some 0) =
      js ''event:aircraft-emergency:icao24:4ca123-0''"
    by (simp add: new_episode_id_def makeEventId_def int_text_def decimal.simps)
  show ?thesis
    using epoch_readable
    by (simp add: evaluate_episodes_def hear_def p plane_state plane_id i plane_simps(3) sample_episode_def del: js_simps)
qed

lemma episode_simps:
  "ev_id sample_episode = js ''event:aircraft-emergency:icao24:4ca123-0''" "ev_type sample_episode = js ''aircraft-emergency''"
  "ev_start sample_episode = js ''1970-01-01T00:00:00Z''" "ev_end sample_episode = None"
  "episode_object sample_episode = js ''aircraft:icao24:4ca123''"
  by (simp_all add: sample_episode_def plane_simps del: js_simps)

lemma episode_open: "ongoing sample_episode"
  using episode_simps(5) by (simp add: ongoing_def has_end_def episode_simps(4) del: js_simps) (simp add: js_def)

lemma episode_readable: "readable_event sample_episode"
  using epoch_readable by (simp add: readable_event_def episode_simps del: js_simps)

lemma episode_heard: "lastHeardOf sample_episode = Some 0"
  using epoch_readable
  by (simp add: lastHeardOf_def ev_prop_def sample_episode_def eventFor_def plane_simps map_simps del: js_simps)

lemma sample_run:
  obtains en heard where "engine_run sample_calls (new_engine None sample_rules None None) = (en, heard)"
    "stored en (ev_id sample_episode) = Some sample_episode"
proof -
  define en0 where "en0 = new_engine None sample_rules None None"
  have e: "en_store en0 = new_store None" "en_rules en0 = sample_rules" "en_memory en0 = []"
    by (simp_all add: en0_def new_engine_def)
  have rem: "remember_objects None 0 [sample_plane] en0 = en0"
  proof -
    have "filter (\<lambda>r. ru_scope r = All_Known) sample_rules = []"
      by (simp add: sample_rules_def aircraftEmergencyRule_def distressBeaconRule_def episodeRule_def)
    then show ?thesis by (simp only: remember_objects_def e Let_def) (simp add: en0_def new_engine_def)
  qed
  obtain s outcome where u: "upsert_event sample_episode (new_store None) = (s, outcome)" by fastforce
  have up: "store_ok s" "st_ordered s = [sample_episode]"
    using upsert_step [OF store_ok_new episode_readable, of None, unfolded u fst_conv] by (simp_all add: new_store_def)
  obtain b h where k: "keep_event sample_episode (en0, empty_batch, []) = (en0\<lparr>en_store := s\<rparr>, b, h)"
    by (simp add: keep_event_def e u)
  have none: "events_of_type (new_store None) ty = []" for ty
  proof -
    have "st_ordered (new_store None) = []" by (simp add: new_store_def)
    then show ?thesis by (simp add: store_reads(1) [OF store_ok_new])
  qed
  have no: "events_of_type (new_store None) = (\<lambda>t. [])" by (rule ext) (rule none)
  have r1: "run_rule None [sample_plane] 0 aircraftEmergencyRule (en0, empty_batch, []) = (en0\<lparr>en_store := s\<rparr>, b, h)"
    using plane_said k
    by (simp add: run_rule_def aircraftEmergencyRule_def episodeRule_def plane_simps e no del: js_simps)
  have "js ''vessel'' \<noteq> js ''aircraft''" "js ''distress-beacon'' \<noteq> js ''aircraft-emergency''" by simp_all
  then have r2: "run_rule None [sample_plane] 0 distressBeaconRule (en0\<lparr>en_store := s\<rparr>, b, h) = (en0\<lparr>en_store := s\<rparr>, b, h)"
    using store_reads(1) [OF up(1), of "js ''distress-beacon''"]
    by (simp add: run_rule_def distressBeaconRule_def episodeRule_def plane_simps hasActive_def up(2) episode_simps del: js_simps)
  have "engine_run sample_calls en0 = (en0\<lparr>en_store := s\<rparr>, h)"
    by (simp add: sample_calls_def ingestBatch_def rem run_rules_def e announced_by_def) (simp add: sample_rules_def r1 r2)
  moreover have "stored (en0\<lparr>en_store := s\<rparr>) (ev_id sample_episode) = Some sample_episode"
    using store_okD(5) [OF up(1)] up(2) by simp
  ultimately show thesis unfolding en0_def by (rule that)
qed

lemma sample_fair: "\<forall>c\<in>set sample_calls. fair_call spec c"
  using epoch_readable by (simp add: sample_calls_def readable_objects_def plane_simps del: js_simps)

lemma sample_specs:
  "filter ru_quiet sample_rules = map episodeRule [emergency_spec, beacon_spec]"
  "distinct (map es_event [emergency_spec, beacon_spec])" "\<forall>r\<in>set sample_rules. ru_quiet r"
  by (simp_all add: sample_rules_def aircraftEmergencyRule_def distressBeaconRule_def episodeRule_def)


end
