(* ===== verification/Event_Types.thy ===== *)
theory Event_Types
  imports Episodes
begin

text \<open>
  What a rule promises the engine (\<^verbatim>\<open>ObjectRule\<close> in \<^verbatim>\<open>packages/event-engine/src/rules/types.ts\<close>): from
  readable objects and from stored events read back by their type it makes readable events of
  the types it declares. The locale \<open>declared_rule\<close> states it; the episode rules keep it, and from
  it alone the engine's store and what its listeners hear are typed by the declarations.
\<close>

section \<open>The contract of a rule\<close>

definition context_ok :: "rule_context \<Rightarrow> bool" where
  "context_ok ctx \<longleftrightarrow> (\<forall>ty. \<forall>e\<in>set (rc_existing ctx ty). readable_event e \<and> ev_type e = ty)"

text \<open>What the engine, its batch and what was heard hold is of the types of a set.\<close>

definition typed :: "jstring set \<Rightarrow> telling \<Rightarrow> bool" where
  "typed T t \<longleftrightarrow> store_ok (en_store (fst t)) \<and> (\<forall>i e. stored (fst t) i = Some e \<longrightarrow> ev_type e \<in> T) \<and>
     (\<forall>h\<in>set (snd (snd t)). ev_type (fst h) \<in> T)"

lemma typed_keep:
  assumes t: "typed T t" and e: "readable_event e" "ev_type e \<in> T"
  shows "typed T (keep_event e t)"
proof -
  obtain en b hs where en: "t = (en, b, hs)" by (metis prod_cases3)
  obtain s outcome where u: "upsert_event e (en_store en) = (s, outcome)" by fastforce
  have "store_ok (en_store en)" using t by (simp add: typed_def en)
  from upsert_step [OF this e(1)] have "store_ok s" by (simp add: u)
  moreover have "ev_type x \<in> T" if "map_of (st_byId s) i = Some x" for i x
    using upsert_known [OF u that] t e(2) by (auto simp: typed_def en)
  ultimately show ?thesis using t e(2) by (auto simp: typed_def en keep_event_def u)
qed

lemma typed_fold: "(\<And>x t. x \<in> set xs \<Longrightarrow> typed T t \<Longrightarrow> typed T (f x t)) \<Longrightarrow> typed T t \<Longrightarrow> typed T (fold f xs t)"
  by (induction xs arbitrary: t) auto

lemma typed_same_store: "en_store en' = en_store en \<Longrightarrow> typed T (en', b', hs) \<longleftrightarrow> typed T (en, b, hs)"
  by (simp add: typed_def)

lemma store_context:
  assumes "store_ok s"
  shows "context_ok \<lparr>rc_now = now, rc_existing = events_of_type s\<rparr>"
  using store_reads(1) [OF assms] store_okD(3) [OF assms] by (simp add: context_ok_def)

locale declared_rule =
  fixes rule :: object_rule
  assumes declared: "context_ok ctx \<Longrightarrow> (ru_scope rule = Changed \<Longrightarrow> readable_objects os) \<Longrightarrow>
    x \<in> set (ru_evaluate rule os ctx) \<Longrightarrow> readable_event x \<and> ev_type x \<in> set (ru_events rule)"
begin

lemma run_typed:
  assumes t: "typed T t" and sub: "set (ru_events rule) \<subseteq> T" and obs: "readable_objects obs"
  shows "typed T (run_rule st obs now rule t)"
proof -
  obtain en b hs where en: "t = (en, b, hs)" by (metis prod_cases3)
  obtain en1 input where i: "(if ru_scope rule = All_Known then all_known st now (ru_objects rule) en
      else (en, filter (\<lambda>ob. wo_type ob \<in> set (ru_objects rule)) obs)) = (en1, input)" by fastforce
  have "en_store en1 = en_store en"
    using i all_known_store [of st now "ru_objects rule" en] by (auto split: if_splits)
  then have t1: "typed T (en1, b, hs)" using t typed_same_store [of en1 en T b hs b] by (simp add: en)
  let ?ctx = "\<lparr>rc_now = now, rc_existing = events_of_type (en_store en1)\<rparr>"
  have ctx: "context_ok ?ctx" by (rule store_context) (use t1 in \<open>simp add: typed_def\<close>)
  have input: "readable_objects input" if "ru_scope rule = Changed"
    using i obs that by (auto simp: readable_objects_def list_all_iff)
  have "typed T (keep_event x u)" if "x \<in> set (ru_evaluate rule input ?ctx)" "typed T u" for x u
    using typed_keep [OF that(2), of x] declared [OF ctx input that(1)] sub by blast
  then have "typed T (fold keep_event (ru_evaluate rule input ?ctx) (en1, b, hs))"
    using t1 by (intro typed_fold)
  moreover have "run_rule st obs now rule t = (en1, b, hs) \<or>
      run_rule st obs now rule t = fold keep_event (ru_evaluate rule input ?ctx) (en1, b, hs)"
    unfolding en run_rule_def by (simp only: prod.case i) simp
  ultimately show ?thesis using t1 by auto
qed

end

lemma episodes_declared: "declared_rule (episodeRule spec)"
proof
  fix ctx os x
  assume "context_ok ctx" "ru_scope (episodeRule spec) = Changed \<Longrightarrow> readable_objects os"
    "x \<in> set (ru_evaluate (episodeRule spec) os ctx)"
  then show "readable_event x \<and> ev_type x \<in> set (ru_events (episodeRule spec))"
    using episode_results [of x spec os ctx] by (simp add: context_ok_def episodeRule_def)
qed

interpretation emergency: declared_rule aircraftEmergencyRule
  unfolding aircraftEmergencyRule_def by (rule episodes_declared)

interpretation beacon: declared_rule distressBeaconRule
  unfolding distressBeaconRule_def by (rule episodes_declared)

section \<open>Every call keeps the types\<close>

definition declared_types :: "object_rule list \<Rightarrow> jstring set" where
  "declared_types rules = set (concat (map ru_events rules))"

lemma rules_typed:
  assumes r: "\<forall>r\<in>set rules. declared_rule r" "declared_types rules \<subseteq> T" and obs: "readable_objects obs" and t: "typed T (en, empty_batch, [])"
  shows "typed T (run_rules st obs now rules en)"
  unfolding run_rules_def
proof (rule typed_fold [OF _ t])
  fix rule u assume x: "rule \<in> set rules" and u: "typed T u"
  have "declared_rule rule" using r(1) x by blast
  moreover have "set (ru_events rule) \<subseteq> T" using r(2) x by (auto simp: declared_types_def)
  ultimately show "typed T (run_rule st obs now rule u)" using u obs by (intro declared_rule.run_typed)
qed

lemma withdrawn_typed:
  assumes "typed T (en, empty_batch, [])"
  shows "typed T (endWithdrawn st gone now en)"
  unfolding endWithdrawn_def
proof (rule typed_fold [OF _ assms])
  fix ty u assume u: "typed T u"
  then have s: "store_ok (en_store (fst u))" by (simp add: typed_def)
  have "readable_event e \<and> ev_type e \<in> T" if "e \<in> set (events_of_type (en_store (fst u)) ty)" for e
    using that store_reads(1) [OF s] store_okD(3,5) [OF s] u by (auto simp: typed_def)
  then show "typed T (end_type st gone now ty u)"
    unfolding end_type_def by (intro typed_fold [OF _ u]) (auto simp: end_event_def intro!: typed_keep)
qed

text \<open>Calls whose objects are readable and whose events from outside are readable and of the given types.\<close>

fun typed_call :: "jstring set \<Rightarrow> 't engine_call \<Rightarrow> bool" where
  "typed_call T (Ingest_Batch st now obs) \<longleftrightarrow> readable_objects obs"
| "typed_call T (Ingest_Event e) \<longleftrightarrow> readable_event e \<and> ev_type e \<in> T"
| "typed_call T (State_Change w now change) \<longleftrightarrow> readable_objects (map snd (w_objects w))"
| "typed_call T (Source_Change now pid a b entry) \<longleftrightarrow> date_parse (to_iso now) \<noteq> None \<and> js ''source-status-change'' \<in> T"
| "typed_call T c \<longleftrightarrow> True"

definition typed_step :: "jstring set \<Rightarrow> engine \<times> announcements \<Rightarrow> bool" where
  "typed_step T r \<longleftrightarrow> typed T (fst r, empty_batch, snd r)"

lemma typed_batch: "typed T (en, b, hs) \<Longrightarrow> typed T (en, b', hs)"
  by (simp add: typed_def)

lemma typed_announced: "typed T t \<Longrightarrow> typed_step T (announced_by t)"
  by (cases t) (auto simp: typed_step_def announced_by_def intro: typed_batch)

lemma typed_ingest:
  assumes "typed T (en, empty_batch, [])" "readable_event e" "ev_type e \<in> T"
  shows "typed_step T (ingestEvent e en)"
  using typed_keep [OF assms] typed_batch
  by (auto simp: typed_step_def ingestEvent_def keep_event_def split: prod.splits)

lemma typed_join: "typed T (en, empty_batch, hs) \<Longrightarrow> typed T (en', empty_batch, hs') \<Longrightarrow> typed T (en', empty_batch, hs @ hs')"
  by (auto simp: typed_def)

lemma typed_fresh: "typed T (en, b, hs) \<Longrightarrow> typed T (en, empty_batch, [])"
  by (simp add: typed_def)

lemma found_readable:
  assumes "readable_objects (map snd known_here)"
  shows "readable_objects (concat (map (\<lambda>i. case map_of known_here i of Some ob \<Rightarrow> [ob] | None \<Rightarrow> []) names))"
proof -
  have "date_parse (wo_observed ob) \<noteq> None" if "map_of known_here i = Some ob" for i ob
    using assms map_of_SomeD [OF that] by (force simp: readable_objects_def list_all_iff)
  then show ?thesis by (auto simp: readable_objects_def list_all_iff split: option.splits)
qed

lemma typed_state_change:
  assumes r: "\<forall>r\<in>set (en_rules en). declared_rule r" "declared_types (en_rules en) \<subseteq> T"
    and t: "typed T (en, empty_batch, [])" and w: "readable_objects (map snd (w_objects w))"
  shows "typed_step T (onStateChange w now change en)"
proof -
  define obs where "obs = concat (map (\<lambda>i. case map_of (w_objects w) i of Some ob \<Rightarrow> [ob] | None \<Rightarrow> [])
      (sc_added change @ sc_updated change))"
  define rules where "rules = (if sc_removed change \<noteq> [] then en_rules en
      else filter (\<lambda>r. ru_scope r = Changed \<or> list_ex (\<lambda>ob. wo_type ob \<in> set (ru_objects r)) obs) (en_rules en))"
  have obs: "readable_objects obs" unfolding obs_def by (rule found_readable [OF w])
  have rs: "\<forall>r\<in>set rules. declared_rule r" "declared_types rules \<subseteq> T"
    using r by (auto simp: rules_def declared_types_def)
  obtain en1 b1 h1 where run: "run_rules (Some w) obs now rules en = (en1, b1, h1)" by (metis prod_cases3)
  have t1: "typed T (en1, empty_batch, h1)"
    using rules_typed [OF rs obs t, of "Some w" now] typed_batch by (auto simp: run)
  have t2: "typed T (en2, empty_batch, h1 @ h2)" if "endWithdrawn (Some w) gone now en1 = (en2, b2, h2)" for gone en2 b2 h2
    using withdrawn_typed [OF typed_fresh [OF t1], of "Some w" gone now] typed_batch that
    by (intro typed_join [OF t1]) auto
  show ?thesis
    unfolding onStateChange_def Let_def obs_def [symmetric] rules_def [symmetric] typed_step_def
    using t t1 t2 by (auto simp: run split: option.splits prod.splits)
qed

lemma typed_engine_step:
  assumes r: "\<forall>r\<in>set (en_rules en). declared_rule r" "declared_types (en_rules en) \<subseteq> T"
    and t: "typed T (en, empty_batch, [])" and c: "typed_call T c"
  shows "typed_step T (engine_step c en)"
proof (cases c)
  case (Ingest_Batch st now obs)
  have same: "en_store (remember_objects st now obs en) = en_store en" "en_rules (remember_objects st now obs en) = en_rules en"
    by (simp_all add: remember_objects_def Let_def)
  have "typed T (ingestBatch st now obs en)"
    unfolding ingestBatch_def same(2)
    by (rule rules_typed [OF r]) (use c t typed_same_store [OF same(1), of T empty_batch "[]" empty_batch] in \<open>simp_all add: Ingest_Batch\<close>)
  then show ?thesis by (simp add: Ingest_Batch typed_announced)
next
  case (Source_Change now pid x y entry)
  obtain l res where s: "consider_change (en_throttle en) now pid x y entry (en_source_last en) = (l, res)" by fastforce
  have t': "typed T (en\<lparr>en_source_last := l\<rparr>, empty_batch, [])"
    using t typed_same_store [of "en\<lparr>en_source_last := l\<rparr>" en T empty_batch "[]" empty_batch] by simp
  have "readable_event e \<and> ev_type e \<in> T" if "res = Some e" for e
    using s that c unfolding Source_Change
    by (auto simp: consider_change_def source_event_simps readable_event_def split: if_splits simp del: js_simps)
  then show ?thesis
    using t' typed_ingest [OF t'] by (cases res) (simp_all add: Source_Change on_source_change_def s typed_step_def)
next
  case (End_Quiet st now)
  have "typed T (endQuiet st now en)"
    unfolding endQuiet_def by (rule rules_typed [OF _ _ _ t]) (use r in \<open>auto simp: declared_types_def readable_objects_def\<close>)
  then show ?thesis by (simp add: End_Quiet typed_announced)
next
  case (Reevaluate st now)
  have "typed T (reevaluate st now en)"
    unfolding reevaluate_def by (rule rules_typed [OF _ _ _ t]) (use r in \<open>auto simp: declared_types_def readable_objects_def\<close>)
  then show ?thesis by (simp add: Reevaluate typed_announced)
qed (use c in \<open>simp_all add: typed_ingest [OF t] typed_state_change [OF r t]\<close>)

lemma typed_run:
  "\<forall>r\<in>set (en_rules en). declared_rule r \<Longrightarrow> declared_types (en_rules en) \<subseteq> T \<Longrightarrow> typed T (en, empty_batch, []) \<Longrightarrow>
    \<forall>c\<in>set cs. typed_call T c \<Longrightarrow> typed_step T (engine_run cs en)"
proof (induction cs arbitrary: en)
  case Nil
  then show ?case by (simp add: typed_step_def)
next
  case (Cons c cs)
  obtain en1 h1 where s: "engine_step c en = (en1, h1)" by fastforce
  obtain en2 h2 where n: "engine_run cs en1 = (en2, h2)" by fastforce
  have t1: "typed T (en1, empty_batch, h1)"
    using typed_engine_step [OF Cons.prems(1-3), of c] Cons.prems(4) by (simp add: s typed_step_def)
  have "en_rules en1 = en_rules en" using rules_step [of c en] by (simp add: s)
  then have "typed_step T (engine_run cs en1)"
    using Cons.IH [of en1] Cons.prems typed_fresh [OF t1] by simp
  then show ?case using typed_join [OF t1] by (simp add: s n typed_step_def)
qed



end
