(* ===== verification/Query_Fields.thy ===== *)
theory Query_Fields
  imports Events World_State
begin

text \<open>
  What a query reads of an object or an event, and its tests
  (\<^verbatim>\<open>packages/query-engine/src/fields.ts\<close>, \<^verbatim>\<open>filters.ts\<close>, \<^verbatim>\<open>text-match.ts\<close>,
  \<^verbatim>\<open>packages/world-model/src/query.ts\<close>).

  A field is \<open>None\<close> when it is undefined. An object of JSON has the keys it was given; what
  JavaScript would find on every object (\<^verbatim>\<open>constructor\<close>) it has not. A three-way comparison is
  its sign, and \<open>None\<close> where the code has \<open>NaN\<close>.
\<close>

section \<open>Queries\<close>

datatype filter_op = Op_Eq | Op_Neq | Op_Gt | Op_Gte | Op_Lt | Op_Lte | Op_In | Op_Contains | Op_Exists

record world_filter =
  fi_field :: jstring
  fi_op :: filter_op
  fi_value :: "json option"

datatype sort_direction = Ascending | Descending

record sort_definition =
  so_field :: jstring
  so_direction :: sort_direction

record world_query =
  wq_objects :: "jstring list option"
  wq_events :: "jstring list option"
  wq_text :: "jstring option"
  wq_region :: "geo_region option"
  wq_time :: "time_range option"
  wq_filters :: "world_filter list option"
  wq_sort :: "sort_definition option"
  wq_limit :: "int option"
  wq_providers :: "jstring list option"

section \<open>Numbers and texts of values\<close>

text \<open>
  \<open>Number\<close> of a text: nothing is zero; a prefix \<^verbatim>\<open>0x\<close>, \<^verbatim>\<open>0o\<close> or \<^verbatim>\<open>0b\<close> gives the base; a decimal has
  digits before or after the point and may have an exponent. \<open>Infinity\<close> is not finite, and is
  \<open>None\<close> here as every text that is no number is.
\<close>

definition digit_of :: "nat \<Rightarrow> jchar \<Rightarrow> nat option" where
  "digit_of base c =
     (let v = (if is_digit c then Some (c - 48) else if is_lower c then Some (c - 87)
               else if is_upper c then Some (c - 55) else None)
      in case v of Some d \<Rightarrow> if d < base then Some d else None | None \<Rightarrow> None)"

fun digits_from :: "nat \<Rightarrow> nat \<Rightarrow> jstring \<Rightarrow> nat option" where
  "digits_from base acc [] = Some acc"
| "digits_from base acc (c # s) =
     (case digit_of base c of Some d \<Rightarrow> digits_from base (acc * base + d) s | None \<Rightarrow> None)"

definition whole :: "nat \<Rightarrow> jstring \<Rightarrow> nat option" where
  "whole base s = (if s = [] then None else digits_from base 0 s)"

definition ahead_of :: "(jchar \<Rightarrow> bool) \<Rightarrow> jstring \<Rightarrow> jstring" where
  "ahead_of P s = takeWhile (\<lambda>c. \<not> P c) s"

definition behind :: "(jchar \<Rightarrow> bool) \<Rightarrow> jstring \<Rightarrow> jstring option" where
  "behind P s = (case dropWhile (\<lambda>c. \<not> P c) s of [] \<Rightarrow> None | c # r \<Rightarrow> Some r)"

definition sign_split :: "jstring \<Rightarrow> int \<times> jstring" where
  "sign_split s = (case s of [] \<Rightarrow> (1, [])
     | c # r \<Rightarrow> if c = jc CHR ''-'' then (-1, r) else if c = jc CHR ''+'' then (1, r) else (1, s))"

definition exponent_of :: "jstring option \<Rightarrow> int option" where
  "exponent_of e = (case e of None \<Rightarrow> Some 0
     | Some t \<Rightarrow> (case sign_split t of (g, r) \<Rightarrow> map_option (\<lambda>n. g * int n) (whole 10 r)))"

definition decimal_number :: "jstring \<Rightarrow> real option" where
  "decimal_number s =
     (case sign_split s of (g, t) \<Rightarrow>
        let is_e = (\<lambda>c. c = jc CHR ''e'' \<or> c = jc CHR ''E''); is_dot = (\<lambda>c. c = jc CHR ''.'');
            m = ahead_of is_e t; i = ahead_of is_dot m; f = (case behind is_dot m of Some r \<Rightarrow> r | None \<Rightarrow> [])
        in case (whole 10 (i @ f), exponent_of (behind is_e t)) of
             (Some n, Some x) \<Rightarrow> Some (of_int g * of_nat n * 10 powi (x - int (length f)))
           | _ \<Rightarrow> None)"

definition number_of_text :: "jstring \<Rightarrow> real option" where
  "number_of_text s =
     (case trim s of
        [] \<Rightarrow> Some 0
      | t \<Rightarrow>
          if take 2 t \<in> {js ''0x'', js ''0X''} then map_option of_nat (whole 16 (drop 2 t))
          else if take 2 t \<in> {js ''0o'', js ''0O''} then map_option of_nat (whole 8 (drop 2 t))
          else if take 2 t \<in> {js ''0b'', js ''0B''} then map_option of_nat (whole 2 (drop 2 t))
          else decimal_number t)"

text \<open>\<open>String\<close> of a value, \<open>Number\<close> of one, and \<open>JSON.stringify\<close>.\<close>

fun string_of :: "json \<Rightarrow> jstring" where
  "string_of JNull = js ''null''"
| "string_of (JBool b) = (if b then js ''true'' else js ''false'')"
| "string_of (JNum x) = number_text x"
| "string_of (JStr s) = s"
| "string_of (JArr vs) = join_with (jc CHR '','') (map (\<lambda>v. if v = JNull then [] else string_of v) vs)"
| "string_of (JObj kvs) = js ''[object Object]''"

fun number_of :: "json \<Rightarrow> real option" where
  "number_of JNull = Some 0"
| "number_of (JBool b) = Some (if b then 1 else 0)"
| "number_of (JNum x) = Some x"
| "number_of v = number_of_text (string_of v)"

fun json_stringify :: "json \<Rightarrow> jstring" where
  "json_stringify (JArr vs) = js ''['' @ join_with 44 (map json_stringify vs) @ js '']''"
| "json_stringify (JObj kvs) =
     js ''{'' @ join_with 44 (map (\<lambda>(k, t). json_text k @ 58 # t) (map (\<lambda>(k, v). (k, json_stringify v)) kvs)) @ js ''}''"
| "json_stringify v = stableStringify v"

section \<open>Fields\<close>

fun walk :: "json option \<Rightarrow> jstring list \<Rightarrow> json option" where
  "walk cur [] = cur"
| "walk cur (s # ss) =
     (case cur of
        Some (JArr vs) \<Rightarrow>
          (case number_of_text s of
             Some x \<Rightarrow> if x = of_int \<lfloor>x\<rfloor> \<and> 0 \<le> \<lfloor>x\<rfloor> \<and> nat \<lfloor>x\<rfloor> < length vs then walk (Some (vs ! nat \<lfloor>x\<rfloor>)) ss
                       else walk None ss
           | None \<Rightarrow> walk None ss)
      | Some (JObj kvs) \<Rightarrow> walk (map_of kvs s) ss
      | _ \<Rightarrow> None)"

definition optional :: "string \<Rightarrow> json option \<Rightarrow> payload" where
  "optional k v = (case v of Some j \<Rightarrow> [(js k, j)] | None \<Rightarrow> [])"

definition motionJson :: "obj_motion \<Rightarrow> payload" where
  "motionJson m = optional ''speedMps'' (map_option JNum (mo_speed m)) @
     optional ''headingDegrees'' (map_option JNum (mo_heading m)) @
     optional ''verticalSpeedMps'' (map_option JNum (mo_vertical m))"

fun datum_text :: "datum \<Rightarrow> jstring" where
  "datum_text Ellipsoid = js ''ellipsoid''"
| "datum_text Msl = js ''msl''"
| "datum_text Barometric = js ''barometric''"
| "datum_text Ground = js ''ground''"
| "datum_text Sea_Surface = js ''sea-surface''"
| "datum_text Orbit = js ''orbit''"

definition positionJson :: "geo_position \<Rightarrow> payload" where
  "positionJson p = [(js ''latitude'', JNum (latitude p)), (js ''longitude'', JNum (longitude p))] @
     optional ''altitudeM'' (map_option JNum (altitudeM p)) @
     optional ''altitudeDatum'' (map_option (\<lambda>d. JStr (datum_text d)) (altitudeDatum p)) @
     optional ''accuracyM'' (map_option JNum (accuracyM p))"


fun freshness_text :: "freshness_class \<Rightarrow> jstring" where
  "freshness_text LIVE = js ''LIVE''"
| "freshness_text RECENT = js ''RECENT''"
| "freshness_text STALE = js ''STALE''"
| "freshness_text HISTORICAL = js ''HISTORICAL''"
| "freshness_text UNKNOWN_FRESHNESS = js ''UNKNOWN''"

definition OBJECT_TOP :: "jstring list" where
  "OBJECT_TOP = map js [''type'', ''id'', ''freshness'', ''confidence'', ''observedAt'', ''updatedAt'',
     ''validUntil'', ''providerId'']"

definition EVENT_TOP :: "jstring list" where
  "EVENT_TOP = map js [''type'', ''id'', ''title'', ''severity'', ''confidence'', ''startAt'', ''endAt'',
     ''providerId'', ''summary'']"

definition resolveObjectField :: "world_object \<Rightarrow> jstring \<Rightarrow> json option" where
  "resolveObjectField ob path =
     (let parts = split_on (jc CHR ''.'') path; h = hd parts; rest = tl parts
      in if h = [] then None
         else if h = js ''properties'' then walk (Some (JObj (wo_properties ob))) rest
         else if h = js ''labels'' then walk (Some (JObj (map (\<lambda>(k, v). (k, JStr v)) (wo_labels ob)))) rest
         else if h = js ''motion'' then (case wo_motion ob of Some m \<Rightarrow> walk (Some (JObj (motionJson m))) rest | None \<Rightarrow> None)
         else if h = js ''position'' then (case wo_position ob of Some p \<Rightarrow> walk (Some (JObj (positionJson p))) rest | None \<Rightarrow> None)
         else if h = js ''providerId'' then Some (JStr (pv_provider (wo_provenance ob)))
         else if h = js ''type'' then Some (JStr (wo_type ob))
         else if h = js ''id'' then Some (JStr (wo_id ob))
         else if h = js ''freshness'' then Some (JStr (freshness_text (wo_freshness ob)))
         else if h = js ''confidence'' then Some (JNum (wo_confidence ob))
         else if h = js ''observedAt'' then Some (JStr (wo_observed ob))
         else if h = js ''updatedAt'' then Some (JStr (wo_updated ob))
         else if h = js ''validUntil'' then map_option JStr (wo_until ob)
         else if rest = [] \<and> h \<notin> set OBJECT_TOP then walk (Some (JObj (wo_properties ob))) [h]
         else None)"

definition resolveEventField :: "world_event \<Rightarrow> jstring \<Rightarrow> json option" where
  "resolveEventField e path =
     (let parts = split_on (jc CHR ''.'') path; h = hd parts; rest = tl parts
      in if h = [] then None
         else if h = js ''properties'' then (case ev_properties e of Some p \<Rightarrow> walk (Some (JObj p)) rest | None \<Rightarrow> None)
         else if h = js ''providerId'' then Some (JStr (pv_provider (ev_provenance e)))
         else if h = js ''type'' then Some (JStr (ev_type e))
         else if h = js ''id'' then Some (JStr (ev_id e))
         else if h = js ''title'' then Some (JStr (ev_title e))
         else if h = js ''summary'' then Some (JStr (ev_summary e))
         else if h = js ''severity'' then map_option (\<lambda>s. JStr (js (severity_name s))) (ev_severity e)
         else if h = js ''confidence'' then Some (JStr (js (confidence_name (ev_confidence e))))
         else if h = js ''startAt'' then Some (JStr (ev_start e))
         else if h = js ''endAt'' then map_option JStr (ev_end e)
         else if rest = [] \<and> h \<notin> set EVENT_TOP then
           (case ev_properties e of Some p \<Rightarrow> walk (Some (JObj p)) [h] | None \<Rightarrow> None)
         else None)"

section \<open>Comparison\<close>

datatype kind = K_Number | K_Date | K_String | K_Boolean | K_None | K_Other

definition iso_like :: "jstring \<Rightarrow> bool" where
  "iso_like s \<longleftrightarrow> 16 \<le> length s \<and> list_all is_digit (slice 0 4 s) \<and> s ! 4 = jc CHR ''-'' \<and>
     list_all is_digit (slice 5 7 s) \<and> s ! 7 = jc CHR ''-'' \<and> list_all is_digit (slice 8 10 s) \<and> s ! 10 = jc CHR ''T'' \<and>
     list_all is_digit (slice 11 13 s) \<and> s ! 13 = jc CHR '':'' \<and> list_all is_digit (slice 14 16 s)"

fun comparableKind :: "json option \<Rightarrow> kind" where
  "comparableKind None = K_None"
| "comparableKind (Some JNull) = K_None"
| "comparableKind (Some (JNum x)) = K_Number"
| "comparableKind (Some (JBool b)) = K_Boolean"
| "comparableKind (Some (JStr s)) = (if iso_like s \<and> date_parse s \<noteq> None then K_Date else K_String)"
| "comparableKind (Some v) = K_Other"

definition sign :: "'a :: linorder \<Rightarrow> 'a \<Rightarrow> int" where
  "sign a b = (if a < b then -1 else if b < a then 1 else 0)"

fun toNumber :: "json option \<Rightarrow> real option" where
  "toNumber (Some (JNum x)) = Some x"
| "toNumber (Some (JStr s)) = (if trim s \<noteq> [] then number_of_text s else None)"
| "toNumber v = None"

fun kind_order :: "kind \<Rightarrow> nat" where
  "kind_order K_Number = 0"
| "kind_order K_Date = 1"
| "kind_order K_Boolean = 2"
| "kind_order K_String = 3"
| "kind_order K_Other = 4"
| "kind_order K_None = 5"

fun same_kind_compare :: "json \<Rightarrow> json \<Rightarrow> int" where
  "same_kind_compare (JNum x) (JNum y) = sign x y"
| "same_kind_compare (JBool x) (JBool y) = sign x y"
| "same_kind_compare (JStr x) (JStr y) =
     (if comparableKind (Some (JStr x)) = K_Date then sign (the (date_parse x)) (the (date_parse y))
      else sign (map lower x, x) (map lower y, y))"
| "same_kind_compare x y = sign (json_stringify x) (json_stringify y)"

definition compareValues :: "json option \<Rightarrow> json option \<Rightarrow> int" where
  "compareValues a b =
     (let ka = comparableKind a; kb = comparableKind b
      in if ka = K_None \<and> kb = K_None then 0
         else if ka = K_None then 1
         else if kb = K_None then -1
         else if ka = kb then same_kind_compare (the a) (the b)
         else (case (toNumber a, toNumber b) of
                 (Some x, Some y) \<Rightarrow> sign x y
               | _ \<Rightarrow> sign (kind_order ka) (kind_order kb)))"

section \<open>Filters\<close>

definition finite_text :: "json \<Rightarrow> bool" where
  "finite_text v = (case v of JStr s \<Rightarrow> trim s \<noteq> [] | _ \<Rightarrow> True)"

definition is_number :: "json \<Rightarrow> bool" where
  "is_number v = (case v of JNum x \<Rightarrow> True | _ \<Rightarrow> False)"

definition is_boolean :: "json \<Rightarrow> bool" where
  "is_boolean v = (case v of JBool x \<Rightarrow> True | _ \<Rightarrow> False)"

definition equals :: "json \<Rightarrow> json option \<Rightarrow> bool" where
  "equals a v =
     (case v of
        None \<Rightarrow> False
      | Some b \<Rightarrow>
          if a = JNull \<or> b = JNull then a = b
          else if is_number a \<or> is_number b then
            (case (number_of a, number_of b) of
               (Some x, Some y) \<Rightarrow> finite_text a \<and> finite_text b \<and> x = y
             | _ \<Rightarrow> False)
          else if is_boolean a \<or> is_boolean b then a = b \<or> string_of a = string_of b
          else (case (a, b) of
                  (JStr s, JStr t) \<Rightarrow> s = t
                | _ \<Rightarrow> json_stringify a = json_stringify b))"

definition ordered :: "json option \<Rightarrow> json option \<Rightarrow> int option" where
  "ordered field v =
     (let kf = comparableKind field; kv = comparableKind v
      in if field = None \<or> v = None then None
         else if kf = K_None \<or> kv = K_None \<or> kf = K_Other \<or> kv = K_Other then None
         else if kf \<noteq> kv then
           (case (toNumber field, toNumber v) of (Some x, Some y) \<Rightarrow> Some (sign x y) | _ \<Rightarrow> None)
         else Some (compareValues field v))"

definition text_includes :: "jstring \<Rightarrow> jstring \<Rightarrow> bool" where
  "text_includes part s \<longleftrightarrow> list_ex (\<lambda>i. take (length part) (drop i s) = part) [0..<Suc (length s)]"

fun matchesFilter :: "json option \<Rightarrow> filter_op \<Rightarrow> json option \<Rightarrow> bool" where
  "matchesFilter field Op_Exists v =
     (if \<not> (v = Some (JBool False) \<or> v = Some (JStr (js ''false'')) \<or> v = Some (JNum 0))
      then field \<noteq> None \<and> field \<noteq> Some JNull else \<not> (field \<noteq> None \<and> field \<noteq> Some JNull))"
| "matchesFilter field Op_Eq v = (case field of Some f \<Rightarrow> equals f v | None \<Rightarrow> False)"
| "matchesFilter field Op_Neq v = (\<not> (case field of Some f \<Rightarrow> equals f v | None \<Rightarrow> False))"
| "matchesFilter field Op_Gt v = (case ordered field v of Some c \<Rightarrow> c > 0 | None \<Rightarrow> False)"
| "matchesFilter field Op_Gte v = (case ordered field v of Some c \<Rightarrow> c \<ge> 0 | None \<Rightarrow> False)"
| "matchesFilter field Op_Lt v = (case ordered field v of Some c \<Rightarrow> c < 0 | None \<Rightarrow> False)"
| "matchesFilter field Op_Lte v = (case ordered field v of Some c \<Rightarrow> c \<le> 0 | None \<Rightarrow> False)"
| "matchesFilter field Op_In v =
     (case field of None \<Rightarrow> False
      | Some f \<Rightarrow> (case v of Some (JArr xs) \<Rightarrow> list_ex (\<lambda>x. equals f (Some x)) xs | _ \<Rightarrow> equals f v))"
| "matchesFilter field Op_Contains v =
     (case field of
        None \<Rightarrow> False
      | Some JNull \<Rightarrow> False
      | Some (JStr s) \<Rightarrow> (case v of Some t \<Rightarrow> text_includes (map lower (string_of t)) (map lower s) | None \<Rightarrow> False)
      | Some (JArr xs) \<Rightarrow> list_ex (\<lambda>x. equals x v) xs
      | Some (JObj kvs) \<Rightarrow> (case v of Some (JStr k) \<Rightarrow> k \<in> fst ` set kvs | _ \<Rightarrow> False)
      | Some f \<Rightarrow> equals f v)"

definition matchesAll :: "(jstring \<Rightarrow> json option) \<Rightarrow> world_filter list option \<Rightarrow> bool" where
  "matchesAll field filters =
     (case filters of None \<Rightarrow> True
      | Some fs \<Rightarrow> list_all (\<lambda>f. matchesFilter (field (fi_field f)) (fi_op f) (fi_value f)) fs)"

section \<open>Text\<close>

fun words_of :: "jstring \<Rightarrow> jstring \<Rightarrow> jstring list" where
  "words_of w [] = [w]"
| "words_of w (c # s) =
     (if is_space c \<or> c = jc CHR '','' \<or> c = jc CHR '';'' then w # words_of [] s else words_of (w @ [c]) s)"

definition tokenize :: "jstring \<Rightarrow> jstring list" where
  "tokenize t = filter (\<lambda>w. w \<noteq> []) (map trim (words_of [] (map lower t)))"

definition iso_suffix_at :: "jstring \<Rightarrow> nat \<Rightarrow> bool" where
  "iso_suffix_at s n \<longleftrightarrow> n \<le> length s \<and> s ! (length s - n) = jc CHR '':'' \<and> iso_fields (drop (length s - n + 1) s) \<noteq> None"

definition externalIdOf :: "jstring \<Rightarrow> jstring \<Rightarrow> jstring option" where
  "externalIdOf oid provider =
     (if \<not> starts_with (provider @ js '':'') oid then None
      else let rest = drop (length provider + 1) oid
           in case find (iso_suffix_at rest) [25, 24, 23, 21] of
                Some n \<Rightarrow> if take (length rest - n) rest \<noteq> [] then Some (take (length rest - n) rest) else None
              | None \<Rightarrow> None)"

definition after_last_colon :: "jstring \<Rightarrow> jstring list" where
  "after_last_colon i =
     (let v = takeWhile (\<lambda>c. c \<noteq> jc CHR '':'') (rev i)
      in if jc CHR '':'' \<in> set i \<and> v \<noteq> [] then [rev v] else [])"

definition objectSearchStrings :: "world_object \<Rightarrow> jstring list" where
  "objectSearchStrings ob =
     wo_id ob # after_last_colon (wo_id ob) @ filter (\<lambda>v. v \<noteq> []) (map snd (wo_labels ob)) @
     List.map_filter (\<lambda>r. externalIdOf (rf_observation r) (rf_provider r)) (wo_refs ob)"

definition eventSearchStrings :: "world_event \<Rightarrow> jstring list" where
  "eventSearchStrings e = ev_id e # ev_title e # after_last_colon (ev_id e) @ ev_objects e"

definition matchesTokens :: "jstring list \<Rightarrow> jstring list \<Rightarrow> bool" where
  "matchesTokens candidates tokens \<longleftrightarrow>
     list_all (\<lambda>t. list_ex (\<lambda>c. text_includes t (map lower c)) candidates) tokens"

end
