(* ===== verification/Query.thy ===== *)
theory Query
  imports Query_Fields Watch_Zones "HOL-Library.Multiset"
begin

text \<open>
  Queries over the world, its history and the event store (\<^verbatim>\<open>packages/query-engine/src/execute.ts\<close>).

  The history is a function of the time asked for and the options handed to it. The order of a
  sort is given by \<open>goes_before\<close>; where that is no order (\<open>mixed_keys_cycle\<close>) what a JavaScript
  engine returns depends on its sorting algorithm, and the stable insertion sort here is one such.
\<close>

section \<open>Execution\<close>

datatype basis = Live_Basis | Historical_Basis

record 'a query_result =
  qr_items :: "'a list"
  qr_total :: nat
  qr_truncated :: bool
  qr_basis :: basis
  qr_evaluated :: jstring

definition restriction :: "jstring list option \<Rightarrow> jstring list option" where
  "restriction names = (case names of Some (n # ns) \<Rightarrow> Some (n # ns) | _ \<Rightarrow> None)"

definition tokens_of :: "world_query \<Rightarrow> jstring list" where
  "tokens_of q = (case wq_text q of Some t \<Rightarrow> if t \<noteq> [] then tokenize t else [] | None \<Rightarrow> [])"

definition objectFromProviders :: "world_object \<Rightarrow> jstring list \<Rightarrow> bool" where
  "objectFromProviders ob ps \<longleftrightarrow> pv_provider (wo_provenance ob) \<in> set ps \<or>
     list_ex (\<lambda>r. rf_provider r \<in> set ps) (wo_refs ob)"

definition eventOverlapsRange :: "world_event \<Rightarrow> time_range \<Rightarrow> bool" where
  "eventOverlapsRange e r =
     (let s = date_parse (ev_start e);
          en = (case ev_end e of Some t \<Rightarrow> if t \<noteq> [] then date_parse t else s | None \<Rightarrow> s)
      in case (s, en, date_parse (tr_start r), date_parse (tr_end r)) of
           (Some s, Some en, Some rs, Some re) \<Rightarrow> s \<le> re \<and> en \<ge> rs
         | _ \<Rightarrow> False)"

text \<open>The loop over the candidates keeps those none of its tests leaves out.\<close>

definition keeps_object :: "world_query \<Rightarrow> world_object \<Rightarrow> bool" where
  "keeps_object q ob \<longleftrightarrow>
     \<not> (case restriction (wq_objects q) of Some ts \<Rightarrow> wo_type ob \<notin> set ts | None \<Rightarrow> False) \<and>
     \<not> (case restriction (wq_providers q) of Some ps \<Rightarrow> \<not> objectFromProviders ob ps | None \<Rightarrow> False) \<and>
     \<not> (case wq_region q of
          Some r \<Rightarrow> \<not> (case wo_position ob of Some p \<Rightarrow> regionContains r (place p) | None \<Rightarrow> False)
        | None \<Rightarrow> False) \<and>
     \<not> (case wq_time q of Some t \<Rightarrow> \<not> timeRangeContains t (wo_observed ob) | None \<Rightarrow> False) \<and>
     matchesAll (resolveObjectField ob) (wq_filters q) \<and>
     \<not> (tokens_of q \<noteq> [] \<and> \<not> matchesTokens (objectSearchStrings ob) (tokens_of q))"

definition keeps_event :: "world_query \<Rightarrow> world_event \<Rightarrow> bool" where
  "keeps_event q e \<longleftrightarrow>
     \<not> (case restriction (wq_events q) of Some ts \<Rightarrow> ev_type e \<notin> set ts | None \<Rightarrow> False) \<and>
     \<not> (case restriction (wq_providers q) of Some ps \<Rightarrow> pv_provider (ev_provenance e) \<notin> set ps | None \<Rightarrow> False) \<and>
     \<not> (case wq_region q of
          Some r \<Rightarrow> \<not> (case ev_geometry e of Some g \<Rightarrow> geometryIntersectsRegion g r | None \<Rightarrow> False)
        | None \<Rightarrow> False) \<and>
     \<not> (case wq_time q of Some t \<Rightarrow> \<not> eventOverlapsRange e t | None \<Rightarrow> False) \<and>
     matchesAll (resolveEventField e) (wq_filters q) \<and>
     \<not> (tokens_of q \<noteq> [] \<and> \<not> matchesTokens (eventSearchStrings e) (tokens_of q))"

text \<open>The order of a sort: what has no key last, then by key in the direction asked for, then by id.\<close>

definition direction :: "sort_definition option \<Rightarrow> int" where
  "direction srt = (case srt of Some d \<Rightarrow> if so_direction d = Ascending then 1 else -1 | None \<Rightarrow> -1)"

definition no_key :: "json option \<Rightarrow> bool" where
  "no_key k \<longleftrightarrow> k = None \<or> k = Some JNull"

definition compare_keyed :: "int \<Rightarrow> json option \<times> jstring \<Rightarrow> json option \<times> jstring \<Rightarrow> int" where
  "compare_keyed dir a b =
     (let aNone = no_key (fst a); bNone = no_key (fst b)
      in if aNone \<and> \<not> bNone then 1
         else if bNone \<and> \<not> aNone then -1
         else let c = (if aNone \<and> bNone then 0 else compareValues (fst a) (fst b) * dir)
              in if c \<noteq> 0 then c else sign (snd a) (snd b))"

definition goes_before :: "int \<Rightarrow> ('a \<Rightarrow> json option \<times> jstring) \<Rightarrow> 'a \<Rightarrow> 'a \<Rightarrow> bool" where
  "goes_before dir key a b \<longleftrightarrow> compare_keyed dir (key a) (key b) < 0"

definition sort_key_of :: "sort_definition option \<Rightarrow> ('a \<Rightarrow> jstring \<Rightarrow> json option) \<Rightarrow> ('a \<Rightarrow> jstring) \<Rightarrow> ('a \<Rightarrow> jstring) \<Rightarrow>
    'a \<Rightarrow> json option \<times> jstring" where
  "sort_key_of srt read idOf timeOf item =
     ((case srt of Some d \<Rightarrow> read item (so_field d) | None \<Rightarrow> Some (JStr (timeOf item))), idOf item)"

definition sortItems :: "sort_definition option \<Rightarrow> ('a \<Rightarrow> jstring \<Rightarrow> json option) \<Rightarrow> ('a \<Rightarrow> jstring) \<Rightarrow> ('a \<Rightarrow> jstring) \<Rightarrow>
    'a list \<Rightarrow> 'a list" where
  "sortItems srt read idOf timeOf found =
     sort_with (goes_before (direction srt) (sort_key_of srt read idOf timeOf)) found"

definition finish_query :: "'a list \<Rightarrow> int option \<Rightarrow> basis \<Rightarrow> int \<Rightarrow> 'a query_result" where
  "finish_query ordered_found limit basis now =
     (let found = (case limit of Some l \<Rightarrow> if l \<ge> 0 \<and> l < int (length ordered_found) then take (nat l) ordered_found else ordered_found
                   | None \<Rightarrow> ordered_found)
      in \<lparr>qr_items = found, qr_total = length ordered_found, qr_truncated = (length found < length ordered_found),
          qr_basis = basis, qr_evaluated = to_iso now\<rparr>)"

definition applyObjectQuery :: "world_object list \<Rightarrow> world_query \<Rightarrow> basis \<Rightarrow> int \<Rightarrow> world_object query_result" where
  "applyObjectQuery candidates q basis now =
     finish_query (sortItems (wq_sort q) resolveObjectField wo_id wo_observed (filter (keeps_object q) candidates))
       (wq_limit q) basis now"

definition liveCandidates :: "world_query \<Rightarrow> world \<Rightarrow> world_object list" where
  "liveCandidates q w =
     (let types = restriction (wq_objects q)
      in case wq_region q of
           Some r \<Rightarrow>
             if (case r of Admin_Region i None \<Rightarrow> True | _ \<Rightarrow> False) then []
             else objects_within w r \<lparr>q_types = types, q_limit = None\<rparr>
         | None \<Rightarrow>
             (case types of
                Some ts \<Rightarrow> concat (map (ofType w) ts)
              | None \<Rightarrow> map snd (w_objects w)))"

definition executeQuery :: "world_query \<Rightarrow> world \<Rightarrow> int \<Rightarrow> world_object query_result" where
  "executeQuery q w now = applyObjectQuery (liveCandidates q w) q Live_Basis now"

record history_options =
  ho_types :: "jstring list option"
  ho_providers :: "jstring list option"
  ho_bounds :: "geo_bounds option"
  ho_lookback :: "real option"

definition executeQueryWithHistory ::
  "world_query \<Rightarrow> world \<Rightarrow> (jstring \<Rightarrow> history_options \<Rightarrow> world_object list) option \<Rightarrow> int \<Rightarrow> world_object query_result" where
  "executeQueryWithHistory q w history now =
     (case (wq_time q, history) of
        (Some t, Some objectsAt) \<Rightarrow>
          let lookback = (case (date_parse (tr_end t), date_parse (tr_start t)) of
                (Some b, Some a) \<Rightarrow> if max 0 (b - a) > 0 then Some (of_int (b - a) / 1000) else None
              | _ \<Rightarrow> None);
              rows = objectsAt (tr_end t)
                \<lparr>ho_types = wq_objects q, ho_providers = wq_providers q,
                 ho_bounds = Option.bind (wq_region q) regionBounds, ho_lookback = lookback\<rparr>
          in applyObjectQuery rows (q\<lparr>wq_time := None\<rparr>) Historical_Basis now
      | _ \<Rightarrow> executeQuery q w now)"

definition executeEventQuery :: "world_query \<Rightarrow> world_event list \<Rightarrow> int \<Rightarrow> world_event query_result" where
  "executeEventQuery q events now =
     finish_query (sortItems (wq_sort q) resolveEventField ev_id ev_start (filter (keeps_event q) events))
       (wq_limit q) Live_Basis now"

definition list_events :: "event_store \<Rightarrow> world_query \<Rightarrow> int \<Rightarrow> world_event query_result" where
  "list_events s q now = executeEventQuery q (st_ordered s) now"

section \<open>Orders\<close>

text \<open>A three-way comparison that is the sign of a difference in some linear order, on a set.\<close>

definition comparison_on :: "'a set \<Rightarrow> ('a \<Rightarrow> 'a \<Rightarrow> int) \<Rightarrow> bool" where
  "comparison_on A c \<longleftrightarrow> (\<forall>x\<in>A. \<forall>y\<in>A. c y x = - c x y) \<and>
     (\<forall>x\<in>A. \<forall>y\<in>A. \<forall>z\<in>A. c x y \<le> 0 \<and> c y z \<le> 0 \<longrightarrow> c x z \<le> 0)"

lemma comparison_onD:
  assumes "comparison_on A c" "x \<in> A" "y \<in> A"
  shows "c y x = - c x y" "z \<in> A \<Longrightarrow> c x y \<le> 0 \<Longrightarrow> c y z \<le> 0 \<Longrightarrow> c x z \<le> 0"
  using assms unfolding comparison_on_def by blast+

lemma comparison_onI:
  assumes "\<And>x y. x \<in> A \<Longrightarrow> y \<in> A \<Longrightarrow> c y x = - c x y"
    and "\<And>x y z. x \<in> A \<Longrightarrow> y \<in> A \<Longrightarrow> z \<in> A \<Longrightarrow> c x y \<le> 0 \<Longrightarrow> c y z \<le> 0 \<Longrightarrow> c x z \<le> 0"
  shows "comparison_on A c"
  using assms unfolding comparison_on_def by blast

lemma comparison_flip:
  assumes c: "comparison_on A c"
  shows "comparison_on A (\<lambda>x y. - c x y)"
proof (rule comparison_onI)
  fix x y z assume xyz: "x \<in> A" "y \<in> A" "z \<in> A" and le: "- c x y \<le> 0" "- c y z \<le> 0"
  have "c y x \<le> 0" "c z y \<le> 0" using comparison_onD(1) [OF c xyz(1,2)] comparison_onD(1) [OF c xyz(2,3)] le by linarith+
  then have "c z x \<le> 0" using comparison_onD(2) [OF c xyz(3,2,1)] by blast
  with comparison_onD(1) [OF c xyz(1,3)] show "- c x z \<le> 0" by linarith
next
  fix x y assume "x \<in> A" "y \<in> A"
  from comparison_onD(1) [OF c this] show "- c y x = - (- c x y)" by simp
qed

lemma comparison_sign: "(\<And>x y. x \<in> A \<Longrightarrow> y \<in> A \<Longrightarrow> c x y = sign (f x) (f y)) \<Longrightarrow> comparison_on A c"
  by (auto simp: comparison_on_def sign_def split: if_splits)

lemma comparison_lex:
  assumes c: "comparison_on A c" and d: "\<And>v. v \<in> A \<Longrightarrow> comparison_on {x \<in> A. c x v = 0} d"
  shows "comparison_on A (\<lambda>x y. if c x y \<noteq> 0 then c x y else d x y)"
proof (rule comparison_onI)
  have self: "c x x = 0" if "x \<in> A" for x using comparison_onD(1) [OF c that that] by linarith
  fix x y assume xy: "x \<in> A" "y \<in> A"
  have anti: "c y x = - c x y" by (rule comparison_onD(1) [OF c xy])
  show "(if c y x \<noteq> 0 then c y x else d y x) = - (if c x y \<noteq> 0 then c x y else d x y)"
  proof (cases "c x y = 0")
    case True
    have "x \<in> {u \<in> A. c u y = 0}" "y \<in> {u \<in> A. c u y = 0}" using xy self True by simp_all
    from comparison_onD(1) [OF d [OF xy(2)] this] show ?thesis by (simp only: anti True) simp
  qed (simp add: anti)
next
  have self: "c x x = 0" if "x \<in> A" for x using comparison_onD(1) [OF c that that] by linarith
  fix x y z assume xyz: "x \<in> A" "y \<in> A" "z \<in> A"
    and h: "(if c x y \<noteq> 0 then c x y else d x y) \<le> 0" "(if c y z \<noteq> 0 then c y z else d y z) \<le> 0"
  have le: "c x y \<le> 0" "c y z \<le> 0" using h by (auto split: if_splits)
  have xz: "c x z \<le> 0" by (rule comparison_onD(2) [OF c xyz(1,2,3) le])
  show "(if c x z \<noteq> 0 then c x z else d x z) \<le> 0"
  proof (cases "c x z = 0")
    case True
    have zx: "c z x \<le> 0" using comparison_onD(1) [OF c xyz(1,3)] True by linarith
    have "c z y \<le> 0" by (rule comparison_onD(2) [OF c xyz(3,1,2) zx le(1)])
    moreover have "c y x \<le> 0" by (rule comparison_onD(2) [OF c xyz(2,3,1) le(2) zx])
    ultimately have e: "c x y = 0" "c y z = 0"
      using comparison_onD(1) [OF c xyz(1,2)] comparison_onD(1) [OF c xyz(2,3)] le by linarith+
    then have "d x y \<le> 0" "d y z \<le> 0" using h by simp_all
    moreover have "x \<in> {u \<in> A. c u z = 0}" "y \<in> {u \<in> A. c u z = 0}" "z \<in> {u \<in> A. c u z = 0}"
      using xyz True e self by simp_all
    ultimately have "d x z \<le> 0" using comparison_onD(2) [OF d [OF xyz(3)]] by blast
    with True show ?thesis by simp
  qed (use xz in simp)
qed

lemma comparison_strict:
  assumes c: "comparison_on A c" and x: "x \<in> A" "y \<in> A" "z \<in> A" and l: "c x y < 0" "c y z < 0"
  shows "c x z < 0"
proof -
  have "c x z \<le> 0" using comparison_onD(2) [OF c x] l by linarith
  moreover have "c x z \<noteq> 0"
  proof
    assume "c x z = 0"
    then have "c z x \<le> 0" using comparison_onD(1) [OF c x(1,3)] by linarith
    then have "c z y \<le> 0" using comparison_onD(2) [OF c x(3,1,2)] l by linarith
    with comparison_onD(1) [OF c x(2,3)] l(2) show False by linarith
  qed
  ultimately show ?thesis by linarith
qed

lemma mset_place_in: "mset (place_in lt x xs) = add_mset x (mset xs)"
proof -
  have "mset xs = mset (takeWhile (\<lambda>y. lt y x) xs) + mset (dropWhile (\<lambda>y. lt y x) xs)"
    by (simp flip: mset_append)
  then show ?thesis by (simp add: place_in_def)
qed

lemma mset_sort_with: "mset (sort_with lt xs) = mset xs"
  unfolding sort_with_def by (induction xs) (simp_all add: mset_place_in)

text \<open>Sorting with a comparison that tells any two of the items apart puts each before those it goes before.\<close>

lemma sorted_place_in:
  assumes c: "comparison_on A c" and x: "x \<in> A" and xs: "set xs \<subseteq> A"
    and s: "sorted_wrt (\<lambda>a b. c a b < 0) xs" and d: "\<And>y. y \<in> set xs \<Longrightarrow> c y x \<noteq> 0"
  shows "sorted_wrt (\<lambda>a b. c a b < 0) (place_in (\<lambda>a b. c a b < 0) x xs)"
  using xs s d
proof (induction xs)
  case Nil
  then show ?case by (simp add: place_in_def)
next
  case (Cons y ys)
  have y: "y \<in> A" using Cons.prems(1) by simp
  show ?case
  proof (cases "c y x < 0")
    case True
    then have "place_in (\<lambda>a b. c a b < 0) x (y # ys) = y # place_in (\<lambda>a b. c a b < 0) x ys" by (simp add: place_in_def)
    then show ?thesis using Cons True by simp
  next
    case False
    have xy: "c x y < 0" using comparison_onD(1) [OF c y x] False Cons.prems(3) [of y] by simp
    have "c x z < 0" if "z \<in> set ys" for z
      by (rule comparison_strict [OF c x y _ xy]) (use that Cons.prems in auto)
    with xy False Cons.prems(2) show ?thesis by (simp add: place_in_def)
  qed
qed

lemma sorted_sort_with:
  assumes c: "comparison_on (set xs) c" and d: "\<And>x y. x \<in> set xs \<Longrightarrow> y \<in> set xs \<Longrightarrow> c x y = 0 \<Longrightarrow> x = y"
    and xs: "distinct xs"
  shows "sorted_wrt (\<lambda>a b. c a b < 0) (sort_with (\<lambda>a b. c a b < 0) xs)"
proof -
  have "sorted_wrt (\<lambda>a b. c a b < 0) (sort_with (\<lambda>a b. c a b < 0) ys)" if "set ys \<subseteq> set xs" "distinct ys" for ys
    using that
  proof (induction ys)
    case (Cons y ys)
    have "sorted_wrt (\<lambda>a b. c a b < 0) (place_in (\<lambda>a b. c a b < 0) y (sort_with (\<lambda>a b. c a b < 0) ys))"
      by (rule sorted_place_in [OF c]) (use Cons d in auto)
    then show ?case by (simp add: sort_with_def)
  qed (simp add: sort_with_def)
  then show ?thesis using xs by blast
qed

section \<open>The order of a sort\<close>

text \<open>Keys of which those that are there are all of one kind.\<close>

definition uniform_keys :: "json option set \<Rightarrow> bool" where
  "uniform_keys K \<longleftrightarrow> (\<forall>a\<in>K. \<forall>b\<in>K. no_key a \<or> no_key b \<or> comparableKind a = comparableKind b)"

lemma no_key_kind: "no_key a \<longleftrightarrow> comparableKind a = K_None"
  by (cases a rule: comparableKind.cases) (auto simp: no_key_def)

lemma compareValues_same:
  "comparableKind a = comparableKind b \<Longrightarrow> \<not> no_key a \<Longrightarrow> compareValues a b = same_kind_compare (the a) (the b)"
  by (simp add: compareValues_def no_key_kind)

definition number_rank :: "json option \<Rightarrow> real" where
  "number_rank a = (case a of Some (JNum x) \<Rightarrow> x | _ \<Rightarrow> 0)"

definition truth_rank :: "json option \<Rightarrow> bool" where
  "truth_rank a = (case a of Some (JBool x) \<Rightarrow> x | _ \<Rightarrow> False)"

definition text_rank :: "json option \<Rightarrow> jstring" where
  "text_rank a = (case a of Some (JStr x) \<Rightarrow> x | _ \<Rightarrow> [])"

lemma kind_shapes:
  "comparableKind a = K_Number \<longleftrightarrow> (\<exists>x. a = Some (JNum x))" "comparableKind a = K_Boolean \<longleftrightarrow> (\<exists>x. a = Some (JBool x))"
  "comparableKind a = K_Date \<Longrightarrow> \<exists>x. a = Some (JStr x)" "comparableKind a = K_String \<Longrightarrow> \<exists>x. a = Some (JStr x)"
  "comparableKind a = K_Other \<longleftrightarrow> (\<exists>x. a = Some (JArr x)) \<or> (\<exists>x. a = Some (JObj x))"
  by (cases a rule: comparableKind.cases; auto split: if_splits)+

lemma one_kind_compared:
  assumes k: "\<And>a. a \<in> A \<Longrightarrow> comparableKind a = k"
  shows "comparison_on A compareValues"
proof (cases k)
  case K_Number
  have "compareValues a b = sign (number_rank a) (number_rank b)" if "a \<in> A" "b \<in> A" for a b
    using k [OF that(1)] k [OF that(2)] unfolding K_Number kind_shapes
    by (auto simp: compareValues_def number_rank_def)
  then show ?thesis by (rule comparison_sign)
next
  case K_Boolean
  have "compareValues a b = sign (truth_rank a) (truth_rank b)" if "a \<in> A" "b \<in> A" for a b
    using k [OF that(1)] k [OF that(2)] unfolding K_Boolean kind_shapes
    by (auto simp: compareValues_def truth_rank_def)
  then show ?thesis by (rule comparison_sign)
next
  case K_Date
  have "compareValues a b = sign (the (date_parse (text_rank a))) (the (date_parse (text_rank b)))" if "a \<in> A" "b \<in> A" for a b
  proof -
    have kk: "comparableKind a = K_Date" "comparableKind b = K_Date" using k that by (simp_all add: K_Date)
    then obtain x y where "a = Some (JStr x)" "b = Some (JStr y)" using kind_shapes(3) by blast
    with kk show ?thesis by (auto simp: compareValues_def text_rank_def)
  qed
  then show ?thesis by (rule comparison_sign)
next
  case K_String
  have "compareValues a b = sign (map lower (text_rank a), text_rank a) (map lower (text_rank b), text_rank b)"
    if "a \<in> A" "b \<in> A" for a b
  proof -
    have kk: "comparableKind a = K_String" "comparableKind b = K_String" using k that by (simp_all add: K_String)
    then obtain x y where "a = Some (JStr x)" "b = Some (JStr y)" using kind_shapes(4) by blast
    with kk show ?thesis by (auto simp: compareValues_def text_rank_def)
  qed
  then show ?thesis by (rule comparison_sign)
next
  case K_Other
  have "compareValues a b = sign (json_stringify (the a)) (json_stringify (the b))" if "a \<in> A" "b \<in> A" for a b
    using k [OF that(1)] k [OF that(2)] unfolding K_Other kind_shapes
    by (elim disjE exE) (simp_all add: compareValues_def)
  then show ?thesis by (rule comparison_sign)
next
  case K_None
  have "compareValues a b = sign (0::nat) 0" if "a \<in> A" "b \<in> A" for a b
    using k [OF that(1)] k [OF that(2)] by (simp add: compareValues_def K_None sign_def)
  then show ?thesis by (rule comparison_sign)
qed

lemma sign_eq_0 [simp]: "sign a b = 0 \<longleftrightarrow> a = b"
  by (auto simp: sign_def)

lemma comparison_image:
  assumes "comparison_on (f ` A) c"
  shows "comparison_on A (\<lambda>x y. c (f x) (f y))"
  by (rule comparison_onI) (blast intro: comparison_onD [OF assms])+

lemma comparison_cong:
  assumes e: "\<And>x y. x \<in> A \<Longrightarrow> y \<in> A \<Longrightarrow> d x y = c x y" and c: "comparison_on A c"
  shows "comparison_on A d"
proof (rule comparison_onI)
  fix x y assume "x \<in> A" "y \<in> A"
  then show "d y x = - d x y" using comparison_onD(1) [OF c] e by metis
next
  fix x y z assume "x \<in> A" "y \<in> A" "z \<in> A" "d x y \<le> 0" "d y z \<le> 0"
  then show "d x z \<le> 0" using comparison_onD(2) [OF c] e by metis
qed

lemma sign_bool: "sign True True = 0" "sign False False = 0" "sign True False = 1" "sign False True = -1"
  by (simp_all add: sign_def)

lemma keyed_as_lex:
  "compare_keyed dir a b =
     (let c1 = sign (no_key (fst a)) (no_key (fst b));
          c2 = (if no_key (fst a) \<and> no_key (fst b) then 0 else compareValues (fst a) (fst b) * dir)
      in if c1 \<noteq> 0 then c1 else if c2 \<noteq> 0 then c2 else sign (snd a) (snd b))"
  by (cases "no_key (fst a)"; cases "no_key (fst b)") (simp_all only: compare_keyed_def Let_def sign_bool, simp_all)

lemma keyed_comparison:
  assumes u: "uniform_keys (fst ` A)" and dir: "dir = 1 \<or> dir = -1"
  shows "comparison_on A (compare_keyed dir)"
proof -
  let ?c1 = "\<lambda>a b :: json option \<times> jstring. sign (no_key (fst a)) (no_key (fst b))"
  let ?c2 = "\<lambda>a b :: json option \<times> jstring. if no_key (fst a) \<and> no_key (fst b) then 0 else compareValues (fst a) (fst b) * dir"
  have e: "compare_keyed dir = (\<lambda>a b. if ?c1 a b \<noteq> 0 then ?c1 a b else if ?c2 a b \<noteq> 0 then ?c2 a b else sign (snd a) (snd b))"
    by (simp add: fun_eq_iff keyed_as_lex Let_def)
  have c2: "comparison_on {x \<in> A. ?c1 x v = 0} ?c2" if v: "v \<in> A" for v
  proof (cases "no_key (fst v)")
    case True
    have "?c2 x y = sign (0::nat) 0" if "x \<in> {x \<in> A. ?c1 x v = 0}" "y \<in> {x \<in> A. ?c1 x v = 0}" for x y
    proof -
      have "no_key (fst x)" "no_key (fst y)" using that True by simp_all
      then show ?thesis by simp
    qed
    then show ?thesis by (rule comparison_sign)
  next
    case False
    let ?B = "{x \<in> A. ?c1 x v = 0}"
    have "comparableKind a = comparableKind (fst v)" if "a \<in> fst ` ?B" for a
      using that False u v unfolding uniform_keys_def by auto
    then have "comparison_on (fst ` ?B) compareValues" by (rule one_kind_compared)
    then have c: "comparison_on ?B (\<lambda>x y. compareValues (fst x) (fst y))" by (rule comparison_image)
    have "comparison_on ?B (\<lambda>x y. compareValues (fst x) (fst y) * dir)"
      using dir
    proof
      assume "dir = 1"
      with c show ?thesis by simp
    next
      assume "dir = -1"
      with comparison_flip [OF c] show ?thesis by simp
    qed
    moreover have "?c2 x y = compareValues (fst x) (fst y) * dir" if "x \<in> ?B" "y \<in> ?B" for x y
      using that False by simp
    ultimately show ?thesis by (intro comparison_cong [of ?B ?c2 "\<lambda>x y. compareValues (fst x) (fst y) * dir"])
  qed
  show ?thesis unfolding e
  proof (rule comparison_lex)
    show "comparison_on A ?c1" by (rule comparison_sign) simp
    show "comparison_on {x \<in> A. ?c1 x v = 0} (\<lambda>a b. if ?c2 a b \<noteq> 0 then ?c2 a b else sign (snd a) (snd b))"
      if "v \<in> A" for v
    proof (rule comparison_lex [OF c2 [OF that]])
      show "comparison_on {x \<in> {x \<in> A. ?c1 x v = 0}. ?c2 x u = 0} (\<lambda>a b. sign (snd a) (snd b))" for u
        by (rule comparison_sign) simp
    qed
  qed
qed

lemma keyed_zero: "compare_keyed dir a b = 0 \<Longrightarrow> snd a = snd b"
  by (auto simp: keyed_as_lex Let_def split: if_splits)

text \<open>What a query returns of candidates that are told apart by their ids.\<close>

definition goes_first :: "sort_definition option \<Rightarrow> ('a \<Rightarrow> jstring \<Rightarrow> json option) \<Rightarrow> ('a \<Rightarrow> jstring) \<Rightarrow> ('a \<Rightarrow> jstring) \<Rightarrow>
    'a \<Rightarrow> 'a \<Rightarrow> bool" where
  "goes_first srt read idOf timeOf = goes_before (direction srt) (sort_key_of srt read idOf timeOf)"

definition keys_of :: "sort_definition option \<Rightarrow> ('a \<Rightarrow> jstring \<Rightarrow> json option) \<Rightarrow> ('a \<Rightarrow> jstring) \<Rightarrow> 'a set \<Rightarrow> json option set" where
  "keys_of srt read timeOf M = (\<lambda>x. case srt of Some d \<Rightarrow> read x (so_field d) | None \<Rightarrow> Some (JStr (timeOf x))) ` M"

lemma sorted_found:
  assumes d: "distinct (map idOf xs)" and u: "uniform_keys (keys_of srt read timeOf (set xs))"
  shows "sorted_wrt (goes_first srt read idOf timeOf) (sortItems srt read idOf timeOf xs)"
proof -
  let ?key = "sort_key_of srt read idOf timeOf" and ?dir = "direction srt"
  have "fst ` ?key ` set xs = keys_of srt read timeOf (set xs)"
    by (auto simp: keys_of_def sort_key_of_def image_image)
  then have "comparison_on (?key ` set xs) (compare_keyed ?dir)"
    using u by (intro keyed_comparison) (auto simp: direction_def split: option.splits)
  then have c: "comparison_on (set xs) (\<lambda>a b. compare_keyed ?dir (?key a) (?key b))" by (rule comparison_image)
  have "sorted_wrt (\<lambda>a b. compare_keyed ?dir (?key a) (?key b) < 0)
      (sort_with (\<lambda>a b. compare_keyed ?dir (?key a) (?key b) < 0) xs)"
  proof (rule sorted_sort_with [OF c])
    fix x y assume xy: "x \<in> set xs" "y \<in> set xs" "compare_keyed ?dir (?key x) (?key y) = 0"
    then have "idOf x = idOf y" using keyed_zero by (fastforce simp: sort_key_of_def)
    then show "x = y" using d xy(1,2) by (auto simp: distinct_map dest: inj_onD)
  qed (use d in \<open>simp add: distinct_map\<close>)
  then show ?thesis by (simp add: goes_first_def goes_before_def [abs_def] sortItems_def)
qed

lemma found_set: "set (sortItems srt read idOf timeOf xs) = set xs" "length (sortItems srt read idOf timeOf xs) = length xs"
  "distinct (sortItems srt read idOf timeOf xs) = distinct xs"
  using mset_sort_with [of "goes_before (direction srt) (sort_key_of srt read idOf timeOf)" xs]
  by (simp_all add: sortItems_def) (metis mset_eq_length, metis mset_eq_imp_distinct_iff)

text \<open>The first of the matches, as many as asked for, and how many there are.\<close>

definition returns_matches :: "'a query_result \<Rightarrow> 'a set \<Rightarrow> int option \<Rightarrow> ('a \<Rightarrow> 'a \<Rightarrow> bool) \<Rightarrow> bool \<Rightarrow> bool" where
  "returns_matches r M limit before ordered_keys \<longleftrightarrow>
     finite M \<and> distinct (qr_items r) \<and> set (qr_items r) \<subseteq> M \<and> qr_total r = card M \<and>
     length (qr_items r) = (case limit of Some l \<Rightarrow> if l \<ge> 0 then min (nat l) (card M) else card M | None \<Rightarrow> card M) \<and>
     (qr_truncated r \<longleftrightarrow> set (qr_items r) \<noteq> M) \<and>
     (ordered_keys \<longrightarrow> sorted_wrt before (qr_items r) \<and> (\<forall>a\<in>set (qr_items r). \<forall>b\<in>M - set (qr_items r). before a b))"

lemma returned:
  assumes d: "distinct (map idOf xs)"
  shows "returns_matches (finish_query (sortItems srt read idOf timeOf xs) limit b now) (set xs) limit
     (goes_first srt read idOf timeOf) (uniform_keys (keys_of srt read timeOf (set xs)))"
proof -
  let ?s = "sortItems srt read idOf timeOf xs"
  have dx: "distinct xs" using d by (simp add: distinct_map)
  have s: "set ?s = set xs" "length ?s = card (set xs)" "distinct ?s"
    using dx by (simp_all add: found_set distinct_card)
  obtain n where n: "qr_items (finish_query ?s limit b now) = take n ?s"
    "n = (case limit of Some l \<Rightarrow> if l \<ge> 0 \<and> l < int (length ?s) then nat l else length ?s | None \<Rightarrow> length ?s)"
    by (cases limit) (simp_all add: finish_query_def Let_def)
  have le: "n \<le> length ?s" using n(2) by (auto split: option.splits)
  have split: "?s = take n ?s @ drop n ?s" by simp
  have all: "set (take n ?s) = set ?s \<longleftrightarrow> n = length ?s"
  proof
    assume "set (take n ?s) = set ?s"
    then have "card (set (take n ?s)) = length ?s" using s by (simp add: distinct_card)
    then show "n = length ?s" using s(3) le by (simp add: distinct_card)
  qed simp
  have "sorted_wrt (goes_first srt read idOf timeOf) (take n ?s) \<and>
      (\<forall>a\<in>set (take n ?s). \<forall>c\<in>set xs - set (take n ?s). goes_first srt read idOf timeOf a c)"
    if "uniform_keys (keys_of srt read timeOf (set xs))"
  proof -
    have "sorted_wrt (goes_first srt read idOf timeOf) (take n ?s @ drop n ?s)"
      using sorted_found [OF d that] by simp
    moreover have "set xs - set (take n ?s) \<subseteq> set (drop n ?s)"
      using s(1) split by (metis Diff_subset_conv set_append subset_refl)
    ultimately show ?thesis unfolding sorted_wrt_append by blast
  qed
  moreover have "qr_total (finish_query ?s limit b now) = card (set xs)" "qr_truncated (finish_query ?s limit b now) \<longleftrightarrow> n < length ?s"
    using s(2) le n(1) by (auto simp: finish_query_def Let_def)
  moreover have "length (take n ?s) = (case limit of Some l \<Rightarrow> if l \<ge> 0 then min (nat l) (card (set xs)) else card (set xs) | None \<Rightarrow> card (set xs))"
    using n(2) s(2) by (auto split: option.splits)
  ultimately show ?thesis
    unfolding returns_matches_def n(1) using s all le set_take_subset [of n ?s] by auto
qed

section \<open>Queries over the world\<close>

lemma found_ids:
  "(\<And>i ob. O' i = Some ob \<Longrightarrow> wo_id ob = i) \<Longrightarrow> map wo_id (List.map_filter O' ks) = filter (\<lambda>i. O' i \<noteq> None) ks"
  by (induction ks) (auto simp: map_filter_simps split: option.splits)

lemma map_filter_map: "List.map_filter f (map g xs) = List.map_filter (\<lambda>x. f (g x)) xs"
  by (simp add: List.map_filter_def filter_map comp_def)

definition asked_types :: "world_query \<Rightarrow> world_object \<Rightarrow> bool" where
  "asked_types q ob \<longleftrightarrow> (case restriction (wq_objects q) of Some ts \<Rightarrow> wo_type ob \<in> set ts | None \<Rightarrow> True)"

definition asked_place :: "world_query \<Rightarrow> world_object \<Rightarrow> bool" where
  "asked_place q ob \<longleftrightarrow> (case wq_region q of
      Some r \<Rightarrow> (case wo_position ob of Some p \<Rightarrow> regionContains r (place p) | None \<Rightarrow> False) | None \<Rightarrow> True)"

lemma keeps_asked: "keeps_object q ob \<Longrightarrow> asked_types q ob \<and> asked_place q ob"
  by (auto simp: keeps_object_def asked_types_def asked_place_def split: option.splits)

text \<open>A query that can be asked: its types are told apart, and its region is no circle and has bounds on the globe.\<close>

definition plain_query :: "world_query \<Rightarrow> bool" where
  "plain_query q \<longleftrightarrow>
     (case wq_objects q of Some ts \<Rightarrow> distinct ts \<and> [] \<notin> set ts | None \<Rightarrow> True) \<and>
     (case wq_region q of
        Some r \<Rightarrow> (case regionBounds r of Some b \<Rightarrow> plain r \<and> south b < 90 \<and> west b < 180 | None \<Rightarrow> True)
      | None \<Rightarrow> True)"

definition on_globe :: "world \<Rightarrow> bool" where
  "on_globe w \<longleftrightarrow> list_all (\<lambda>(i, ob). case wo_position ob of
     Some p \<Rightarrow> isValidLatLon (latitude p) (longitude p) | None \<Rightarrow> True) (w_objects w)"

lemma restricted: "restriction n = Some ts \<Longrightarrow> n = Some ts"
  by (auto simp: restriction_def split: option.splits list.splits)

lemma type_candidates:
  assumes w: "world_ok B w"
  shows "distinct (map wo_id (ofType w t))"
proof -
  have "distinct (set_of (w_by_type w) t)" using world_okD(2) [OF w] unfolding agree_def by blast
  then show ?thesis unfolding ofType_def by (simp add: found_ids [OF world_okD(7) [OF w]])
qed

lemma types_candidates:
  assumes w: "world_ok B w"
  shows "distinct ts \<Longrightarrow> distinct (map wo_id (concat (map (ofType w) ts)))"
proof (induction ts)
  case (Cons t ts)
  have "wo_id x \<noteq> wo_id y" if "x \<in> set (ofType w t)" "y \<in> set (ofType w u)" "u \<in> set ts" for x y u
  proof
    assume e: "wo_id x = wo_id y"
    have x: "objs w (wo_id x) = Some x" "wo_type x = t" and y: "objs w (wo_id y) = Some y" "wo_type y = u"
      using that(1,2) unfolding ofType_members [OF w] by blast+
    have "objs w (wo_id y) = Some x" using x(1) unfolding e .
    with y(1) have "x = y" by simp
    with x(2) y(2) have "t = u" by simp
    with Cons.prems that(3) show False by simp
  qed
  then have "set (map wo_id (ofType w t)) \<inter> set (map wo_id (concat (map (ofType w) ts))) = {}" by fastforce
  moreover have "distinct (map wo_id (concat (map (ofType w) ts)))" using Cons by simp
  ultimately show ?case using type_candidates [OF w, of t] by simp
qed simp

lemma all_candidates:
  assumes w: "world_ok B w"
  shows "distinct (map wo_id (map snd (w_objects w)))" "ob \<in> set (map snd (w_objects w)) \<longleftrightarrow> objs w (wo_id ob) = Some ob"
proof -
  note D = world_okD [OF w]
  have one: "objs w i = Some x \<and> wo_id x = i" if "(i, x) \<in> set (w_objects w)" for i x
    using that D(1) D(7) by (metis map_of_eq_Some_iff)
  have "map wo_id (map snd (w_objects w)) = map fst (w_objects w)"
    using one by (auto intro!: map_cong)
  then show "distinct (map wo_id (map snd (w_objects w)))" using D(1) by (simp only:)
  show "ob \<in> set (map snd (w_objects w)) \<longleftrightarrow> objs w (wo_id ob) = Some ob"
  proof
    assume "ob \<in> set (map snd (w_objects w))"
    then obtain i where "(i, ob) \<in> set (w_objects w)" by auto
    from one [OF this] show "objs w (wo_id ob) = Some ob" by blast
  next
    assume "objs w (wo_id ob) = Some ob"
    from map_of_SomeD [OF this] have "snd (wo_id ob, ob) \<in> snd ` set (w_objects w)" by (rule imageI)
    then show "ob \<in> set (map snd (w_objects w))" by simp
  qed
qed

lemma region_candidates:
  assumes w: "world_ok B w" and g: "on_globe w" and r: "plain r" "regionBounds r = Some b" "south b < 90" "west b < 180"
    and ts: "case ts of Some l \<Rightarrow> [] \<notin> set l | None \<Rightarrow> True"
  defines "found \<equiv> objects_within w r \<lparr>q_types = ts, q_limit = None\<rparr>"
  shows "distinct (map wo_id found)"
    "ob \<in> set found \<longleftrightarrow> objs w (wo_id ob) = Some ob \<and> (case ts of Some l \<Rightarrow> wo_type ob \<in> set l | None \<Rightarrow> True) \<and>
       (case wo_position ob of Some p \<Rightarrow> regionContains r (place p) | None \<Rightarrow> False)"
proof -
  note D = world_okD [OF w]
  let ?g = "w_spatial w" and ?q = "\<lparr>q_types = ts, q_limit = None\<rparr>"
  note sp = spatial_places [OF w]
  have item: "get_item ?g i = Some it \<longleftrightarrow> (\<exists>x p. objs w i = Some x \<and> wo_position x = Some p \<and>
      it = \<lparr>si_id = wo_id x, si_lat = latitude p, si_lon = longitude p, si_type = Some (wo_type x)\<rparr>)" for i it
    unfolding sp(1) by (auto simp: object_item_def bind_eq_Some_conv)
  have gid: "si_id it = i" if "get_item ?g i = Some it" for i it
    using that D(7) unfolding item by auto
  have "\<forall>i it. get_item ?g i = Some it \<longrightarrow> placed it"
  proof (intro allI impI)
    fix i it assume "get_item ?g i = Some it"
    then obtain x p where x: "objs w i = Some x" "wo_position x = Some p" "si_lat it = latitude p" "si_lon it = longitude p"
      unfolding item by auto
    with g map_of_SomeD [OF x(1)] show "placed it" by (auto simp: on_globe_def placed_def list_all_iff)
  qed
  note its = region_items [OF sp(2) this r, of ?q]
  let ?its = "withinRegion ?g r ?q"
  have q: "?q\<lparr>q_limit := None\<rparr> = ?q" by simp
  have dist: "distinct (map si_id ?its)"
    unfolding distinct_map
  proof
    show "distinct ?its" using its(1) unfolding q .
    show "inj_on si_id (set ?its)"
    proof (rule inj_onI)
      fix a b assume ab: "a \<in> set ?its" "b \<in> set ?its" "si_id a = si_id b"
      then have a: "get_item ?g (si_id a) = Some a" and b: "get_item ?g (si_id b) = Some b" using its(2) unfolding q by blast+
      have "get_item ?g (si_id b) = Some a" using a unfolding ab(3) .
      with b show "a = b" by simp
    qed
  qed
  have found: "found = List.map_filter (objs w) (map si_id ?its)"
    by (simp add: found_def objects_within_def map_filter_map)
  show "distinct (map wo_id found)"
    unfolding found using distinct_filter [OF dist, of "\<lambda>i. objs w i \<noteq> None"] found_ids [of "objs w" "map si_id ?its"] D(7)
    by (simp del: not_None_eq)
  have "wo_id ob \<in> si_id ` set ?its \<longleftrightarrow> (case ts of Some l \<Rightarrow> wo_type ob \<in> set l | None \<Rightarrow> True) \<and>
      (case wo_position ob of Some p \<Rightarrow> regionContains r (place p) | None \<Rightarrow> False)" if ob: "objs w (wo_id ob) = Some ob"
  proof -
    have "wo_id ob \<in> si_id ` set ?its \<longleftrightarrow> (\<exists>it. get_item ?g (wo_id ob) = Some it \<and> of_types ?q it \<and> regionContains r (item_place it))"
    proof
      assume "wo_id ob \<in> si_id ` set ?its"
      then obtain it where it: "it \<in> set ?its" "si_id it = wo_id ob" by auto
      then have "get_item ?g (si_id it) = Some it \<and> of_types ?q it \<and> regionContains r (item_place it)"
        using its(2) unfolding q by blast
      then show "\<exists>it. get_item ?g (wo_id ob) = Some it \<and> of_types ?q it \<and> regionContains r (item_place it)"
        unfolding it(2) by blast
    next
      assume "\<exists>it. get_item ?g (wo_id ob) = Some it \<and> of_types ?q it \<and> regionContains r (item_place it)"
      then obtain it where it: "get_item ?g (wo_id ob) = Some it" "of_types ?q it" "regionContains r (item_place it)" by blast
      note i = gid [OF it(1)]
      have "get_item ?g (si_id it) = Some it" using it(1) unfolding i .
      then have "it \<in> set ?its" using its(2) it unfolding q by blast
      then show "wo_id ob \<in> si_id ` set ?its" unfolding i [symmetric] by (rule imageI)
    qed
    also have "\<dots> \<longleftrightarrow> (\<exists>p. wo_position ob = Some p \<and>
        of_types ?q \<lparr>si_id = wo_id ob, si_lat = latitude p, si_lon = longitude p, si_type = Some (wo_type ob)\<rparr> \<and> regionContains r (place p))"
      unfolding item using ob by auto
    also have "\<dots> \<longleftrightarrow> (\<exists>p. wo_position ob = Some p \<and> (case ts of Some l \<Rightarrow> wo_type ob \<in> set l | None \<Rightarrow> True) \<and> regionContains r (place p))"
      using ts by (cases ts) (auto simp: of_types_def)
    finally show ?thesis by (cases "wo_position ob") auto
  qed
  then show "ob \<in> set found \<longleftrightarrow> objs w (wo_id ob) = Some ob \<and> (case ts of Some l \<Rightarrow> wo_type ob \<in> set l | None \<Rightarrow> True) \<and>
       (case wo_position ob of Some p \<Rightarrow> regionContains r (place p) | None \<Rightarrow> False)"
    unfolding found found_members [OF w] set_map by blast
qed

lemma live_candidates:
  assumes w: "world_ok B w" and q: "plain_query q" and g: "wq_region q = None \<or> on_globe w"
  shows "distinct (map wo_id (liveCandidates q w))"
    "ob \<in> set (liveCandidates q w) \<longleftrightarrow> objs w (wo_id ob) = Some ob \<and> asked_types q ob \<and> asked_place q ob"
proof -
  let ?ts = "restriction (wq_objects q)"
  have ts: "distinct l \<and> [] \<notin> set l" if "?ts = Some l" for l
    using q restricted [OF that] by (simp add: plain_query_def)
  have "distinct (map wo_id (liveCandidates q w)) \<and>
    (\<forall>ob. ob \<in> set (liveCandidates q w) \<longleftrightarrow> objs w (wo_id ob) = Some ob \<and> asked_types q ob \<and> asked_place q ob)"
  proof (cases "wq_region q")
    case None
    show ?thesis
    proof (cases ?ts)
      case N: None
      then show ?thesis using all_candidates [OF w] None by (simp add: liveCandidates_def asked_types_def asked_place_def)
    next
      case (Some l)
      have "ob \<in> set (concat (map (ofType w) l)) \<longleftrightarrow> objs w (wo_id ob) = Some ob \<and> wo_type ob \<in> set l" for ob
        using ofType_members [OF w, of ob] by auto
      then show ?thesis
        using types_candidates [OF w] ts [OF Some] None Some
        by (simp add: liveCandidates_def asked_types_def asked_place_def)
    qed
  next
    case (Some r)
    show ?thesis
    proof (cases "regionBounds r")
      case None
      then obtain i where r: "r = Admin_Region i None" by (cases r) auto
      then have "\<not> asked_place q ob" for ob using Some by (simp add: asked_place_def split: option.splits)
      then show ?thesis using r Some by (simp add: liveCandidates_def)
    next
      case b: (Some b)
      have adm: "\<not> (case r of Admin_Region i None \<Rightarrow> True | _ \<Rightarrow> False)" using b by (cases r) (auto split: option.splits)
      have p: "plain r" "south b < 90" "west b < 180" using q b Some by (simp_all add: plain_query_def)
      have gl: "on_globe w" using g Some by simp
      have "case ?ts of Some l \<Rightarrow> [] \<notin> set l | None \<Rightarrow> True" using ts by (simp split: option.splits)
      note c = region_candidates [OF w gl p(1) b p(2,3) this]
      have "liveCandidates q w = objects_within w r \<lparr>q_types = ?ts, q_limit = None\<rparr>"
        using adm Some by (simp add: liveCandidates_def Let_def)
      then show ?thesis using c Some by (simp add: asked_types_def asked_place_def)
    qed
  qed
  then show "distinct (map wo_id (liveCandidates q w))"
    "ob \<in> set (liveCandidates q w) \<longleftrightarrow> objs w (wo_id ob) = Some ob \<and> asked_types q ob \<and> asked_place q ob" by blast+
qed

text \<open>A sort that is not asked for is by time, and the times of the world and of the store can be read.\<close>

lemma readable_kind:
  assumes "date_parse t \<noteq> None"
  shows "comparableKind (Some (JStr t)) = K_Date"
proof -
  have "iso_fields t \<noteq> None" using assms by (auto simp: date_parse_def split: option.splits)
  then have "iso_like t" unfolding iso_fields_def iso_like_def by (auto split: if_splits)
  with assms show ?thesis by simp
qed

lemma default_keys:
  "(\<And>x. x \<in> M \<Longrightarrow> date_parse (timeOf x) \<noteq> None) \<Longrightarrow> uniform_keys (keys_of None read timeOf M)"
  using readable_kind by (fastforce simp: uniform_keys_def keys_of_def)

abbreviation object_order :: "world_query \<Rightarrow> world_object \<Rightarrow> world_object \<Rightarrow> bool" where
  "object_order q \<equiv> goes_first (wq_sort q) resolveObjectField wo_id wo_observed"

abbreviation event_order :: "world_query \<Rightarrow> world_event \<Rightarrow> world_event \<Rightarrow> bool" where
  "event_order q \<equiv> goes_first (wq_sort q) resolveEventField ev_id ev_start"

lemma returns_matches_order:
  "returns_matches r M limit before k \<Longrightarrow> (k' \<Longrightarrow> k) \<Longrightarrow> returns_matches r M limit before k'"
  unfolding returns_matches_def by blast

lemma live_query:
  assumes w: "world_ok B w" and q: "plain_query q" and g: "wq_region q = None \<or> on_globe w"
  defines "M \<equiv> {ob. objs w (wo_id ob) = Some ob \<and> keeps_object q ob}"
  shows "returns_matches (executeQuery q w now) M (wq_limit q) (object_order q)
    (wq_sort q = None \<or> uniform_keys (keys_of (wq_sort q) resolveObjectField wo_observed M))"
proof -
  let ?xs = "filter (keeps_object q) (liveCandidates q w)"
  have M: "set ?xs = M" unfolding M_def using live_candidates(2) [OF w q g] keeps_asked by auto
  have d: "distinct (map wo_id ?xs)" by (rule distinct_map_filter [OF live_candidates(1) [OF w q g]])
  have "date_parse (wo_observed ob) \<noteq> None" if "ob \<in> M" for ob
    using that world_okD(6) [OF w] unfolding M_def readable_def by blast
  then have "uniform_keys (keys_of None resolveObjectField wo_observed M)" by (rule default_keys)
  moreover have "returns_matches (executeQuery q w now) M (wq_limit q) (object_order q)
      (uniform_keys (keys_of (wq_sort q) resolveObjectField wo_observed M))"
    using returned [OF d, of "wq_sort q" resolveObjectField wo_observed "wq_limit q" Live_Basis now]
    unfolding M by (simp add: executeQuery_def applyObjectQuery_def)
  ultimately show ?thesis by (elim returns_matches_order) auto
qed

lemma event_query:
  fixes q :: world_query
  assumes s: "store_ok s"
  defines "M \<equiv> {e. e \<in> set (st_ordered s) \<and> keeps_event q e}"
  shows "returns_matches (list_events s q now) M (wq_limit q) (event_order q)
    (wq_sort q = None \<or> uniform_keys (keys_of (wq_sort q) resolveEventField ev_start M))"
proof -
  let ?xs = "filter (keeps_event q) (st_ordered s)"
  have M: "set ?xs = M" unfolding M_def by auto
  have d: "distinct (map ev_id ?xs)" by (rule distinct_map_filter [OF store_okD(1) [OF s]])
  have "date_parse (ev_start e) \<noteq> None" if "e \<in> M" for e
    using that store_okD(3) [OF s] unfolding M_def readable_event_def by blast
  then have "uniform_keys (keys_of None resolveEventField ev_start M)" by (rule default_keys)
  moreover have "returns_matches (list_events s q now) M (wq_limit q) (event_order q)
      (uniform_keys (keys_of (wq_sort q) resolveEventField ev_start M))"
    using returned [OF d, of "wq_sort q" resolveEventField ev_start "wq_limit q" Live_Basis now]
    unfolding M by (simp add: list_events_def executeEventQuery_def)
  ultimately show ?thesis by (elim returns_matches_order) auto
qed


definition any_query :: world_query where
  "any_query = \<lparr>wq_objects = None, wq_events = None, wq_text = None, wq_region = None, wq_time = None,
     wq_filters = None, wq_sort = None, wq_limit = None, wq_providers = None\<rparr>"

lemma any_query_keeps: "keeps_object any_query ob"
  by (simp add: keeps_object_def any_query_def restriction_def matchesAll_def tokens_of_def)

lemma any_event_keeps: "keeps_event any_query e"
  by (simp add: keeps_event_def any_query_def restriction_def matchesAll_def tokens_of_def)




section \<open>What the order of a sort does not promise\<close>

text \<open>
  The comparison of keys of different kinds is no order: a number lies between two texts that
  are written as numbers by their values, while the texts are compared as texts. What a sort by
  such a property gives depends on where the sorting algorithm starts.
\<close>

lemma mixed_keys_cycle:
  "compareValues (Some (JStr (js ''9''))) (Some (JNum (19 / 2))) = -1"
  "compareValues (Some (JNum (19 / 2))) (Some (JStr (js ''10''))) = -1"
  "compareValues (Some (JStr (js ''10''))) (Some (JStr (js ''9''))) = -1"
  by (simp_all add: compareValues_def iso_like_def sign_def trim_def is_space_def number_of_text_def decimal_number_def
      sign_split_def ahead_of_def behind_def whole_def digit_of_def is_digit_def exponent_of_def lower_def is_upper_def)

text \<open>A type named twice in a query is looked up twice.\<close>

lemma repeated_type:
  assumes "wq_objects q = Some [t, t]" "wq_region q = None"
  shows "liveCandidates q w = ofType w t @ ofType w t"
  using assms by (simp add: liveCandidates_def restriction_def)

end
