(* ===== verification/Spec2Isabelle.thy ===== *)
theory Spec2Isabelle
  imports
    Prelude Resilience Utf8 Mqtt_Packets Topics Mesh_Wire Source_Health Http_Client Aivdm Geo
    Date_Time World_Model Identity Grid_Index World_State Events Watch_Zones Feed Event_Rules
    Event_Engine Fingerprints Episodes Event_Types Query_Fields Query
begin

text \<open>
  A verification development for OP-CB (\<^verbatim>\<open>oneview\<close>), a local-first browser of the physical
  world. Providers fetch from services or read local devices; what they decode becomes
  observations; the world state resolves each to an object and keeps the objects, their indexes
  and what changed; event rules, watch zones and the feed work on the objects; the health of every
  source is kept beside them. The theories follow that path, one per component:

  \<^item> \<open>Prelude\<close>: JavaScript text, bytes, insertion-ordered maps, indexes and stable sorting as the
    other theories use them, and the locale \<open>framer\<close> of readers that cut frames off a buffer.
  \<^item> \<open>Resilience\<close> (\<^verbatim>\<open>packages/core/src/resilience.ts\<close>): backoff, sliding-window limits, circuit
    breaker, single flight, retry. \<open>Http_Client\<close> (\<^verbatim>\<open>packages/core/src/http.ts\<close>) composes them: the
    checks before a request is sent, its attempts, the cache and the pacing of a host.
  \<^item> \<open>Utf8\<close>, \<open>Mqtt_Packets\<close>, \<open>Topics\<close> (\<^verbatim>\<open>packages/runtime/src/support/mqtt-packets.ts\<close>,
    \<^verbatim>\<open>packages/connector-sdk/src/mqtt.ts\<close>): the MQTT codec, its reader and the topic filters.
  \<^item> \<open>Mesh_Wire\<close>, \<open>Aivdm\<close> (\<^verbatim>\<open>providers/meshtastic-local/src/wire.ts\<close>,
    \<^verbatim>\<open>providers/ais-local/src/aivdm.ts\<close>): what local
    radios and gateways send, byte by byte.
  \<^item> \<open>Source_Health\<close> (\<^verbatim>\<open>packages/source-health\<close>, \<^verbatim>\<open>packages/provider-sdk\<close>): the registry of
    source states and the connection it derives.
  \<^item> \<open>Geo\<close>, \<open>Date_Time\<close>, \<open>World_Model\<close> (\<^verbatim>\<open>packages/world-model/src\<close>): the contracts.
  \<^item> \<open>Identity\<close> (\<^verbatim>\<open>packages/identity\<close>), \<open>Grid_Index\<close> (\<^verbatim>\<open>packages/hot-spatial-index\<close>) and
    \<open>World_State\<close> (\<^verbatim>\<open>packages/state-engine\<close>): an observation is resolved, merged into its
    object and indexed; changes are collected and flushed to the listeners.
  \<^item> \<open>Events\<close>, \<open>Watch_Zones\<close>, \<open>Event_Rules\<close>, \<open>Event_Engine\<close>, \<open>Feed\<close> (\<^verbatim>\<open>packages/event-engine/src\<close>,
    \<^verbatim>\<open>packages/query-engine/src/geometry.ts\<close>): rules turn changed objects into events, the store
    keeps the newest, zones announce what concerns them, the feed keeps what weighs most.
    \<open>Query_Fields\<close> and \<open>Query\<close> (\<^verbatim>\<open>packages/query-engine/src\<close>) answer queries over the world and the
    store. \<open>Fingerprints\<close>, \<open>Episodes\<close> and \<open>Event_Types\<close> show
    what the rules, the engine and the store make true together.

  Correspondence. Definitions have the source's names (a suffix where HOL has the name); a class is
  a record of its fields and a method a function on it; a branch that throws is \<open>Inl\<close> or \<open>None\<close>.
  The clock is an argument. A callback of a listener is a value in the result, in the order the
  listeners hear it. Asynchronous code is taken step by step: an exchange of the HTTP client is
  one operation whose argument holds what the network did.

  Lemmas. Each component has an invariant (\<open>grid_ok\<close>, \<open>world_ok\<close>, \<open>store_ok\<close>, \<open>host_view\<close>,
  \<open>cache_ok\<close>, \<open>histories_ok\<close>) that its operations keep, facts \<open>D\<close> that take it apart, and a run
  over any sequence of calls; the properties are the invariant read at the end of a run.
  Locales state what one part relies on in another, and each is interpreted on the code's model:
  \<open>framer\<close> (a reader's frames do not depend on how bytes were chunked: the MQTT and the Meshtastic
  readers), \<open>window_log\<close> (the sliding windows of \<open>Resilience\<close>), \<open>unlimited\<close> and its extensions (the
  parts of the HTTP client's state that an exchange leaves alone), \<open>message_reader\<close> (readers of
  protobuf messages), \<open>spatial_index\<close> (what the world relies on in its index: the grid) and
  \<open>declared_rule\<close> (what a rule owes the engine: the episode rules).
  Reference definitions the code is proved equal to stand beside the code's
  (\<open>covers\<close> for topics, \<open>spec_step\<close> for the event store, and the matching objects for queries).

  Bounds and fuel. Loops are structural where the source walks a list. The Douglas-Peucker stack,
  the search of a year, the binary search and the eviction of events end by the measure given with
  them. \<open>nearest\<close> widens its radius until it has enough, and is a partial function shown to
  return. The fraction of a number written as text stops after twenty places.

  Idealisations. Numbers with fractions are exact reals or rationals; \<open>NaN\<close> is \<open>None\<close> where a branch
  depends on it. Times are the ISO forms the program itself writes; others \<open>Date.parse\<close> may take
  are no times. \<open>toUpperCase\<close> and \<open>toLowerCase\<close> are those of ASCII. Objects have their identity
  (\<open>ob_cell\<close>) only where the code compares references.

  Not modelled: the drawing (\<^verbatim>\<open>packages/render-*\<close>), the interface (\<^verbatim>\<open>apps/desktop/src/renderer\<close>,
  \<^verbatim>\<open>packages/ui\<close>) and the Electron host (\<^verbatim>\<open>apps/desktop/src/main\<close>), whose correctness is that of
  libraries they call; the storage of history and offline packs (DuckDB, SQLite, ZIP and PMTiles
  files), the polling of providers and the wiring of the runtime, which are asynchronous input
  and output over the components here; and the field tables of the providers' JSON sources. The
  manifest lists each with its reason.
\<close>

end
